(* ===== verification/SDR_Prelude.thy ===== *)
theory SDR_Prelude
  imports Main "HOL-Library.Word"
begin

text \<open>
  Shared vocabulary of the development: the machine integer types of the C++ sources, counted
  loops, array accesses whose out-of-range case is a value, bitmaps packed in 64-bit words and
  their reading as sets of natural numbers, and ceiling division.

  Conventions.  A result of type \<open>'a option\<close> whose \<open>None\<close> is described as a fault stands for
  undefined behaviour of the C++ abstract machine (an access outside an allocation, a division by
  zero).  Unsigned arithmetic wraps, so it is arithmetic on \<open>'w word\<close>.  \<open>size_t\<close> has 64 bits.
\<close>

unbundle bit_operations_syntax

type_synonym u8 = "8 word"
type_synonym u16 = "16 word"
type_synonym u32 = "32 word"
type_synonym u64 = "64 word"

text \<open>Facts about the operations of the components, and about preservation of their invariants.\<close>

named_theorems sdr_simps
named_theorems sdr_inv

section \<open>Machine integers\<close>

text \<open>Bounds on the values of the fixed widths.\<close>

lemma unat_width:
  "unat (a :: u8) < 256" "unat (b :: 10 word) < 1024" "unat (c :: u16) < 65536"
  "unat (d :: 18 word) < 262144" "unat (e :: u32) < 4294967296"
  "unat (f :: u64) < 18446744073709551616"
  using unsigned_less [of a, where 'a = nat] unsigned_less [of b, where 'a = nat]
    unsigned_less [of c, where 'a = nat] unsigned_less [of d, where 'a = nat]
    unsigned_less [of e, where 'a = nat] unsigned_less [of f, where 'a = nat]
  by simp_all

lemma unat_of_nat_small: "n < 2 ^ LENGTH('w) \<Longrightarrow> unat (of_nat n :: 'w::len word) = n"
  by (simp add: unat_of_nat)

lemma unat_of_nat_below: "n < unat (b :: 'w::len word) \<Longrightarrow> unat (of_nat n :: 'w word) = n"
  by (rule unat_of_nat_small) (rule less_trans [OF _ unsigned_less])

section \<open>Counted loops\<close>

lemma unat_Suc_less:
  assumes "i < n"
  shows "unat (i + 1 :: 'w::len word) = Suc (unat i)"
proof -
  have lt: "unat i < unat n" using assms by (simp add: word_less_nat_alt)
  have "unat n < 2 ^ LENGTH('w)" by (rule unsigned_less)
  with lt have "Suc (unat i) < 2 ^ LENGTH('w)" by linarith
  then show ?thesis by (simp add: unat_word_ariths)
qed

text \<open>The loop \<open>for (i = a; i < n; ++i) s = f(i, s)\<close> over an unsigned counter.\<close>

function for_word :: "'w::len word \<Rightarrow> 'w word \<Rightarrow> ('w word \<Rightarrow> 's \<Rightarrow> 's) \<Rightarrow> 's \<Rightarrow> 's" where
  "for_word i n f s = (if i < n then for_word (i + 1) n f (f i s) else s)"
  by pat_completeness auto
termination
proof (relation "measure (\<lambda>(i, n, f, s). unat n - unat i)")
  fix i n :: "'w::len word" and f :: "'w word \<Rightarrow> 's \<Rightarrow> 's" and s
  assume "i < n"
  moreover from this have "unat (i + 1) = Suc (unat i)" by (rule unat_Suc_less)
  ultimately show "((i + 1, n, f, f i s), i, n, f, s) \<in> measure (\<lambda>(i, n, f, s). unat n - unat i)"
    by (simp add: word_less_nat_alt)
qed simp

declare for_word.simps [simp del]

text \<open>
  The same loop with a body that may leave it (\<open>Inl\<close>: a \<open>return\<close>, a \<open>break\<close> or a fault) or go on
  to the next iteration (\<open>Inr\<close>).
\<close>

function for_exit :: "'w::len word \<Rightarrow> 'w word \<Rightarrow> ('w word \<Rightarrow> 's \<Rightarrow> 'e + 's) \<Rightarrow> 's \<Rightarrow> 'e + 's" where
  "for_exit i n f s =
     (if i < n then (case f i s of Inl e \<Rightarrow> Inl e | Inr s' \<Rightarrow> for_exit (i + 1) n f s') else Inr s)"
  by pat_completeness auto
termination
proof (relation "measure (\<lambda>(i, n, f, s). unat n - unat i)")
  fix i n :: "'w::len word" and f :: "'w word \<Rightarrow> 's \<Rightarrow> 'e + 's" and s s'
  assume "i < n"
  moreover from this have "unat (i + 1) = Suc (unat i)" by (rule unat_Suc_less)
  ultimately show "((i + 1, n, f, s'), i, n, f, s) \<in> measure (\<lambda>(i, n, f, s). unat n - unat i)"
    by (simp add: word_less_nat_alt)
qed simp

declare for_exit.simps [simp del]

lemma for_word_done [simp]: "\<not> i < n \<Longrightarrow> for_word i n f s = s"
  by (simp add: for_word.simps)

lemma for_word_step: "i < n \<Longrightarrow> for_word i n f s = for_word (i + 1) n f (f i s)"
  by (simp add: for_word.simps [of i n f s])

lemma for_exit_done [simp]: "\<not> i < n \<Longrightarrow> for_exit i n f s = Inr s"
  by (simp add: for_exit.simps)

lemma for_exit_step:
  "i < n \<Longrightarrow> for_exit i n f s = (case f i s of Inl e \<Rightarrow> Inl e | Inr s' \<Rightarrow> for_exit (i + 1) n f s')"
  by (simp add: for_exit.simps [of i n f s])

text \<open>A loop without exits is a fold over the counter's values.\<close>

lemma for_word_fold:
  "for_word i n f s = fold (\<lambda>k. f (of_nat k)) [unat i..<unat n] s"
proof (induction i n f s rule: for_word.induct)
  case (1 i n f s)
  show ?case
  proof (cases "i < n")
    case True
    then have "[unat i..<unat n] = unat i # [unat (i + 1)..<unat n]"
      by (simp add: unat_Suc_less word_less_nat_alt upt_conv_Cons)
    with True 1 show ?thesis by (simp add: for_word_step)
  next
    case False
    then show ?thesis by (simp add: word_less_nat_alt)
  qed
qed

text \<open>
  The invariant rule of both loops: \<open>P\<close> is indexed by the counter as a natural number.
\<close>

lemma for_word_inv:
  assumes "P (unat i) s" and "i \<le> n"
    and "\<And>k s. unat i \<le> k \<Longrightarrow> k < unat n \<Longrightarrow> P k s \<Longrightarrow> P (Suc k) (f (of_nat k) s)"
  shows "P (unat n) (for_word i n f s)"
  using assms
proof (induction i n f s rule: for_word.induct)
  case (1 i n f s)
  show ?case
  proof (cases "i < n")
    case True
    have "P (unat (i + 1)) (f i s)"
      using "1.prems"(1) "1.prems"(3)[of "unat i" s] True
      by (simp add: unat_Suc_less word_less_nat_alt)
    moreover have "i + 1 \<le> n" using True by (simp add: inc_le)
    ultimately show ?thesis
      using 1 True by (simp add: for_word_step unat_Suc_less)
  next
    case False
    with "1.prems"(2) have "i = n" by simp
    with "1.prems"(1) show ?thesis by simp
  qed
qed

lemma for_exit_total:
  assumes "P (unat i) s" and "i \<le> n"
    and "\<And>k s. unat i \<le> k \<Longrightarrow> k < unat n \<Longrightarrow> P k s \<Longrightarrow> \<exists>s'. f (of_nat k) s = Inr s' \<and> P (Suc k) s'"
  shows "\<exists>s'. for_exit i n f s = Inr s' \<and> P (unat n) s'"
  using assms
proof (induction i n f s rule: for_exit.induct)
  case (1 i n f s)
  show ?case
  proof (cases "i < n")
    case True
    obtain s' where s': "f i s = Inr s'" "P (unat (i + 1)) s'"
      using "1.prems"(1) "1.prems"(3)[of "unat i" s] True
      by (auto simp: unat_Suc_less word_less_nat_alt)
    moreover have "i + 1 \<le> n" using True by (simp add: inc_le)
    ultimately show ?thesis
      using 1 True by (simp add: for_exit_step unat_Suc_less)
  next
    case False
    with "1.prems"(2) have "i = n" by simp
    with "1.prems"(1) show ?thesis by simp
  qed
qed

text \<open>The rule for both outcomes.\<close>

lemma for_exit_rule:
  assumes "P (unat i) s" and "i \<le> n"
    and "\<And>k s s'. unat i \<le> k \<Longrightarrow> k < unat n \<Longrightarrow> P k s \<Longrightarrow> f (of_nat k) s = Inr s' \<Longrightarrow> P (Suc k) s'"
    and "\<And>k s e. unat i \<le> k \<Longrightarrow> k < unat n \<Longrightarrow> P k s \<Longrightarrow> f (of_nat k) s = Inl e \<Longrightarrow> Q e"
  shows "case for_exit i n f s of Inr s' \<Rightarrow> P (unat n) s' | Inl e \<Rightarrow> Q e"
  using assms
proof (induction i n f s rule: for_exit.induct)
  case (1 i n f s)
  show ?case
  proof (cases "i < n")
    case True
    then have lt: "unat i < unat n" and suc: "unat (i + 1) = Suc (unat i)"
      by (simp_all add: word_less_nat_alt unat_Suc_less)
    show ?thesis
    proof (cases "f i s")
      case (Inl e)
      then show ?thesis
        using "1.prems"(1) "1.prems"(4) [of "unat i" s e] True lt by (simp add: for_exit_step)
    next
      case (Inr s')
      have P': "P (unat (i + 1)) s'" using "1.prems"(1) "1.prems"(3) [of "unat i" s s'] Inr lt suc by simp
      have le: "i + 1 \<le> n" using True by (simp add: inc_le)
      have "case for_exit (i + 1) n f s' of Inr s' \<Rightarrow> P (unat n) s' | Inl e \<Rightarrow> Q e"
        by (rule "1.IH" [OF True Inr P' le]) (use "1.prems"(3,4) suc in \<open>auto dest: Suc_leD\<close>)
      then show ?thesis using True Inr by (simp add: for_exit_step)
    qed
  next
    case False
    with "1.prems"(2) have "i = n" by simp
    with "1.prems"(1) show ?thesis by simp
  qed
qed

text \<open>A loop that leaves with \<open>e\<close> at the first counter value failing a test.\<close>

lemma for_exit_all:
  assumes "\<And>k. unat i \<le> k \<Longrightarrow> k < unat n \<Longrightarrow> f (of_nat k) s = (if P k then Inr s else Inl e)"
  shows "for_exit i n f s = (if \<forall>k. unat i \<le> k \<and> k < unat n \<longrightarrow> P k then Inr s else Inl e)"
  using assms
proof (induction i n f s rule: for_exit.induct)
  case (1 i n f s)
  show ?case
  proof (cases "i < n")
    case True
    then have lt: "unat i < unat n" by (simp add: word_less_nat_alt)
    have suc: "unat (i + 1) = Suc (unat i)" using True by (rule unat_Suc_less)
    have f: "f i s = (if P (unat i) then Inr s else Inl e)"
      using "1.prems" [of "unat i"] lt by simp
    have split: "(\<forall>k. unat i \<le> k \<and> k < unat n \<longrightarrow> P k) \<longleftrightarrow>
        P (unat i) \<and> (\<forall>k. Suc (unat i) \<le> k \<and> k < unat n \<longrightarrow> P k)"
      using lt by (metis Suc_leI le_neq_implies_less order_refl Suc_leD)
    show ?thesis
    proof (cases "P (unat i)")
      case True
      have "for_exit (i + 1) n f s =
          (if \<forall>k. unat (i + 1) \<le> k \<and> k < unat n \<longrightarrow> P k then Inr s else Inl e)"
        by (rule "1.IH" [OF \<open>i < n\<close>]) (use True f "1.prems" suc in auto)
      then show ?thesis using True f split suc \<open>i < n\<close> by (simp add: for_exit_step)
    next
      case False
      then show ?thesis using f split \<open>i < n\<close> by (simp add: for_exit_step)
    qed
  next
    case False
    then show ?thesis by (auto simp: word_less_nat_alt)
  qed
qed

text \<open>
  The loop \<open>for (i = a; i < n && g(s); ++i)\<close> with a body that may fault.  The condition \<open>g\<close> is on the
  state; a loop without one has \<open>g = (\<lambda>_. True)\<close>.
\<close>

definition loop_result :: "'s option + 's \<Rightarrow> 's option" where
  "loop_result r = (case r of Inl x \<Rightarrow> x | Inr s \<Rightarrow> Some s)"

definition for_while ::
    "'w::len word \<Rightarrow> 'w word \<Rightarrow> ('s \<Rightarrow> bool) \<Rightarrow> ('w word \<Rightarrow> 's \<Rightarrow> 's option) \<Rightarrow> 's \<Rightarrow> 's option" where
  "for_while i n g f s =
     loop_result (for_exit i n (\<lambda>i s. if \<not> g s then Inl (Some s)
       else case f i s of None \<Rightarrow> Inl None | Some s' \<Rightarrow> Inr s') s)"

lemma loop_result_simps [simp]: "loop_result (Inl x) = x" "loop_result (Inr s) = Some s"
  by (simp_all add: loop_result_def)

lemma for_while_done [simp]: "\<not> i < n \<Longrightarrow> for_while i n g f s = Some s"
  by (simp add: for_while_def)

lemma for_while_stop: "\<not> g s \<Longrightarrow> for_while i n g f s = Some s"
  by (cases "i < n") (simp_all add: for_while_def for_exit_step)

lemma for_while_step:
  "i < n \<Longrightarrow> g s \<Longrightarrow>
     for_while i n g f s = (case f i s of None \<Rightarrow> None | Some s' \<Rightarrow> for_while (i + 1) n g f s')"
  by (simp add: for_while_def for_exit_step split: option.split)

text \<open>A loop without faults stops at a counter value \<open>j\<close>, at the bound or where the condition failed.\<close>

lemma for_while_total:
  assumes "P (unat i) s" and "i \<le> n"
    and "\<And>k s. unat i \<le> k \<Longrightarrow> k < unat n \<Longrightarrow> g s \<Longrightarrow> P k s \<Longrightarrow> \<exists>s'. f (of_nat k) s = Some s' \<and> P (Suc k) s'"
  shows "\<exists>s' j. for_while i n g f s = Some s' \<and> unat i \<le> j \<and> j \<le> unat n \<and> P j s' \<and> (j = unat n \<or> \<not> g s')"
  using assms
proof (induction "unat n - unat i" arbitrary: i s)
  case 0
  then have "i = n" by (simp add: word_le_nat_alt unat_arith_simps(1) flip: word_unat_eq_iff)
  with 0 show ?case by auto
next
  case (Suc d)
  then have lt: "i < n" by (simp add: word_less_nat_alt)
  show ?case
  proof (cases "g s")
    case False
    with Suc.prems lt show ?thesis
      by (intro exI [of _ s] exI [of _ "unat i"]) (simp add: for_while_stop word_less_nat_alt)
  next
    case True
    have suc: "unat (i + 1) = Suc (unat i)" using lt by (rule unat_Suc_less)
    obtain s' where s': "f i s = Some s'" "P (Suc (unat i)) s'"
      using Suc.prems(1) Suc.prems(3) [of "unat i" s] lt True by (auto simp: word_less_nat_alt)
    have "\<exists>s'' j. for_while (i + 1) n g f s' = Some s'' \<and> unat (i + 1) \<le> j \<and> j \<le> unat n \<and> P j s''
        \<and> (j = unat n \<or> \<not> g s'')"
    proof (rule Suc.hyps(1))
      show "d = unat n - unat (i + 1)" using Suc.hyps(2) suc by simp
      show "P (unat (i + 1)) s'" using s'(2) suc by simp
      show "i + 1 \<le> n" using lt by (rule inc_le)
    qed (use Suc.prems(3) suc in auto)
    then show ?thesis using s'(1) lt True suc by (auto simp: for_while_step dest: Suc_leD)
  qed
qed

text \<open>An invariant of a loop that has returned, and a loop that reaches a fault.\<close>

lemma for_while_some:
  assumes "for_while i n g f s = Some s'" and "P s"
    and "\<And>i t t'. P t \<Longrightarrow> f i t = Some t' \<Longrightarrow> P t'"
  shows "P s'"
  using assms(1,2)
proof (induction "unat n - unat i" arbitrary: i s)
  case 0
  then have "\<not> i < n" by (simp add: word_less_nat_alt)
  with 0 show ?case by simp
next
  case (Suc d)
  then have lt: "i < n" by (simp add: word_less_nat_alt)
  show ?case
  proof (cases "g s")
    case True
    then obtain t where "f i s = Some t" "for_while (i + 1) n g f t = Some s'"
      using Suc.prems(1) lt by (auto simp: for_while_step split: option.splits)
    moreover have "d = unat n - unat (i + 1)" using Suc.hyps(2) lt by (simp add: unat_Suc_less)
    ultimately show ?thesis using Suc.hyps(1) Suc.prems(2) assms(3) by blast
  next
    case False
    then show ?thesis using Suc.prems by (simp add: for_while_stop)
  qed
qed

lemma for_while_fault:
  assumes "unat i \<le> j" and "j < unat n" and "g s" and "\<And>k. unat i \<le> k \<Longrightarrow> k < j \<Longrightarrow> f (of_nat k) s = Some s"
    and "f (of_nat j) s = None"
  shows "for_while i n g f s = None"
  using assms
proof (induction "j - unat i" arbitrary: i)
  case 0
  then have "unat i = j" "i < n" by (simp_all add: word_less_nat_alt)
  with 0 show ?case by (metis for_while_step of_nat_unat option.case(1) ucast_id)
next
  case (Suc d)
  have lt: "i < n" using Suc.prems(1,2) by (simp add: word_less_nat_alt)
  have suc: "unat (i + 1) = Suc (unat i)" using lt by (rule unat_Suc_less)
  have "f i s = Some s" using Suc.prems(4) [of "unat i"] Suc.hyps(2) by simp
  moreover have "for_while (i + 1) n g f s = None"
    by (rule Suc.hyps(1)) (use Suc.prems Suc.hyps(2) suc in auto)
  ultimately show ?case using lt Suc.prems(3) by (simp add: for_while_step)
qed

section \<open>Arrays\<close>

text \<open>\<open>a[i]\<close> read and written: \<open>None\<close> is an access outside the allocation.\<close>

definition arr_get :: "'a list \<Rightarrow> nat \<Rightarrow> 'a option" where
  "arr_get xs i = (if i < length xs then Some (xs ! i) else None)"

definition arr_set :: "'a list \<Rightarrow> nat \<Rightarrow> 'a \<Rightarrow> 'a list option" where
  "arr_set xs i x = (if i < length xs then Some (xs[i := x]) else None)"

lemma arr_get_in [simp]: "i < length xs \<Longrightarrow> arr_get xs i = Some (xs ! i)"
  by (simp add: arr_get_def)

lemma arr_get_out [simp]: "length xs \<le> i \<Longrightarrow> arr_get xs i = None"
  by (simp add: arr_get_def)

lemma arr_set_in [simp]: "i < length xs \<Longrightarrow> arr_set xs i x = Some (xs[i := x])"
  by (simp add: arr_set_def)

lemma arr_set_out [simp]: "length xs \<le> i \<Longrightarrow> arr_set xs i x = None"
  by (simp add: arr_set_def)

lemma list_from_image: "set ys \<subseteq> f ` A \<Longrightarrow> \<exists>xs. ys = map f xs \<and> set xs \<subseteq> A"
proof (induction ys)
  case Nil
  then show ?case by simp
next
  case (Cons y ys)
  then obtain x xs where "y = f x" "x \<in> A" "ys = map f xs" "set xs \<subseteq> A" by auto
  then show ?case by (intro exI [of _ "x # xs"]) simp
qed

text \<open>\<open>memcpy(dst + off, src, length src)\<close> inside one allocation.\<close>

definition mem_write :: "'a list \<Rightarrow> nat \<Rightarrow> 'a list \<Rightarrow> 'a list option" where
  "mem_write dst off src =
     (if off + length src \<le> length dst
      then Some (take off dst @ src @ drop (off + length src) dst) else None)"

lemma mem_write_length:
  assumes "mem_write dst off src = Some dst'"
  shows "length dst' = length dst"
proof -
  from assms have "off + length src \<le> length dst"
    and "dst' = take off dst @ src @ drop (off + length src) dst"
    unfolding mem_write_def by (metis option.distinct(1), metis option.distinct(1) option.inject)
  then show ?thesis by simp
qed

lemma mem_write_fits [simp]:
  "off + length src \<le> length dst \<Longrightarrow>
     mem_write dst off src = Some (take off dst @ src @ drop (off + length src) dst)"
  by (simp add: mem_write_def)

lemma mem_write_overrun [simp]: "length dst < off + length src \<Longrightarrow> mem_write dst off src = None"
  by (simp add: mem_write_def)

lemma mem_write_nth:
  assumes w: "mem_write dst off src = Some dst'" and i: "i < length dst"
  shows "dst' ! i = (if off \<le> i \<and> i < off + length src then src ! (i - off) else dst ! i)"
proof -
  from w have fits: "off + length src \<le> length dst"
    and dst': "dst' = take off dst @ src @ drop (off + length src) dst"
    by (auto simp: mem_write_def split: if_splits)
  have l: "length (take off dst) = off" using fits by simp
  consider "i < off" | "off \<le> i" "i < off + length src" | "off + length src \<le> i" by linarith
  then show ?thesis
  proof cases
    case 1
    then show ?thesis using l by (simp add: dst' nth_append)
  next
    case 2
    then have "i - off < length src" by linarith
    then show ?thesis using 2 l by (simp add: dst' nth_append)
  next
    case 3
    then have "\<not> i - off < length src" by linarith
    then show ?thesis using 3 l i fits by (simp add: dst' nth_append)
  qed
qed

section \<open>Bitmaps packed in 64-bit words\<close>

text \<open>
  The set of positions whose bit is set: position \<open>n\<close> is bit \<open>n mod 64\<close> of word \<open>n div 64\<close>.
\<close>

definition bits_of :: "u64 list \<Rightarrow> nat set" where
  "bits_of ws = {n. n div 64 < length ws \<and> bit (ws ! (n div 64)) (n mod 64)}"

lemma bits_of_replicate_0 [simp]: "bits_of (replicate k 0) = {}"
  by (auto simp: bits_of_def)

lemma bits_of_bound: "n \<in> bits_of ws \<Longrightarrow> n < 64 * length ws"
  by (auto simp: bits_of_def)

lemma finite_bits_of [simp]: "finite (bits_of ws)"
  by (rule finite_subset [of _ "{..<64 * length ws}"]) (auto dest: bits_of_bound)

lemma bits_of_or:
  assumes "n div 64 < length ws"
  shows "bits_of (ws[n div 64 := ws ! (n div 64) OR push_bit (n mod 64) 1]) = insert n (bits_of ws)"
proof (rule set_eqI)
  fix m
  have "m = n \<longleftrightarrow> m div 64 = n div 64 \<and> m mod 64 = n mod 64"
    by (metis div_mult_mod_eq)
  then show "m \<in> bits_of (ws[n div 64 := ws ! (n div 64) OR push_bit (n mod 64) 1])
      \<longleftrightarrow> m \<in> insert n (bits_of ws)"
    using assms by (auto simp: bits_of_def nth_list_update bit_simps)
qed

lemma word_eq_bit_iff:
  "(a :: 'w::len word) = b \<longleftrightarrow> (\<forall>n<LENGTH('w). bit a n = bit b n)"
  by (auto intro: bit_word_eqI)

lemma and_bit_mask_eq_0: "k < 64 \<Longrightarrow> (w :: u64) AND 2 ^ k = 0 \<longleftrightarrow> \<not> bit w k"
  by (auto simp: word_eq_bit_iff bit_simps)

text \<open>Masking with a set of bits and comparing with the mask tests that all of them are set.\<close>

lemma and_mask_eq_iff:
  "(w :: u64) AND m = m \<longleftrightarrow> (\<forall>k<64. bit m k \<longrightarrow> bit w k)"
  by (auto simp: word_eq_bit_iff bit_simps)

lemma all_ones_iff: "(w :: u64) = - 1 \<longleftrightarrow> (\<forall>k<64. bit w k)"
  by (auto simp: word_eq_bit_iff bit_simps)

text \<open>The mask \<open>for (bit = a; bit < b; ++bit) mask |= 1ULL << bit\<close>.\<close>

definition mask_loop :: "u32 \<Rightarrow> u32 \<Rightarrow> u64" where
  "mask_loop a b = for_word a b (\<lambda>k m. m OR push_bit (unat k) 1) 0"

lemma bit_mask_loop:
  assumes "k < 64" and "unat b \<le> 64"
  shows "bit (mask_loop a b) k \<longleftrightarrow> unat a \<le> k \<and> k < unat b"
proof (cases "a \<le> b")
  case True
  let ?P = "\<lambda>j m. \<forall>k<64. bit (m :: u64) k \<longleftrightarrow> unat a \<le> k \<and> k < j"
  have "?P (unat b) (mask_loop a b)"
    unfolding mask_loop_def
  proof (rule for_word_inv [OF _ True])
    show "\<forall>k<64. bit (0 :: u64) k \<longleftrightarrow> unat a \<le> k \<and> k < unat a" by simp
  next
    fix j m assume j: "unat a \<le> j" "j < unat b"
      and P: "\<forall>k<64. bit (m :: u64) k \<longleftrightarrow> unat a \<le> k \<and> k < j"
    have "unat (of_nat j :: u32) = j"
      using j(2) by (rule unat_of_nat_below)
    then show "\<forall>k<64. bit (m OR push_bit (unat (of_nat j :: u32)) 1) k \<longleftrightarrow> unat a \<le> k \<and> k < Suc j"
      using P j by (auto simp: bit_simps)
  qed
  with assms show ?thesis by simp
next
  case False
  then have "mask_loop a b = 0" by (simp add: mask_loop_def)
  with False show ?thesis by (auto simp: word_le_nat_alt)
qed

text \<open>Bitmaps of equal length are determined by their sets of positions.\<close>

lemma bits_of_inject:
  assumes "length ws = length vs" and "bits_of ws = bits_of vs"
  shows "ws = vs"
proof (rule nth_equalityI [OF assms(1)])
  fix i assume i: "i < length ws"
  show "ws ! i = vs ! i"
  proof (rule bit_word_eqI)
    fix k assume "k < LENGTH(64)"
    then have "64 * i + k \<in> bits_of ws \<longleftrightarrow> bit (ws ! i) k"
      and "64 * i + k \<in> bits_of vs \<longleftrightarrow> bit (vs ! i) k"
      using i assms(1) by (simp_all add: bits_of_def)
    then show "bit (ws ! i) k = bit (vs ! i) k" using assms(2) by simp
  qed
qed

text \<open>Packets of a range, word by word.\<close>

lemma range_subset_bits_of:
  assumes "s < e" and "(e - 1) div 64 < length ws"
  shows "{s..<e} \<subseteq> bits_of ws \<longleftrightarrow>
    (\<forall>w k. s div 64 \<le> w \<and> w \<le> (e - 1) div 64 \<longrightarrow> k < 64 \<longrightarrow> s \<le> 64 * w + k \<longrightarrow> 64 * w + k < e
      \<longrightarrow> bit (ws ! w) k)"
    (is "?sub \<longleftrightarrow> ?words")
proof
  assume sub: ?sub
  show ?words
  proof (intro allI impI)
    fix w k assume "k < 64" "s \<le> 64 * w + k" "64 * w + k < e"
    then have "64 * w + k \<in> bits_of ws" using sub by auto
    with \<open>k < 64\<close> show "bit (ws ! w) k" by (simp add: bits_of_def)
  qed
next
  assume words: ?words
  show ?sub
  proof
    fix n assume n: "n \<in> {s..<e}"
    then have le: "s div 64 \<le> n div 64" "n div 64 \<le> (e - 1) div 64" by (auto intro: div_le_mono)
    have "64 * (n div 64) + n mod 64 = n" by simp
    moreover have "n mod 64 < 64" by simp
    ultimately have "bit (ws ! (n div 64)) (n mod 64)"
      using n le words [rule_format, of "n div 64" "n mod 64"] by simp
    with le(2) assms(2) show "n \<in> bits_of ws" by (simp add: bits_of_def)
  qed
qed


lemma mod_bounds:
  assumes "s < e" "s div 64 = (e - 1) div (64::nat)"
  shows "s mod 64 \<le> k \<longleftrightarrow> s \<le> 64 * (s div 64) + k"
   and "k < (e - 1) mod 64 + 1 \<longleftrightarrow> 64 * (s div 64) + k < e"
proof -
  have "s = 64 * (s div 64) + s mod 64" by simp
  then show "s mod 64 \<le> k \<longleftrightarrow> s \<le> 64 * (s div 64) + k" by linarith
  have "e - 1 = 64 * (s div 64) + (e - 1) mod 64" unfolding assms(2) by simp
  then show "k < (e - 1) mod 64 + 1 \<longleftrightarrow> 64 * (s div 64) + k < e" using assms(1) by linarith
qed

lemma mask_range_eq:
  assumes "unat z \<le> 64"
  shows "(w::u64) AND mask_loop a z = mask_loop a z \<longleftrightarrow> (\<forall>k<64. unat a \<le> k \<and> k < unat z \<longrightarrow> bit w k)"
  using assms by (simp add: and_mask_eq_iff bit_mask_loop)

lemma range_in_one_word:
  assumes "s < e" "s div 64 = (e - 1) div 64" "(e - 1) div 64 < length ws"
  shows "{s..<e} \<subseteq> bits_of ws \<longleftrightarrow>
    (\<forall>k<64. s mod 64 \<le> k \<and> k < (e - 1) mod 64 + 1 \<longrightarrow> bit (ws ! (s div 64)) k)"
proof -
  have "\<And>w. s div 64 \<le> w \<and> w \<le> (e - 1) div 64 \<longleftrightarrow> w = s div 64" using assms(2) by auto
  then show ?thesis
    unfolding range_subset_bits_of [OF assms(1,3)] mod_bounds [OF assms(1,2)] by auto
qed

lemma range_in_many_words:
  assumes "s < e" "s div 64 < (e - 1) div 64" "(e - 1) div 64 < length ws"
  shows "{s..<e} \<subseteq> bits_of ws \<longleftrightarrow>
    (\<forall>k<64. s mod 64 \<le> k \<longrightarrow> bit (ws ! (s div 64)) k) \<and>
    (\<forall>w. s div 64 + 1 \<le> w \<and> w < (e - 1) div 64 \<longrightarrow> ws ! w = - 1) \<and>
    (\<forall>k<64. k < (e - 1) mod 64 + 1 \<longrightarrow> bit (ws ! ((e - 1) div 64)) k)"
    (is "_ \<longleftrightarrow> ?first \<and> ?mid \<and> ?last")
proof -
  let ?sw = "s div 64" and ?ew = "(e - 1) div 64"
  have first: "\<And>k. s mod 64 \<le> k \<longleftrightarrow> s \<le> 64 * ?sw + k"
    by (metis add_le_cancel_left mult_div_mod_eq)
  have "e - 1 = 64 * ?ew + (e - 1) mod 64" by simp
  then have last: "\<And>k. k < (e - 1) mod 64 + 1 \<longleftrightarrow> 64 * ?ew + k < e" using assms(1) by linarith
  have s_lt: "s < 64 * (?sw + 1)" by simp
  have e_ge: "64 * ?ew < e" using assms(1) last [of 0] by simp
  have lo: "\<And>w k. ?sw < w \<Longrightarrow> s \<le> 64 * w + k" using s_lt by linarith
  have hi: "\<And>w k. w < ?ew \<Longrightarrow> k < 64 \<Longrightarrow> 64 * w + k < e" using e_ge by linarith
  show ?thesis
    unfolding range_subset_bits_of [OF assms(1,3)]
  proof (intro iffI conjI)
    assume W: "\<forall>w k. ?sw \<le> w \<and> w \<le> ?ew \<longrightarrow> k < 64 \<longrightarrow> s \<le> 64 * w + k \<longrightarrow> 64 * w + k < e \<longrightarrow> bit (ws ! w) k"
    show ?first using W first hi [OF assms(2)] assms(2) by (metis less_imp_le order_refl)
    show ?last using W last lo [OF assms(2)] assms(2) by (metis less_imp_le order_refl)
    show ?mid
      unfolding all_ones_iff
    proof (intro allI impI)
      fix w k :: nat assume "?sw + 1 \<le> w \<and> w < ?ew" "k < 64"
      then show "bit (ws ! w) k" using W lo [of w k] hi [of w k] by simp
    qed
  next
    assume R: "?first \<and> ?mid \<and> ?last"
    show "\<forall>w k. ?sw \<le> w \<and> w \<le> ?ew \<longrightarrow> k < 64 \<longrightarrow> s \<le> 64 * w + k \<longrightarrow> 64 * w + k < e \<longrightarrow> bit (ws ! w) k"
    proof (intro allI impI)
      fix w k :: nat assume w: "?sw \<le> w \<and> w \<le> ?ew" and k: "k < 64" "s \<le> 64 * w + k" "64 * w + k < e"
      consider "w = ?sw" | "?sw + 1 \<le> w" "w < ?ew" | "w = ?ew" using w by linarith
      then show "bit (ws ! w) k"
      proof cases
        case 1
        then show ?thesis using R k first by simp
      next
        case 2
        then have "ws ! w = - 1" using R by simp
        then show ?thesis using k(1) by (simp add: all_ones_iff)
      next
        case 3
        then show ?thesis using R k last by simp
      qed
    qed
  qed
qed

section \<open>Division and wrap-around\<close>

lemmas unat_div_mod = unat_div unat_mod

lemma ceil_div_le_iff:
  assumes "0 < (d::nat)"
  shows "(n + d - 1) div d \<le> c \<longleftrightarrow> n \<le> c * d"
proof -
  have "(n + d - 1) div d \<le> c \<longleftrightarrow> (n + d - 1) div d < Suc c" by (rule less_Suc_eq_le [symmetric])
  also have "\<dots> \<longleftrightarrow> n + d - 1 < Suc c * d" by (rule div_less_iff_less_mult) (rule assms)
  also have "\<dots> \<longleftrightarrow> n \<le> c * d" using assms by auto
  finally show ?thesis .
qed

text \<open>Widening conversions keep the value.\<close>

lemma unat_ucast_up:
  "LENGTH('a::len) \<le> LENGTH('b::len) \<Longrightarrow> unat (ucast (x :: 'a word) :: 'b word) = unat x"
  by (simp add: unsigned_ucast_eq take_bit_nat_eq_self_iff)
    (rule order_less_le_trans [OF unsigned_less], simp)

lemma unat_widen [simp]:
  "unat (ucast (a :: u8) :: u32) = unat a"
  "unat (ucast (b :: 10 word) :: u32) = unat b"
  "unat (ucast (c :: u16) :: u32) = unat c"
  "unat (ucast (d :: 18 word) :: u32) = unat d"
  "unat (ucast (c :: u16) :: u64) = unat c"
  "unat (ucast (d :: 18 word) :: u64) = unat d"
  "unat (ucast (e :: u32) :: u64) = unat e"
  by (simp_all add: unat_ucast_up)

text \<open>Narrowing conversions reduce modulo the width.\<close>

lemma unat_ucast_mod:
  "unat (ucast (x :: 'a::len word) :: 'b::len word) = unat x mod 2 ^ LENGTH('b)"
  by (simp add: unsigned_ucast_eq take_bit_eq_mod)

text \<open>Ceiling division as the sources write it, on 64-bit values.\<close>

lemma unat_ceil_div:
  assumes "unat x + unat (y :: 'a::len word) \<le> 2 ^ 64" and "0 < unat y" and "LENGTH('a) \<le> 64"
  shows "unat ((x + ucast y - 1) div ucast y :: u64) = (unat x + unat y - 1) div unat y"
proof -
  have y: "unat (ucast y :: u64) = unat y" using assms(3) by (simp add: unat_ucast_up)
  have m1: "unat (ucast y - 1 :: u64) = unat y - 1"
    using assms(2) y by (subst unat_minus_one) auto
  have "unat (x + (ucast y - 1)) = unat x + unat (ucast y - 1 :: u64)"
    unfolding unat_word_ariths m1 using assms(1,2) by (intro mod_less) simp
  then have "unat (x + ucast y - 1) = unat x + unat y - 1"
    using assms(2) unfolding add_diff_eq m1 by linarith
  then show ?thesis unfolding unat_div y by (rule arg_cong)
qed

end
