(* ===== verification/Sinks.thy ===== *)
theory Sinks
  imports SDR_Prelude
begin

text \<open>
  Interfaces of the receive path.  Datagrams arrive over several channels, handled by several worker
  threads, reordered and duplicated by the network.  A sink is the state such arrivals update: the
  updates of acceptable arrivals succeed, commute and are idempotent, and then the state reached
  depends only on which arrivals were handled, not on their order or number.
\<close>

text \<open>Handling a list of arrivals in order; a fault of one is a fault of the whole.\<close>

primrec run_all :: "('p \<Rightarrow> 's \<Rightarrow> 's option) \<Rightarrow> 'p list \<Rightarrow> 's \<Rightarrow> 's option" where
  "run_all put [] s = Some s"
| "run_all put (p # ps) s = Option.bind (put p s) (run_all put ps)"

lemma run_all_append:
  "run_all put (ps @ qs) s = Option.bind (run_all put ps s) (run_all put qs)"
proof (induction ps arbitrary: s)
  case Nil
  then show ?case by simp
next
  case (Cons p ps)
  then show ?case by (cases "put p s") simp_all
qed

locale packet_sink =
  fixes put :: "'p \<Rightarrow> 's \<Rightarrow> 's option"
    and inv :: "'s \<Rightarrow> bool"
    and good :: "'s \<Rightarrow> 'p \<Rightarrow> bool"
  assumes put_total: "inv s \<Longrightarrow> good s p \<Longrightarrow> \<exists>s'. put p s = Some s' \<and> inv s' \<and> (\<forall>q. good s q \<longrightarrow> good s' q)"
    and put_comm: "inv s \<Longrightarrow> good s p \<Longrightarrow> good s q \<Longrightarrow>
      Option.bind (put p s) (put q) = Option.bind (put q s) (put p)"
    and put_idem: "inv s \<Longrightarrow> good s p \<Longrightarrow> put p s = Some s' \<Longrightarrow> put p s' = Some s'"
begin

lemma run_total:
  "inv s \<Longrightarrow> \<forall>p\<in>set ps. good s p \<Longrightarrow> \<exists>s'. run_all put ps s = Some s' \<and> inv s' \<and> (\<forall>q. good s q \<longrightarrow> good s' q)"
proof (induction ps arbitrary: s)
  case Nil
  then show ?case by simp
next
  case (Cons p ps)
  then obtain s1 where s1: "put p s = Some s1" "inv s1" "\<forall>q. good s q \<longrightarrow> good s1 q"
    using put_total [of s p] by auto
  have "\<forall>q\<in>set ps. good s1 q" using Cons.prems(2) s1(3) by simp
  with Cons.IH [OF s1(2)] s1 show ?case by auto
qed

text \<open>An update may be moved over the ones after it.\<close>

lemma run_swap:
  "inv s \<Longrightarrow> good s p \<Longrightarrow> \<forall>q\<in>set ps. good s q \<Longrightarrow> run_all put (p # ps) s = run_all put (ps @ [p]) s"
proof (induction ps arbitrary: s)
  case Nil
  then show ?case by simp
next
  case (Cons q ps)
  obtain s1 where s1: "put q s = Some s1" "inv s1" "\<forall>r. good s r \<longrightarrow> good s1 r"
    using put_total [of s q] Cons.prems by auto
  have comm: "Option.bind (put p s) (put q) = put p s1"
    using put_comm [of s p q] Cons.prems s1(1) by simp
  have "run_all put (p # q # ps) s = Option.bind (Option.bind (put p s) (put q)) (run_all put ps)"
    by (simp split: Option.bind_splits)
  also have "\<dots> = run_all put (p # ps) s1" by (simp only: comm run_all.simps)
  also have "\<dots> = run_all put (ps @ [p]) s1"
    by (rule Cons.IH) (use Cons.prems s1 in auto)
  also have "\<dots> = run_all put ((q # ps) @ [p]) s" using s1(1) by simp
  finally show ?case .
qed

text \<open>An update that comes again later may be dropped.\<close>

lemma run_absorb:
  "inv s \<Longrightarrow> \<forall>q\<in>set ps. good s q \<Longrightarrow> p \<in> set ps \<Longrightarrow> run_all put (p # ps) s = run_all put ps s"
proof (induction ps arbitrary: s)
  case Nil
  then show ?case by simp
next
  case (Cons q ps)
  obtain s1 where s1: "put q s = Some s1" "inv s1" "\<forall>r. good s r \<longrightarrow> good s1 r"
    using put_total [of s q] Cons.prems by auto
  show ?case
  proof (cases "p = q")
    case True
    then show ?thesis using put_idem [of s q s1] Cons.prems s1(1) by simp
  next
    case False
    have comm: "Option.bind (put p s) (put q) = put p s1"
      using put_comm [of s p q] Cons.prems s1(1) by auto
    have "run_all put (p # q # ps) s = Option.bind (Option.bind (put p s) (put q)) (run_all put ps)"
      by (simp split: Option.bind_splits)
    also have "\<dots> = run_all put (p # ps) s1" by (simp only: comm run_all.simps)
    also have "\<dots> = run_all put ps s1"
      by (rule Cons.IH) (use Cons.prems s1 False in auto)
    finally show ?thesis using s1(1) by simp
  qed
qed

lemma run_absorb_all:
  "inv s \<Longrightarrow> \<forall>q\<in>set qs. good s q \<Longrightarrow> set ps \<subseteq> set qs \<Longrightarrow> run_all put (ps @ qs) s = run_all put qs s"
proof (induction ps)
  case Nil
  then show ?case by simp
next
  case (Cons p ps)
  have "run_all put (p # (ps @ qs)) s = run_all put (ps @ qs) s"
    by (rule run_absorb) (use Cons.prems in auto)
  with Cons show ?case by simp
qed

lemma run_rotate:
  "inv s \<Longrightarrow> \<forall>q\<in>set ps \<union> set qs. good s q \<Longrightarrow> run_all put (ps @ qs) s = run_all put (qs @ ps) s"
proof (induction ps arbitrary: qs)
  case Nil
  then show ?case by simp
next
  case (Cons p ps)
  have "run_all put (p # (ps @ qs)) s = run_all put ((ps @ qs) @ [p]) s"
    by (rule run_swap) (use Cons.prems in auto)
  also have "\<dots> = run_all put (ps @ (qs @ [p])) s" by simp
  also have "\<dots> = run_all put ((qs @ [p]) @ ps) s" by (rule Cons.IH) (use Cons.prems in auto)
  finally show ?case by simp
qed

text \<open>The state after a run depends on the set of arrivals only.\<close>

lemma run_set_cong:
  assumes "inv s" and "\<forall>p\<in>set ps. good s p" and "set ps = set qs"
  shows "run_all put ps s = run_all put qs s"
proof -
  have "run_all put ps s = run_all put (qs @ ps) s"
    by (rule run_absorb_all [symmetric]) (use assms in auto)
  also have "\<dots> = run_all put (ps @ qs) s" by (rule run_rotate) (use assms in auto)
  also have "\<dots> = run_all put qs s" by (rule run_absorb_all) (use assms in auto)
  finally show ?thesis .
qed

end

text \<open>
  The interface between the two bitmaps.  The poller of the chunk bitmap relies on three things:
  the packet bitmap only grows, its completeness test does not fault on the chunks of the message,
  and a chunk once complete stays complete.
\<close>

locale chunk_source =
  fixes complete :: "'b \<Rightarrow> 'c \<Rightarrow> bool"
    and grows :: "'b \<Rightarrow> 'b \<Rightarrow> bool"
  assumes complete_mono: "grows b b' \<Longrightarrow> complete b c \<Longrightarrow> complete b' c"
    and grows_refl: "grows b b"
    and grows_trans: "grows b b' \<Longrightarrow> grows b' b'' \<Longrightarrow> grows b b''"
begin

text \<open>Marks that were justified stay justified, and new marks may be made at the later state.\<close>

lemma marks_extend:
  assumes "\<forall>c\<in>marked. complete b c" and "grows b b'" and "\<forall>c\<in>fresh. complete b' c"
  shows "\<forall>c\<in>marked \<union> fresh. complete b' c"
  using assms complete_mono by blast

end

end
