(* ===== verification/Backend.thy ===== *)
theory Backend
  imports Sinks
begin

text \<open>
  The packet bitmap of \<open>include/sdr_backend.h\<close>: one bit per packet, packed in 64-bit words that the
  UDP workers set with an atomic \<open>fetch_or\<close> and the frontend's poller reads.  Every word access is a
  step of its own on the current bitmap, so an operation is a function of the bitmap it finds; reads
  outside the word array are faults (\<open>None\<close>).
\<close>

section \<open>State and operations\<close>

record BackendBitmap =
  packet_bitmap :: "u64 list"
  bb_num_words :: u32
  bb_total_packets :: u32
  bb_packets_per_chunk :: u16

definition BackendBitmap_new :: "u32 \<Rightarrow> u16 \<Rightarrow> BackendBitmap" where
  "BackendBitmap_new total_packets packets_per_chunk =
     (let num_words = (total_packets + 63) div 64
      in \<lparr> packet_bitmap = replicate (unat num_words) 0, bb_num_words = num_words,
           bb_total_packets = total_packets, bb_packets_per_chunk = packets_per_chunk \<rparr>)"

definition get_bit_position :: "u32 \<Rightarrow> u32 \<times> u32" where
  "get_bit_position packet_offset = (packet_offset div 64, packet_offset mod 64)"

definition set_packet_received :: "BackendBitmap \<Rightarrow> u32 \<Rightarrow> (bool \<times> BackendBitmap) option" where
  "set_packet_received b packet_offset =
     (if packet_offset \<ge> bb_total_packets b then Some (False, b)
      else
        let (word_idx, bit_pos) = get_bit_position packet_offset;
            bit_mask = push_bit (unat bit_pos) 1
        in (case arr_get (packet_bitmap b) (unat word_idx) of
              None \<Rightarrow> None
            | Some old_value \<Rightarrow>
                Some (old_value AND bit_mask = 0,
                  b\<lparr>packet_bitmap := (packet_bitmap b)[unat word_idx := old_value OR bit_mask]\<rparr>)))"

definition is_packet_received :: "BackendBitmap \<Rightarrow> u32 \<Rightarrow> bool option" where
  "is_packet_received b packet_offset =
     (if packet_offset \<ge> bb_total_packets b then Some False
      else
        let (word_idx, bit_pos) = get_bit_position packet_offset;
            bit_mask = push_bit (unat bit_pos) 1
        in (case arr_get (packet_bitmap b) (unat word_idx) of
              None \<Rightarrow> None
            | Some value \<Rightarrow> Some (value AND bit_mask \<noteq> 0)))"

text \<open>The test of the words strictly between the first and the last one.\<close>

definition middle_words_full :: "BackendBitmap \<Rightarrow> u32 \<Rightarrow> u32 \<Rightarrow> bool option + unit" where
  "middle_words_full b from_word to_word =
     for_exit from_word to_word
       (\<lambda>word s. case arr_get (packet_bitmap b) (unat word) of
          None \<Rightarrow> Inl None
        | Some value \<Rightarrow> (if value \<noteq> - 1 then Inl (Some False) else Inr s)) ()"

definition check_chunk_range :: "BackendBitmap \<Rightarrow> u32 \<Rightarrow> u32 \<Rightarrow> bool option" where
  "check_chunk_range b chunk_start_packet chunk_end_packet =
     (let (start_word, start_bit) = get_bit_position chunk_start_packet;
          (end_word, end_bit') = get_bit_position (chunk_end_packet - 1);
          end_bit = end_bit' + 1
      in if start_word = end_word then
           (let mask = mask_loop start_bit end_bit
            in case arr_get (packet_bitmap b) (unat start_word) of
                 None \<Rightarrow> None
               | Some value \<Rightarrow> Some (value AND mask = mask))
         else
           (let first_mask = mask_loop start_bit 64
            in case arr_get (packet_bitmap b) (unat start_word) of
                 None \<Rightarrow> None
               | Some first_value \<Rightarrow>
                   (if first_value AND first_mask \<noteq> first_mask then Some False
                    else case middle_words_full b (start_word + 1) end_word of
                        Inl r \<Rightarrow> r
                      | Inr _ \<Rightarrow>
                          (let last_mask = mask_loop 0 end_bit
                           in case arr_get (packet_bitmap b) (unat end_word) of
                                None \<Rightarrow> None
                              | Some last_value \<Rightarrow> Some (last_value AND last_mask = last_mask)))))"

text \<open>The first packet of a chunk and the end of its range, clipped to the message.\<close>

definition chunk_range :: "BackendBitmap \<Rightarrow> u32 \<Rightarrow> u32 \<times> u32" where
  "chunk_range b chunk_id =
     (let chunk_start_packet = chunk_id * ucast (bb_packets_per_chunk b);
          chunk_end_packet = chunk_start_packet + ucast (bb_packets_per_chunk b)
      in (chunk_start_packet,
          if chunk_end_packet > bb_total_packets b then bb_total_packets b else chunk_end_packet))"

definition backend_is_chunk_complete :: "BackendBitmap \<Rightarrow> u32 \<Rightarrow> bool option" where
  "backend_is_chunk_complete b chunk_id =
     (let (chunk_start_packet, chunk_end_packet) = chunk_range b chunk_id
      in check_chunk_range b chunk_start_packet chunk_end_packet)"

text \<open>The counting loops of \<open>get_chunk_packet_count\<close> and \<open>get_total_packets_received\<close>.\<close>

definition count_received :: "BackendBitmap \<Rightarrow> u32 \<Rightarrow> u32 \<Rightarrow> u32 option" where
  "count_received b from to =
     (case for_exit from to
        (\<lambda>i count. case is_packet_received b i of
           None \<Rightarrow> Inl ()
         | Some r \<Rightarrow> Inr (if r then count + 1 else count)) (0 :: u32)
      of Inl _ \<Rightarrow> None | Inr count \<Rightarrow> Some count)"

definition get_chunk_packet_count :: "BackendBitmap \<Rightarrow> u32 \<Rightarrow> u32 option" where
  "get_chunk_packet_count b chunk_id =
     (let (chunk_start_packet, chunk_end_packet) = chunk_range b chunk_id
      in count_received b chunk_start_packet chunk_end_packet)"

definition get_total_packets_received :: "BackendBitmap \<Rightarrow> u32 option" where
  "get_total_packets_received b = count_received b 0 (bb_total_packets b)"

section \<open>Abstraction and invariant\<close>

definition received :: "BackendBitmap \<Rightarrow> nat set" where
  "received b = bits_of (packet_bitmap b)"

text \<open>
  The words cover the packets, and no bit is set beyond the last packet.  \<open>bb_room\<close> says that the
  end of the last chunk is representable in 32 bits.
\<close>

definition bb_wf :: "BackendBitmap \<Rightarrow> bool" where
  "bb_wf b \<longleftrightarrow> length (packet_bitmap b) = unat (bb_num_words b)
     \<and> unat (bb_total_packets b) \<le> 64 * unat (bb_num_words b)
     \<and> received b \<subseteq> {..<unat (bb_total_packets b)}"

definition bb_room :: "BackendBitmap \<Rightarrow> bool" where
  "bb_room b \<longleftrightarrow> 0 < unat (bb_packets_per_chunk b)
     \<and> unat (bb_total_packets b) + unat (bb_packets_per_chunk b) \<le> 2 ^ 32"

definition chunk_packets :: "BackendBitmap \<Rightarrow> nat \<Rightarrow> nat set" where
  "chunk_packets b c =
     {c * unat (bb_packets_per_chunk b) ..<
      min (Suc c * unat (bb_packets_per_chunk b)) (unat (bb_total_packets b))}"

lemma get_bit_position_unat:
  "get_bit_position p = (w, k) \<Longrightarrow> unat w = unat p div 64 \<and> unat k = unat p mod 64"
  by (auto simp: get_bit_position_def unat_div unat_mod)

lemma bb_wf_word:
  assumes "bb_wf b" and "n < unat (bb_total_packets b)"
  shows "n div 64 < length (packet_bitmap b)"
  using assms unfolding bb_wf_def by linarith

lemma new_simps [simp]:
  "bb_total_packets (BackendBitmap_new tp ppc) = tp"
  "bb_packets_per_chunk (BackendBitmap_new tp ppc) = ppc"
  by (simp_all add: BackendBitmap_new_def Let_def)

lemma new_wf:
  assumes "unat tp + 63 < 2 ^ 32"
  shows "bb_wf (BackendBitmap_new tp ppc)" and "received (BackendBitmap_new tp ppc) = {}"
proof -
  have "unat (tp + 63) = unat tp + 63" using assms by (simp add: unat_word_ariths)
  then have "unat ((tp + 63) div 64) = (unat tp + 63) div 64" by (simp add: unat_div)
  then show "bb_wf (BackendBitmap_new tp ppc)"
    by (simp add: bb_wf_def BackendBitmap_new_def received_def Let_def)
  show "received (BackendBitmap_new tp ppc) = {}"
    by (simp add: BackendBitmap_new_def received_def Let_def)
qed

lemma is_packet_received_eq:
  assumes "bb_wf b"
  shows "is_packet_received b p = Some (unat p \<in> received b)"
proof (cases "p < bb_total_packets b")
  case True
  then have "unat p div 64 < length (packet_bitmap b)"
    using bb_wf_word [OF assms] by (simp add: word_less_nat_alt)
  then show ?thesis
    using True by (simp add: not_le [symmetric] is_packet_received_def get_bit_position_def unat_div unat_mod
        and_bit_mask_eq_0 received_def bits_of_def)
next
  case False
  then have "unat p \<notin> received b"
    using assms unfolding bb_wf_def by (auto simp: word_less_nat_alt)
  with False show ?thesis by (simp add: is_packet_received_def not_less)
qed

lemma set_packet_received_out:
  "bb_total_packets b \<le> p \<Longrightarrow> set_packet_received b p = Some (False, b)"
  by (simp add: set_packet_received_def)

lemma set_packet_received_in:
  assumes "bb_wf b" and "p < bb_total_packets b"
  obtains b' where "set_packet_received b p = Some (unat p \<notin> received b, b')"
    and "bb_wf b'" and "received b' = insert (unat p) (received b)"
    and "bb_total_packets b' = bb_total_packets b"
    and "bb_packets_per_chunk b' = bb_packets_per_chunk b"
    and "bb_num_words b' = bb_num_words b"
proof
  have in_range: "unat p div 64 < length (packet_bitmap b)"
    using bb_wf_word [OF assms(1)] assms(2) by (simp add: word_less_nat_alt)
  let ?b' = "b\<lparr>packet_bitmap := (packet_bitmap b)
      [unat p div 64 := packet_bitmap b ! (unat p div 64) OR push_bit (unat p mod 64) 1]\<rparr>"
  show "set_packet_received b p = Some (unat p \<notin> received b, ?b')"
    using assms(2) in_range by (simp add: not_le [symmetric] set_packet_received_def get_bit_position_def
        unat_div unat_mod and_bit_mask_eq_0 received_def bits_of_def Let_def)
  show rec: "received ?b' = insert (unat p) (received b)"
    using bits_of_or [OF in_range] by (simp add: received_def)
  show "bb_wf ?b'"
    using assms rec by (auto simp: bb_wf_def word_less_nat_alt)
qed simp_all

section \<open>The word-wise range test\<close>

lemma middle_words_full_eq:
  assumes "unat to_word \<le> length (packet_bitmap b)"
  shows "middle_words_full b from_word to_word =
    (if \<forall>w. unat from_word \<le> w \<and> w < unat to_word \<longrightarrow> packet_bitmap b ! w = - 1
     then Inr () else Inl (Some False))"
  unfolding middle_words_full_def
proof (rule for_exit_all)
  fix w assume w: "unat from_word \<le> w" "w < unat to_word"
  have "unat (of_nat w :: u32) = w" using w(2) by (rule unat_of_nat_below)
  then show "(case arr_get (packet_bitmap b) (unat (of_nat w :: u32)) of None \<Rightarrow> Inl None
      | Some value \<Rightarrow> if value \<noteq> - 1 then Inl (Some False) else Inr ()) =
      (if packet_bitmap b ! w = - 1 then Inr () else Inl (Some False))"
    using w assms by simp
qed

lemma check_range_eq:
  assumes wf: "bb_wf b" and lt: "s < e" and le: "e \<le> bb_total_packets b"
  shows "check_chunk_range b s e = Some ({unat s..<unat e} \<subseteq> received b)"
proof -
  let ?S = "unat s" and ?E = "unat e" and ?ws = "packet_bitmap b"
  have SE: "?S < ?E" using lt by (simp add: word_less_nat_alt)
  have e1: "unat (e - 1) = ?E - 1" using SE by (intro unat_minus_one) auto
  have in_ws: "(?E - 1) div 64 < length ?ws"
    using bb_wf_word [OF wf, of "?E - 1"] SE le by (simp add: word_le_nat_alt)
  have sw: "?S div 64 \<le> (?E - 1) div 64" using SE by (intro div_le_mono) simp
  have eb: "unat ((e - 1) mod 64 + 1) = (?E - 1) mod 64 + 1"
    using e1 by (simp add: unat_word_ariths unat_mod)
  have m1: "unat ((e - 1) mod 64 + 1) \<le> 64" unfolding eb by (simp add: Suc_le_eq)
  show ?thesis
  proof (cases "?S div 64 = (?E - 1) div 64")
    case True
    then have same: "s div 64 = (e - 1) div 64" by (simp add: word_unat_eq_iff unat_div e1)
    show ?thesis
      using in_ws True SE range_in_one_word [OF SE True in_ws]
      by (simp add: check_chunk_range_def get_bit_position_def same unat_div e1
          mask_range_eq [OF m1] eb unat_mod received_def del: One_nat_def)
  next
    case False
    with sw have many: "?S div 64 < (?E - 1) div 64" by simp
    have diff: "s div 64 \<noteq> (e - 1) div 64" using False by (auto simp: word_unat_eq_iff unat_div e1)
    have next_word: "unat (s div 64 + 1) = ?S div 64 + 1"
      using many e1 unat_Suc_less [of "s div 64" "(e - 1) div 64"] by (simp add: word_less_nat_alt unat_div)
    have mid: "middle_words_full b (s div 64 + 1) ((e - 1) div 64) =
        (if \<forall>w. ?S div 64 + 1 \<le> w \<and> w < (?E - 1) div 64 \<longrightarrow> ?ws ! w = - 1
         then Inr () else Inl (Some False))"
      using in_ws middle_words_full_eq [of "(e - 1) div 64" b "s div 64 + 1"]
      by (simp add: next_word unat_div e1 del: One_nat_def)
    show ?thesis
      using in_ws many range_in_many_words [OF SE many in_ws]
      by (simp add: check_chunk_range_def get_bit_position_def diff unat_div e1 mid
          mask_range_eq [OF m1] mask_range_eq eb unat_mod received_def del: One_nat_def)
  qed
qed

text \<open>C5: The optimised completeness test is the specification.  On a well-formed bitmap and a
  nonempty range inside the message, the word-wise test of \<open>check_chunk_range\<close> (masked first word,
  all-ones middle words, masked last word) never reads outside the array and answers exactly
  whether every packet of the range has been received.\<close>

theorem check_chunk_range_correct:
  assumes "bb_wf b" and "s < e" and "e \<le> bb_total_packets b"
  shows "check_chunk_range b s e = Some ({unat s..<unat e} \<subseteq> received b)"
  using assms by (rule check_range_eq)

theorem check_chunk_range_correct_witness:
  "check_chunk_range (BackendBitmap_new 200 64) 10 190
     = Some ({unat (10 :: u32)..<unat (190 :: u32)} \<subseteq> received (BackendBitmap_new 200 64))"
  by (rule check_chunk_range_correct [OF new_wf(1)]) simp_all

section \<open>Chunks\<close>

lemma chunk_range_in:
  assumes room: "bb_room b" and c: "unat c * unat (bb_packets_per_chunk b) < unat (bb_total_packets b)"
  obtains s e where "chunk_range b c = (s, e)" and "s < e" and "e \<le> bb_total_packets b"
    and "{unat s..<unat e} = chunk_packets b (unat c)"
proof -
  let ?P = "bb_packets_per_chunk b" and ?T = "bb_total_packets b"
  have P: "0 < unat ?P" and fits: "unat ?T + unat ?P \<le> 2 ^ 32" using room by (auto simp: bb_room_def)
  have s: "unat (c * ucast ?P) = unat c * unat ?P"
    using c fits by (simp add: unat_word_ariths)
  have e: "unat (c * ucast ?P + ucast ?P) = Suc (unat c) * unat ?P"
    using c fits s by (simp add: unat_word_ariths(1) [of "c * ucast ?P"])
  obtain e' where ce: "chunk_range b c = (c * ucast ?P, e')"
      and e': "unat e' = min (Suc (unat c) * unat ?P) (unat ?T)"
    using e by (auto simp: chunk_range_def Let_def min_def word_less_nat_alt)
  show thesis
  proof (rule that [OF ce])
    show "c * ucast ?P < e'" using c P by (simp add: word_less_nat_alt s e')
    show "e' \<le> ?T" by (simp add: word_le_nat_alt e')
    show "{unat (c * ucast ?P)..<unat e'} = chunk_packets b (unat c)"
      by (simp add: s e' chunk_packets_def)
  qed
qed

lemma backend_is_chunk_complete_eq:
  assumes "bb_wf b" and "bb_room b"
    and "unat c * unat (bb_packets_per_chunk b) < unat (bb_total_packets b)"
  shows "backend_is_chunk_complete b c = Some (chunk_packets b (unat c) \<subseteq> received b)"
proof -
  obtain s e where "chunk_range b c = (s, e)" "s < e" "e \<le> bb_total_packets b"
    "{unat s..<unat e} = chunk_packets b (unat c)"
    using chunk_range_in [OF assms(2,3)] .
  with check_range_eq [OF assms(1)] show ?thesis by (simp add: backend_is_chunk_complete_def)
qed

lemma count_received_eq:
  assumes wf: "bb_wf b"
  shows "count_received b s e = Some (of_nat (card ({unat s..<unat e} \<inter> received b)))"
proof (cases "s \<le> e")
  case True
  let ?f = "\<lambda>i count. case is_packet_received b i of None \<Rightarrow> Inl ()
      | Some r \<Rightarrow> Inr (if r then count + 1 else count)"
  let ?Q = "\<lambda>j count. count = (of_nat (card ({unat s..<j} \<inter> received b)) :: u32)"
  have "\<exists>count. for_exit s e ?f 0 = Inr count \<and> ?Q (unat e) count"
  proof (rule for_exit_total [OF _ True])
    show "?Q (unat s) 0" by simp
  next
    fix j and count :: u32 assume j: "unat s \<le> j" "j < unat e" and Q: "?Q j count"
    have uj: "unat (of_nat j :: u32) = j" using j(2) by (rule unat_of_nat_below)
    have ins: "{unat s..<Suc j} = insert j {unat s..<j}" using j(1) by auto
    have "?f (of_nat j) count = Inr (of_nat (card ({unat s..<Suc j} \<inter> received b)))"
      using Q uj unfolding ins by (simp add: is_packet_received_eq [OF wf] Int_insert_left)
    then show "\<exists>s'. ?f (of_nat j) count = Inr s' \<and> ?Q (Suc j) s'" by blast
  qed
  then show ?thesis by (auto simp: count_received_def)
next
  case False
  then have "\<not> s < e" "\<not> unat s < unat e" by (auto simp: word_less_nat_alt word_le_nat_alt)
  then show ?thesis by (simp add: count_received_def)
qed

lemma card_range_bound: "card ({s..<e} \<inter> X) \<le> e - s"
  by (metis Int_lower1 card_atLeastLessThan card_mono finite_atLeastLessThan)

lemma count_small:
  assumes "bb_wf b"
  shows "unat (of_nat (card (X \<inter> received b)) :: u32) = card (X \<inter> received b)"
proof (rule unat_of_nat_small)
  have "card (X \<inter> received b) \<le> card {..<unat (bb_total_packets b)}"
    using assms by (intro card_mono) (auto simp: bb_wf_def)
  then show "card (X \<inter> received b) < 2 ^ LENGTH(32)"
    using unat_width(5) [of "bb_total_packets b"] by simp
qed

section \<open>Updates by the workers\<close>

text \<open>The caller ignores the answer of \<open>set_packet_received\<close>.\<close>

definition mark_received :: "u32 \<Rightarrow> BackendBitmap \<Rightarrow> BackendBitmap option" where
  "mark_received p b = map_option snd (set_packet_received b p)"

text \<open>What a marking step reaches, as a description that determines the state.\<close>

definition bb_frame :: "BackendBitmap \<Rightarrow> u32 \<times> u32 \<times> u16" where
  "bb_frame b = (bb_num_words b, bb_total_packets b, bb_packets_per_chunk b)"

lemma bb_eqI:
  assumes "bb_wf b" "bb_wf b'" "bb_frame b = bb_frame b'" "received b = received b'"
  shows "b = b'"
proof -
  have "packet_bitmap b = packet_bitmap b'"
    by (rule bits_of_inject) (use assms in \<open>auto simp: bb_wf_def bb_frame_def received_def\<close>)
  with assms(3) show ?thesis by (simp add: bb_frame_def)
qed

lemma mark_received_eq:
  assumes "bb_wf b"
  obtains b' where "mark_received p b = Some b'" "bb_wf b'" "bb_frame b' = bb_frame b"
    "received b' = received b \<union> (if p < bb_total_packets b then {unat p} else {})"
proof (cases "p < bb_total_packets b")
  case True
  obtain b' where b': "set_packet_received b p = Some (unat p \<notin> received b, b')" "bb_wf b'"
    "received b' = insert (unat p) (received b)" "bb_total_packets b' = bb_total_packets b"
    "bb_packets_per_chunk b' = bb_packets_per_chunk b" "bb_num_words b' = bb_num_words b"
    using set_packet_received_in [OF assms True] .
  show thesis by (rule that [of b']) (use b' True in \<open>auto simp: mark_received_def bb_frame_def\<close>)
next
  case False
  then show thesis
    by (intro that [of b]) (auto simp: mark_received_def set_packet_received_out not_less assms)
qed

interpretation bitmap_sink: packet_sink mark_received bb_wf "\<lambda>b p. True"
proof unfold_locales
  fix b :: BackendBitmap and p
  assume "bb_wf b"
  then show "\<exists>b'. mark_received p b = Some b' \<and> bb_wf b' \<and> (\<forall>q. True \<longrightarrow> True)"
    by (rule mark_received_eq [of b p]) auto
next
  fix b :: BackendBitmap and p q
  assume wf: "bb_wf b"
  obtain bp where bp: "mark_received p b = Some bp" "bb_wf bp" "bb_frame bp = bb_frame b"
    "received bp = received b \<union> (if p < bb_total_packets b then {unat p} else {})"
    using mark_received_eq [OF wf] .
  obtain bq where bq: "mark_received q b = Some bq" "bb_wf bq" "bb_frame bq = bb_frame b"
    "received bq = received b \<union> (if q < bb_total_packets b then {unat q} else {})"
    using mark_received_eq [OF wf] .
  obtain bpq where bpq: "mark_received q bp = Some bpq" "bb_wf bpq" "bb_frame bpq = bb_frame bp"
    "received bpq = received bp \<union> (if q < bb_total_packets bp then {unat q} else {})"
    using mark_received_eq [OF bp(2)] .
  obtain bqp where bqp: "mark_received p bq = Some bqp" "bb_wf bqp" "bb_frame bqp = bb_frame bq"
    "received bqp = received bq \<union> (if p < bb_total_packets bq then {unat p} else {})"
    using mark_received_eq [OF bq(2)] .
  have "bpq = bqp"
    by (rule bb_eqI) (use bp bq bpq bqp in \<open>auto simp: bb_frame_def\<close>)
  then show "Option.bind (mark_received p b) (mark_received q) =
      Option.bind (mark_received q b) (mark_received p)"
    using bp(1) bq(1) bpq(1) bqp(1) by simp
next
  fix b b' :: BackendBitmap and p
  assume wf: "bb_wf b" and m: "mark_received p b = Some b'"
  obtain b1 where b1: "mark_received p b = Some b1" "bb_wf b1" "bb_frame b1 = bb_frame b"
    "received b1 = received b \<union> (if p < bb_total_packets b then {unat p} else {})"
    using mark_received_eq [OF wf] .
  obtain b2 where b2: "mark_received p b1 = Some b2" "bb_wf b2" "bb_frame b2 = bb_frame b1"
    "received b2 = received b1 \<union> (if p < bb_total_packets b1 then {unat p} else {})"
    using mark_received_eq [OF b1(2)] .
  have "b2 = b1" by (rule bb_eqI) (use b1 b2 in \<open>auto simp: bb_frame_def\<close>)
  with m b1(1) b2(1) show "mark_received p b' = Some b'" by simp
qed

lemma run_mark_received:
  assumes "bb_wf b"
  shows "\<exists>b'. run_all mark_received ps b = Some b' \<and> bb_wf b' \<and> bb_frame b' = bb_frame b
    \<and> received b' = received b \<union> (unat ` set ps \<inter> {..<unat (bb_total_packets b)})"
  using assms
proof (induction ps arbitrary: b)
  case Nil
  then show ?case by simp
next
  case (Cons p ps)
  obtain b1 where b1: "mark_received p b = Some b1" "bb_wf b1" "bb_frame b1 = bb_frame b"
    "received b1 = received b \<union> (if p < bb_total_packets b then {unat p} else {})"
    using mark_received_eq [OF Cons.prems] .
  have "bb_total_packets b1 = bb_total_packets b" using b1(3) by (simp add: bb_frame_def)
  with Cons.IH [OF b1(2)] b1 show ?case by (auto simp: word_less_nat_alt)
qed

section \<open>Growth\<close>

definition bb_grows :: "BackendBitmap \<Rightarrow> BackendBitmap \<Rightarrow> bool" where
  "bb_grows b b' \<longleftrightarrow> bb_frame b = bb_frame b' \<and> received b \<subseteq> received b'"

definition chunk_done :: "BackendBitmap \<Rightarrow> nat \<Rightarrow> bool" where
  "chunk_done b c \<longleftrightarrow> chunk_packets b c \<subseteq> received b"

interpretation bitmap_source: chunk_source chunk_done bb_grows
proof unfold_locales
  fix b b' :: BackendBitmap and c
  assume "bb_grows b b'" "chunk_done b c"
  then show "chunk_done b' c"
    by (auto simp: bb_grows_def chunk_done_def chunk_packets_def bb_frame_def)
qed (auto simp: bb_grows_def)

section \<open>Properties\<close>

text \<open>Recording a packet.  On a well-formed bitmap \<open>set_packet_received\<close> never faults.  For an
  offset inside the message it adds exactly that packet, keeps the bitmap well formed and its
  dimensions, and answers whether the packet is new; outside the message it answers false and
  changes nothing.\<close>

theorem set_packet_received_correct:
  assumes "bb_wf b"
  shows "\<exists>b'. set_packet_received b p
      = Some (unat p < unat (bb_total_packets b) \<and> unat p \<notin> received b, b')
    \<and> bb_wf b' \<and> bb_frame b' = bb_frame b
    \<and> received b' = (if unat p < unat (bb_total_packets b) then insert (unat p) (received b)
                    else received b)
    \<and> (unat p < unat (bb_total_packets b) \<or> b' = b)"
proof (cases "p < bb_total_packets b")
  case True
  obtain b' where "set_packet_received b p = Some (unat p \<notin> received b, b')" "bb_wf b'"
    "received b' = insert (unat p) (received b)" "bb_total_packets b' = bb_total_packets b"
    "bb_packets_per_chunk b' = bb_packets_per_chunk b" "bb_num_words b' = bb_num_words b"
    using set_packet_received_in [OF assms True] .
  with True show ?thesis by (auto simp: bb_frame_def word_less_nat_alt)
next
  case False
  with assms show ?thesis by (simp add: set_packet_received_out not_less word_less_nat_alt word_le_nat_alt)
qed

theorem set_packet_received_correct_witness:
  "\<exists>b'. set_packet_received (BackendBitmap_new 100 8) 77
      = Some (unat (77 :: u32) < unat (bb_total_packets (BackendBitmap_new 100 8))
              \<and> unat (77 :: u32) \<notin> received (BackendBitmap_new 100 8), b')
    \<and> bb_wf b' \<and> bb_frame b' = bb_frame (BackendBitmap_new 100 8)
    \<and> received b' = (if unat (77 :: u32) < unat (bb_total_packets (BackendBitmap_new 100 8))
        then insert (unat (77 :: u32)) (received (BackendBitmap_new 100 8))
        else received (BackendBitmap_new 100 8))
    \<and> (unat (77 :: u32) < unat (bb_total_packets (BackendBitmap_new 100 8))
        \<or> b' = BackendBitmap_new 100 8)"
  by (rule set_packet_received_correct) (rule new_wf, simp)

text \<open>C20: Workers on different channels may record packets in any order and any number of times:
  two lists of offsets with the same elements leave the bitmap in the same state, without a fault,
  and that state has exactly the offsets inside the message added.\<close>

theorem worker_order_irrelevant:
  assumes "bb_wf b" and "set ps = set qs"
  shows "run_all mark_received ps b = run_all mark_received qs b
    \<and> (\<exists>b'. run_all mark_received ps b = Some b' \<and> bb_wf b'
          \<and> received b' = received b \<union> (unat ` set ps \<inter> {..<unat (bb_total_packets b)}))"
  using bitmap_sink.run_set_cong [of b ps qs] run_mark_received [of b ps] assms by auto

theorem worker_order_irrelevant_witness:
  "run_all mark_received [3, 90, 3] (BackendBitmap_new 100 8)
      = run_all mark_received [90, 3] (BackendBitmap_new 100 8)
    \<and> (\<exists>b'. run_all mark_received [3, 90, 3] (BackendBitmap_new 100 8) = Some b' \<and> bb_wf b'
          \<and> received b' = received (BackendBitmap_new 100 8)
              \<union> (unat ` set [3, 90, 3 :: u32] \<inter> {..<unat (bb_total_packets (BackendBitmap_new 100 8))}))"
  by (rule worker_order_irrelevant) (rule new_wf, simp, auto)

text \<open>Chunk completeness and counts agree with the packets received.  For every chunk of the
  message, \<open>is_chunk_complete\<close> answers whether all its packets are received,
  \<open>get_chunk_packet_count\<close> how many are, the chunk is complete exactly when the count is the
  chunk's size, which is at most the packets per chunk, and \<open>get_total_packets_received\<close> is the
  number of all received packets.\<close>

theorem chunk_queries_correct:
  assumes wf: "bb_wf b" and room: "bb_room b"
    and c: "unat c * unat (bb_packets_per_chunk b) < unat (bb_total_packets b)"
  shows "\<exists>n. backend_is_chunk_complete b c = Some (chunk_packets b (unat c) \<subseteq> received b)
    \<and> get_chunk_packet_count b c = Some n
    \<and> unat n = card (chunk_packets b (unat c) \<inter> received b)
    \<and> unat n \<le> unat (bb_packets_per_chunk b)
    \<and> (chunk_packets b (unat c) \<subseteq> received b \<longleftrightarrow> unat n = card (chunk_packets b (unat c)))
    \<and> get_total_packets_received b = Some (of_nat (card (received b)))"
proof -
  let ?C = "chunk_packets b (unat c)"
  obtain s e where r: "chunk_range b c = (s, e)" "s < e" "e \<le> bb_total_packets b"
    "{unat s..<unat e} = ?C"
    using chunk_range_in [OF room c] .
  have count: "get_chunk_packet_count b c = Some (of_nat (card (?C \<inter> received b)))"
    using r by (simp add: get_chunk_packet_count_def count_received_eq [OF wf])
  have le: "card (?C \<inter> received b) \<le> unat (bb_packets_per_chunk b)"
    using card_range_bound [of _ _ "received b"] unfolding chunk_packets_def
    by (rule order_trans) simp
  have fin: "finite ?C" by (simp add: chunk_packets_def)
  have all: "?C \<subseteq> received b \<longleftrightarrow> card (?C \<inter> received b) = card ?C"
    using fin by (metis Int_lower1 card_subset_eq inf.absorb_iff1)
  have "{..<unat (bb_total_packets b)} \<inter> received b = received b"
    using wf by (auto simp: bb_wf_def)
  then have tot: "get_total_packets_received b = Some (of_nat (card (received b)))"
    by (simp add: get_total_packets_received_def count_received_eq [OF wf] lessThan_atLeast0)
  show ?thesis
    using backend_is_chunk_complete_eq [OF wf room c] count le all tot
    by (simp add: count_small [OF wf])
qed

theorem chunk_queries_correct_witness:
  "\<exists>n. backend_is_chunk_complete (BackendBitmap_new 100 8) 12
        = Some (chunk_packets (BackendBitmap_new 100 8) (unat (12 :: u32)) \<subseteq> received (BackendBitmap_new 100 8))
    \<and> get_chunk_packet_count (BackendBitmap_new 100 8) 12 = Some n
    \<and> unat n = card (chunk_packets (BackendBitmap_new 100 8) (unat (12 :: u32)) \<inter> received (BackendBitmap_new 100 8))
    \<and> unat n \<le> unat (bb_packets_per_chunk (BackendBitmap_new 100 8))
    \<and> (chunk_packets (BackendBitmap_new 100 8) (unat (12 :: u32)) \<subseteq> received (BackendBitmap_new 100 8)
        \<longleftrightarrow> unat n = card (chunk_packets (BackendBitmap_new 100 8) (unat (12 :: u32))))
    \<and> get_total_packets_received (BackendBitmap_new 100 8)
        = Some (of_nat (card (received (BackendBitmap_new 100 8))))"
  by (rule chunk_queries_correct [OF new_wf(1)]) (simp_all add: bb_room_def)

lemma check_range_outside:
  assumes "length (packet_bitmap b) \<le> unat s div 64"
  shows "check_chunk_range b s e = None"
proof -
  have "arr_get (packet_bitmap b) (unat (s div 64)) = None" using assms by (simp add: unat_div)
  then show ?thesis by (auto simp: check_chunk_range_def get_bit_position_def Let_def)
qed

text \<open>C24: Unlike \<open>is_packet_received\<close>, which answers false for a packet outside the message, the
  chunk test has no guard: a chunk number whose first packet lies in no word of the bitmap makes it
  read outside the array.\<close>

theorem chunk_test_out_of_bounds:
  assumes "bb_wf b" and "unat c * unat (bb_packets_per_chunk b) < 2 ^ 32"
    and "64 * unat (bb_num_words b) \<le> unat c * unat (bb_packets_per_chunk b)"
  shows "backend_is_chunk_complete b c = None \<and> is_packet_received b (c * ucast (bb_packets_per_chunk b)) = Some False"
proof -
  let ?s = "c * ucast (bb_packets_per_chunk b)"
  have s: "unat ?s = unat c * unat (bb_packets_per_chunk b)"
    using assms(2) by (simp add: unat_word_ariths)
  have "length (packet_bitmap b) \<le> unat ?s div 64"
    using assms(1,3) unfolding s bb_wf_def by linarith
  then have "backend_is_chunk_complete b c = None"
    by (simp add: backend_is_chunk_complete_def chunk_range_def Let_def check_range_outside)
  moreover have "unat ?s \<notin> received b"
    using assms(1,3) unfolding s bb_wf_def by auto
  ultimately show ?thesis using is_packet_received_eq [OF assms(1)] by simp
qed

theorem chunk_test_out_of_bounds_witness:
  "backend_is_chunk_complete (BackendBitmap_new 100 8) 16 = None
    \<and> is_packet_received (BackendBitmap_new 100 8)
        (16 * ucast (bb_packets_per_chunk (BackendBitmap_new 100 8))) = Some False"
  by (rule chunk_test_out_of_bounds [OF new_wf(1)]) (simp_all add: BackendBitmap_new_def Let_def)

end
