(* ===== verification/Frontend.thy ===== *)
theory Frontend
  imports Backend
begin

text \<open>
  The chunk bitmap of \<open>include/sdr_frontend.h\<close>: a poller thread tests each chunk against the packet
  bitmap it shares with the UDP workers and marks the complete ones.  The packet bitmap is an
  argument of the operations that read it, as found at that moment; a system of workers, poller and
  owner taking steps in any order follows at the end.
\<close>

section \<open>State and operations\<close>

record FrontendBitmap =
  chunk_bitmap :: "u64 list"
  fb_num_words :: u32
  fb_total_chunks :: u32
  fb_packets_per_chunk :: u16
  poller_joinable :: bool
  fb_should_stop :: bool
  fb_poll_interval_us :: u32

definition FrontendBitmap_new :: "BackendBitmap option \<Rightarrow> u32 \<Rightarrow> FrontendBitmap" where
  "FrontendBitmap_new backend_bitmap total_chunks =
     (let num_words = (total_chunks + 63) div 64
      in \<lparr> chunk_bitmap = replicate (unat num_words) 0, fb_num_words = num_words,
           fb_total_chunks = total_chunks,
           fb_packets_per_chunk =
             (case backend_bitmap of None \<Rightarrow> 0 | Some b \<Rightarrow> bb_packets_per_chunk b),
           poller_joinable = False, fb_should_stop = False, fb_poll_interval_us = 100 \<rparr>)"

definition start_polling :: "FrontendBitmap \<Rightarrow> u32 \<Rightarrow> bool \<times> FrontendBitmap" where
  "start_polling f poll_interval_us =
     (if poller_joinable f then (False, f)
      else (True, f\<lparr>fb_poll_interval_us := poll_interval_us, fb_should_stop := False,
                    poller_joinable := True\<rparr>))"

definition stop_polling :: "FrontendBitmap \<Rightarrow> FrontendBitmap" where
  "stop_polling f =
     (if \<not> poller_joinable f then f
      else f\<lparr>fb_should_stop := True, poller_joinable := False\<rparr>)"

definition frontend_is_chunk_complete :: "FrontendBitmap \<Rightarrow> u32 \<Rightarrow> bool option" where
  "frontend_is_chunk_complete f chunk_id =
     (if chunk_id \<ge> fb_total_chunks f then Some False
      else
        let word_idx = chunk_id div 64; bit_pos = chunk_id mod 64;
            bit_mask = push_bit (unat bit_pos) 1
        in (case arr_get (chunk_bitmap f) (unat word_idx) of
              None \<Rightarrow> None
            | Some value \<Rightarrow> Some (value AND bit_mask \<noteq> 0)))"

definition get_total_chunks_completed :: "FrontendBitmap \<Rightarrow> u32 option" where
  "get_total_chunks_completed f =
     (case for_exit 0 (fb_total_chunks f)
        (\<lambda>i count. case frontend_is_chunk_complete f i of
           None \<Rightarrow> Inl ()
         | Some r \<Rightarrow> Inr (if r then count + 1 else count)) (0 :: u32)
      of Inl _ \<Rightarrow> None | Inr count \<Rightarrow> Some count)"

definition check_and_set_chunk ::
    "BackendBitmap \<Rightarrow> FrontendBitmap \<Rightarrow> u32 \<Rightarrow> (bool \<times> FrontendBitmap) option" where
  "check_and_set_chunk b f chunk_id =
     (case frontend_is_chunk_complete f chunk_id of
        None \<Rightarrow> None
      | Some True \<Rightarrow> Some (True, f)
      | Some False \<Rightarrow>
          (case backend_is_chunk_complete b chunk_id of
             None \<Rightarrow> None
           | Some False \<Rightarrow> Some (False, f)
           | Some True \<Rightarrow>
               (let word_idx = chunk_id div 64; bit_pos = chunk_id mod 64;
                    bit_mask = push_bit (unat bit_pos) 1
                in case arr_get (chunk_bitmap f) (unat word_idx) of
                     None \<Rightarrow> None
                   | Some old_value \<Rightarrow>
                       Some (old_value AND bit_mask = 0,
                         f\<lparr>chunk_bitmap := (chunk_bitmap f)
                             [unat word_idx := old_value OR bit_mask]\<rparr>))))"

definition update_chunk_bitmap ::
    "BackendBitmap option \<Rightarrow> FrontendBitmap \<Rightarrow> FrontendBitmap option" where
  "update_chunk_bitmap backend f =
     (case backend of
        None \<Rightarrow> Some f
      | Some b \<Rightarrow>
          (case for_exit 0 (fb_total_chunks f)
             (\<lambda>chunk_id f. case check_and_set_chunk b f chunk_id of
                None \<Rightarrow> Inl () | Some (_, f') \<Rightarrow> Inr f') f
           of Inl _ \<Rightarrow> None | Inr f' \<Rightarrow> Some f'))"

definition poll_once :: "BackendBitmap option \<Rightarrow> FrontendBitmap \<Rightarrow> FrontendBitmap option" where
  "poll_once backend f = update_chunk_bitmap backend f"

section \<open>Abstraction and invariant\<close>

definition marked :: "FrontendBitmap \<Rightarrow> nat set" where
  "marked f = bits_of (chunk_bitmap f)"

definition fb_wf :: "FrontendBitmap \<Rightarrow> bool" where
  "fb_wf f \<longleftrightarrow> length (chunk_bitmap f) = unat (fb_num_words f)
     \<and> unat (fb_total_chunks f) \<le> 64 * unat (fb_num_words f)
     \<and> marked f \<subseteq> {..<unat (fb_total_chunks f)}"

text \<open>Everything but the marks and the controls of the thread.\<close>

definition fb_frame :: "FrontendBitmap \<Rightarrow> u32 \<times> u32 \<times> u16" where
  "fb_frame f = (fb_num_words f, fb_total_chunks f, fb_packets_per_chunk f)"

text \<open>The chunk count is that of the packet bitmap: every chunk below it has a first packet.\<close>

definition chunks_fit :: "BackendBitmap \<Rightarrow> FrontendBitmap \<Rightarrow> bool" where
  "chunks_fit b f \<longleftrightarrow> bb_room b \<and>
     (\<forall>c < unat (fb_total_chunks f). c * unat (bb_packets_per_chunk b) < unat (bb_total_packets b))"

lemma fb_new_wf:
  assumes "unat tc + 63 < 2 ^ 32"
  shows "fb_wf (FrontendBitmap_new b tc)" and "marked (FrontendBitmap_new b tc) = {}"
proof -
  have "unat (tc + 63) = unat tc + 63" using assms by (simp add: unat_word_ariths)
  then have "unat ((tc + 63) div 64) = (unat tc + 63) div 64" by (simp add: unat_div)
  then show "fb_wf (FrontendBitmap_new b tc)"
    by (simp add: fb_wf_def FrontendBitmap_new_def marked_def Let_def)
  show "marked (FrontendBitmap_new b tc) = {}"
    by (simp add: FrontendBitmap_new_def marked_def Let_def)
qed

lemma fb_new_simps [simp]:
  "fb_total_chunks (FrontendBitmap_new b tc) = tc"
  by (simp add: FrontendBitmap_new_def Let_def)

lemma fb_wf_word:
  assumes "fb_wf f" and "c < fb_total_chunks f"
  shows "unat c div 64 < length (chunk_bitmap f)"
  using assms unfolding fb_wf_def word_less_nat_alt by linarith

lemma frontend_is_chunk_complete_eq:
  assumes "fb_wf f"
  shows "frontend_is_chunk_complete f c = Some (unat c \<in> marked f)"
proof (cases "c < fb_total_chunks f")
  case True
  then show ?thesis
    using fb_wf_word [OF assms True]
    by (simp add: not_le [symmetric] frontend_is_chunk_complete_def unat_div unat_mod
        and_bit_mask_eq_0 marked_def bits_of_def)
next
  case False
  then have "unat c \<notin> marked f"
    using assms unfolding fb_wf_def by (auto simp: word_less_nat_alt)
  with False show ?thesis by (simp add: frontend_is_chunk_complete_def not_less)
qed

lemma check_and_set_chunk_eq:
  assumes fb: "fb_wf f" and bb: "bb_wf b" and fit: "chunks_fit b f" and c: "c < fb_total_chunks f"
  obtains f' where "check_and_set_chunk b f c = Some (unat c \<in> marked f \<or> chunk_done b (unat c), f')"
    and "fb_wf f'" and "fb_frame f' = fb_frame f"
    and "marked f' = marked f \<union> (if chunk_done b (unat c) then {unat c} else {})"
    and "poller_joinable f' = poller_joinable f" and "fb_should_stop f' = fb_should_stop f"
proof -
  have in_range: "unat c div 64 < length (chunk_bitmap f)" using fb_wf_word [OF fb c] .
  have "unat c * unat (bb_packets_per_chunk b) < unat (bb_total_packets b)"
    using fit c by (simp add: chunks_fit_def word_less_nat_alt)
  then have bkd: "backend_is_chunk_complete b c = Some (chunk_done b (unat c))"
    using backend_is_chunk_complete_eq [OF bb] fit by (simp add: chunks_fit_def chunk_done_def)
  note front = frontend_is_chunk_complete_eq [OF fb, of c]
  consider "unat c \<in> marked f" | "unat c \<notin> marked f" "\<not> chunk_done b (unat c)"
    | "unat c \<notin> marked f" "chunk_done b (unat c)" by blast
  then show thesis
  proof cases
    case 1
    then show thesis
      by (intro that [of f]) (auto simp: check_and_set_chunk_def front fb)
  next
    case 2
    then show thesis
      by (intro that [of f]) (simp_all add: check_and_set_chunk_def front bkd fb)
  next
    case 3
    let ?f' = "f\<lparr>chunk_bitmap := (chunk_bitmap f)
        [unat c div 64 := chunk_bitmap f ! (unat c div 64) OR push_bit (unat c mod 64) 1]\<rparr>"
    have m: "marked ?f' = insert (unat c) (marked f)"
      using bits_of_or [OF in_range] by (simp add: marked_def)
    have "\<not> bit (chunk_bitmap f ! (unat c div 64)) (unat c mod 64)"
      using 3(1) in_range by (simp add: marked_def bits_of_def)
    then have "check_and_set_chunk b f c = Some (True, ?f')"
      using 3 in_range by (simp add: check_and_set_chunk_def front bkd Let_def unat_div unat_mod
          and_bit_mask_eq_0)
    then show thesis
      by (intro that [of ?f']) (use 3 m fb c in
          \<open>auto simp: fb_wf_def fb_frame_def word_less_nat_alt\<close>)
  qed
qed

lemma update_chunk_bitmap_eq:
  assumes "fb_wf f" and "bb_wf b" and "chunks_fit b f"
  shows "\<exists>f'. update_chunk_bitmap (Some b) f = Some f' \<and> fb_wf f' \<and> fb_frame f' = fb_frame f
    \<and> marked f' = marked f \<union> {c. c < unat (fb_total_chunks f) \<and> chunk_done b c}
    \<and> fb_should_stop f' = fb_should_stop f"
proof -
  let ?body = "\<lambda>chunk_id f. case check_and_set_chunk b f chunk_id of
      None \<Rightarrow> Inl () | Some (_, f') \<Rightarrow> Inr f'"
  let ?P = "\<lambda>j g. fb_wf g \<and> fb_frame g = fb_frame f \<and> fb_should_stop g = fb_should_stop f
      \<and> marked g = marked f \<union> {c. c < j \<and> chunk_done b c}"
  have "\<exists>f'. for_exit 0 (fb_total_chunks f) ?body f = Inr f' \<and> ?P (unat (fb_total_chunks f)) f'"
  proof (rule for_exit_total)
    show "?P (unat (0 :: u32)) f" using assms(1) by simp
    show "0 \<le> fb_total_chunks f" by simp
  next
    fix j g assume j: "j < unat (fb_total_chunks f)" and P: "?P j g"
    have uj: "unat (of_nat j :: u32) = j" using j by (rule unat_of_nat_below)
    have same: "fb_total_chunks g = fb_total_chunks f" using P by (simp add: fb_frame_def)
    then have c: "(of_nat j :: u32) < fb_total_chunks g" using j uj by (simp add: word_less_nat_alt)
    have fit: "chunks_fit b g" using assms(3) same by (simp add: chunks_fit_def)
    obtain g' where g': "check_and_set_chunk b g (of_nat j) = Some (j \<in> marked g \<or> chunk_done b j, g')"
      "fb_wf g'" "fb_frame g' = fb_frame g"
      "marked g' = marked g \<union> (if chunk_done b j then {j} else {})"
      "fb_should_stop g' = fb_should_stop g"
      using check_and_set_chunk_eq [OF conjunct1 [OF P] assms(2) fit c] unfolding uj by metis
    have "{c. c < Suc j \<and> chunk_done b c} =
        {c. c < j \<and> chunk_done b c} \<union> (if chunk_done b j then {j} else {})"
      by (auto simp: less_Suc_eq)
    then show "\<exists>s'. ?body (of_nat j) g = Inr s' \<and> ?P (Suc j) s'"
      using g' P by auto
  qed
  then show ?thesis by (auto simp: update_chunk_bitmap_def)
qed

lemma count_marked_eq:
  assumes wf: "fb_wf f"
  shows "get_total_chunks_completed f = Some (of_nat (card (marked f)))"
    and "card (marked f) \<le> unat (fb_total_chunks f)"
proof -
  let ?f = "\<lambda>i count. case frontend_is_chunk_complete f i of None \<Rightarrow> Inl ()
      | Some r \<Rightarrow> Inr (if r then count + 1 else count)"
  let ?Q = "\<lambda>j count. count = (of_nat (card ({..<j} \<inter> marked f)) :: u32)"
  have "\<exists>count. for_exit 0 (fb_total_chunks f) ?f 0 = Inr count \<and> ?Q (unat (fb_total_chunks f)) count"
  proof (rule for_exit_total)
    show "?Q (unat (0 :: u32)) 0" by simp
    show "0 \<le> fb_total_chunks f" by simp
  next
    fix j and count :: u32 assume j: "j < unat (fb_total_chunks f)" and Q: "?Q j count"
    have uj: "unat (of_nat j :: u32) = j" using j by (rule unat_of_nat_below)
    have "?f (of_nat j) count = Inr (of_nat (card ({..<Suc j} \<inter> marked f)))"
      using Q uj by (simp add: frontend_is_chunk_complete_eq [OF wf] lessThan_Suc Int_insert_left)
    then show "\<exists>s'. ?f (of_nat j) count = Inr s' \<and> ?Q (Suc j) s'" by blast
  qed
  moreover have sub: "marked f \<subseteq> {..<unat (fb_total_chunks f)}" using wf by (simp add: fb_wf_def)
  ultimately show "get_total_chunks_completed f = Some (of_nat (card (marked f)))"
    by (auto simp: get_total_chunks_completed_def Int_absorb1)
  show "card (marked f) \<le> unat (fb_total_chunks f)"
    using card_mono [OF _ sub] by simp
qed

text \<open>The number of chunks is the number of packets over the chunk size, rounded up.\<close>

definition chunks_cover :: "BackendBitmap \<Rightarrow> FrontendBitmap \<Rightarrow> bool" where
  "chunks_cover b f \<longleftrightarrow> bb_room b \<and> unat (fb_total_chunks f) =
     (unat (bb_total_packets b) + unat (bb_packets_per_chunk b) - 1) div unat (bb_packets_per_chunk b)"

lemma chunks_cover_fit:
  assumes "chunks_cover b f"
  shows "chunks_fit b f"
  unfolding chunks_fit_def
proof (intro conjI allI impI)
  show "bb_room b" using assms by (simp add: chunks_cover_def)
  fix c assume c: "c < unat (fb_total_chunks f)"
  let ?P = "unat (bb_packets_per_chunk b)" and ?T = "unat (bb_total_packets b)"
  have P: "0 < ?P" using assms by (simp add: chunks_cover_def bb_room_def)
  have "\<not> (?T + ?P - 1) div ?P \<le> c" using assms c by (simp add: chunks_cover_def)
  then have "\<not> ?T \<le> c * ?P" unfolding ceil_div_le_iff [OF P] .
  then show "c * ?P < ?T" by simp
qed

lemma chunk_packets_cover:
  assumes "chunks_cover b f"
  shows "(\<Union>c<unat (fb_total_chunks f). chunk_packets b c) = {..<unat (bb_total_packets b)}"
proof (rule set_eqI)
  fix n
  let ?P = "unat (bb_packets_per_chunk b)" and ?T = "unat (bb_total_packets b)"
  have P: "0 < ?P" using assms by (simp add: chunks_cover_def bb_room_def)
  have "?T \<le> unat (fb_total_chunks f) * ?P"
    using assms ceil_div_le_iff [OF P, of ?T "unat (fb_total_chunks f)"] by (simp add: chunks_cover_def)
  then have "n < ?T \<Longrightarrow> n div ?P < unat (fb_total_chunks f)"
    by (simp add: div_less_iff_less_mult [OF P])
  moreover have "n < ?T \<Longrightarrow> n \<in> chunk_packets b (n div ?P)"
    using P dividend_less_div_times [OF P, of n] by (simp add: chunk_packets_def)
  ultimately have "n < ?T \<Longrightarrow> n \<in> (\<Union>c<unat (fb_total_chunks f). chunk_packets b c)" by blast
  then show "n \<in> (\<Union>c<unat (fb_total_chunks f). chunk_packets b c) \<longleftrightarrow> n \<in> {..<?T}"
    by (auto simp: chunk_packets_def)
qed

lemma all_chunks_done_iff:
  assumes "chunks_cover b f" and "bb_wf b"
  shows "(\<forall>c<unat (fb_total_chunks f). chunk_done b c) \<longleftrightarrow> received b = {..<unat (bb_total_packets b)}"
proof -
  have "(\<forall>c<unat (fb_total_chunks f). chunk_done b c) \<longleftrightarrow>
      (\<Union>c<unat (fb_total_chunks f). chunk_packets b c) \<subseteq> received b"
    by (auto simp: chunk_done_def)
  also have "\<dots> \<longleftrightarrow> received b = {..<unat (bb_total_packets b)}"
    using assms(2) by (auto simp: chunk_packets_cover [OF assms(1)] bb_wf_def)
  finally show ?thesis .
qed

section \<open>Poller, workers and owner\<close>

text \<open>
  The thread of \<open>polling_thread_func\<close> is at the loop test, about to check a chunk of
  \<open>update_chunk_bitmap\<close>, in \<open>wait_for\<close>, or gone.  A worker's \<open>fetch_or\<close> is a step.  The check of one chunk,
  which is several atomic loads and a \<open>fetch_or\<close>, is one step too: bits of the packet bitmap are only ever
  set, so what the loads have seen still holds at the \<open>fetch_or\<close>, and a worker's step between them is as
  good as one before or after them.
\<close>

datatype PollerPc = PollHead | PollAt u32 | PollWait | PollExited

record PollSystem =
  sys_backend :: BackendBitmap
  sys_frontend :: FrontendBitmap
  sys_pc :: PollerPc

inductive poll_step :: "PollSystem \<Rightarrow> PollSystem \<Rightarrow> bool" where
  worker: "mark_received p (sys_backend s) = Some b' \<Longrightarrow> poll_step s (s\<lparr>sys_backend := b'\<rparr>)"
| head_stop: "sys_pc s = PollHead \<Longrightarrow> fb_should_stop (sys_frontend s) \<Longrightarrow>
    poll_step s (s\<lparr>sys_pc := PollExited\<rparr>)"
| head_go: "sys_pc s = PollHead \<Longrightarrow> \<not> fb_should_stop (sys_frontend s) \<Longrightarrow>
    poll_step s (s\<lparr>sys_pc := PollAt 0\<rparr>)"
| check: "sys_pc s = PollAt c \<Longrightarrow> c < fb_total_chunks (sys_frontend s) \<Longrightarrow>
    check_and_set_chunk (sys_backend s) (sys_frontend s) c = Some (r, f') \<Longrightarrow>
    poll_step s (s\<lparr>sys_frontend := f', sys_pc := PollAt (c + 1)\<rparr>)"
| pass_done: "sys_pc s = PollAt c \<Longrightarrow> \<not> c < fb_total_chunks (sys_frontend s) \<Longrightarrow>
    poll_step s (s\<lparr>sys_pc := PollWait\<rparr>)"
| wake: "sys_pc s = PollWait \<Longrightarrow> poll_step s (s\<lparr>sys_pc := PollHead\<rparr>)"
| stop_request: "poller_joinable (sys_frontend s) \<Longrightarrow>
    poll_step s (s\<lparr>sys_frontend := (sys_frontend s)\<lparr>fb_should_stop := True\<rparr>\<rparr>)"
| join: "sys_pc s = PollExited \<Longrightarrow> poller_joinable (sys_frontend s) \<Longrightarrow>
    poll_step s (s\<lparr>sys_frontend := (sys_frontend s)\<lparr>poller_joinable := False\<rparr>\<rparr>)"
| start: "start_polling (sys_frontend s) i = (True, f') \<Longrightarrow>
    poll_step s (s\<lparr>sys_frontend := f', sys_pc := PollHead\<rparr>)"

inductive_cases poll_stepE: "poll_step s t"

inductive poll_reach :: "PollSystem \<Rightarrow> PollSystem \<Rightarrow> bool" for s0 where
  refl: "poll_reach s0 s0"
| step: "poll_reach s0 s \<Longrightarrow> poll_step s t \<Longrightarrow> poll_reach s0 t"

definition poll_inv :: "PollSystem \<Rightarrow> bool" where
  "poll_inv s \<longleftrightarrow> bb_wf (sys_backend s) \<and> fb_wf (sys_frontend s)
     \<and> chunks_fit (sys_backend s) (sys_frontend s)
     \<and> (\<forall>c\<in>marked (sys_frontend s). chunk_done (sys_backend s) c)"

lemma mark_received_grows:
  assumes "bb_wf b" and "mark_received p b = Some b'"
  shows "bb_wf b'" and "bb_grows b b'" and "chunks_fit b f \<Longrightarrow> chunks_fit b' f"
proof -
  obtain b1 where "mark_received p b = Some b1" "bb_wf b1" "bb_frame b1 = bb_frame b"
    "received b1 = received b \<union> (if p < bb_total_packets b then {unat p} else {})"
    using mark_received_eq [OF assms(1)] .
  with assms(2) show "bb_wf b'" "bb_grows b b'" "chunks_fit b f \<Longrightarrow> chunks_fit b' f"
    by (auto simp: bb_grows_def bb_frame_def chunks_fit_def bb_room_def)
qed

lemma control_changes [simp]:
  "fb_wf (f\<lparr>fb_should_stop := x\<rparr>) = fb_wf f" "fb_wf (f\<lparr>poller_joinable := x\<rparr>) = fb_wf f"
  "fb_wf (f\<lparr>fb_poll_interval_us := i\<rparr>) = fb_wf f"
  "marked (f\<lparr>fb_should_stop := x\<rparr>) = marked f" "marked (f\<lparr>poller_joinable := x\<rparr>) = marked f"
  "marked (f\<lparr>fb_poll_interval_us := i\<rparr>) = marked f"
  "chunks_fit b (f\<lparr>fb_should_stop := x\<rparr>) = chunks_fit b f"
  "chunks_fit b (f\<lparr>poller_joinable := x\<rparr>) = chunks_fit b f"
  "chunks_fit b (f\<lparr>fb_poll_interval_us := i\<rparr>) = chunks_fit b f"
  by (simp_all add: fb_wf_def marked_def chunks_fit_def)

lemma poll_step_check:
  assumes inv: "poll_inv s" and c: "c < fb_total_chunks (sys_frontend s)"
  shows "\<exists>r f'. check_and_set_chunk (sys_backend s) (sys_frontend s) c = Some (r, f')
    \<and> poll_inv (s\<lparr>sys_frontend := f', sys_pc := pc\<rparr>)
    \<and> marked (sys_frontend s) \<subseteq> marked f'"
proof -
  let ?b = "sys_backend s" and ?f = "sys_frontend s"
  have i: "fb_wf ?f" "bb_wf ?b" "chunks_fit ?b ?f" "\<forall>c\<in>marked ?f. chunk_done ?b c"
    using inv by (auto simp: poll_inv_def)
  obtain f' where f': "check_and_set_chunk ?b ?f c = Some (unat c \<in> marked ?f \<or> chunk_done ?b (unat c), f')"
    "fb_wf f'" "fb_frame f' = fb_frame ?f"
    "marked f' = marked ?f \<union> (if chunk_done ?b (unat c) then {unat c} else {})"
    using check_and_set_chunk_eq [OF i(1,2,3) c] by metis
  have "chunks_fit ?b f'" using i(3) f'(3) by (simp add: chunks_fit_def fb_frame_def)
  moreover have "\<forall>c\<in>marked f'. chunk_done ?b c"
    unfolding f'(4) by (rule bitmap_source.marks_extend [OF i(4) bitmap_source.grows_refl]) simp
  ultimately have "poll_inv (s\<lparr>sys_frontend := f', sys_pc := pc\<rparr>)"
    using f'(2) i(2) by (simp add: poll_inv_def)
  moreover have "marked ?f \<subseteq> marked f'" unfolding f'(4) by simp
  ultimately show ?thesis using f'(1) by blast
qed

lemma poll_step_inv [sdr_inv]:
  assumes "poll_step s t" and inv: "poll_inv s"
  shows "poll_inv t \<and> marked (sys_frontend s) \<subseteq> marked (sys_frontend t)
    \<and> bb_grows (sys_backend s) (sys_backend t)"
  using assms
proof (cases rule: poll_step.cases)
  case (worker p b')
  have b': "bb_wf b'" "bb_grows (sys_backend s) b'" "chunks_fit b' (sys_frontend s)"
    using mark_received_grows [OF _ worker(2)] inv by (auto simp: poll_inv_def)
  have "\<forall>c\<in>marked (sys_frontend s) \<union> {}. chunk_done b' c"
    by (rule bitmap_source.marks_extend [OF _ b'(2)]) (use inv in \<open>auto simp: poll_inv_def\<close>)
  with worker b' inv show ?thesis by (simp add: poll_inv_def)
next
  case (check c r f')
  obtain r' g where g: "check_and_set_chunk (sys_backend s) (sys_frontend s) c = Some (r', g)"
    "poll_inv (s\<lparr>sys_frontend := g, sys_pc := PollAt (c + 1)\<rparr>)" "marked (sys_frontend s) \<subseteq> marked g"
    using poll_step_check [OF inv check(3), of "PollAt (c + 1)"] by metis
  have "f' = g" using g(1) check(4) by simp
  have t: "t = s\<lparr>sys_frontend := g, sys_pc := PollAt (c + 1)\<rparr>" using check(1) \<open>f' = g\<close> by simp
  show ?thesis unfolding t using g(2,3) by (simp add: bitmap_source.grows_refl)
next
  case (start i f')
  then have "f' = (sys_frontend s)\<lparr>fb_poll_interval_us := i, fb_should_stop := False,
      poller_joinable := True\<rparr>"
    by (simp add: start_polling_def split: if_splits)
  with start(1) inv show ?thesis by (simp add: poll_inv_def bitmap_source.grows_refl)
next
  case stop_request
  with inv show ?thesis by (simp add: poll_inv_def bitmap_source.grows_refl)
next
  case join
  with inv show ?thesis by (simp add: poll_inv_def bitmap_source.grows_refl)
qed (use inv in \<open>simp_all add: poll_inv_def bitmap_source.grows_refl\<close>)

lemma poll_reach_inv:
  assumes "poll_reach s0 s" and "poll_inv s0"
  shows "poll_inv s \<and> marked (sys_frontend s0) \<subseteq> marked (sys_frontend s)
    \<and> bb_grows (sys_backend s0) (sys_backend s)"
  using assms
proof (induction rule: poll_reach.induct)
  case refl
  then show ?case by (simp add: bitmap_source.grows_refl)
next
  case (step s t)
  with poll_step_inv [OF step.hyps(2)] show ?case
    using bitmap_source.grows_trans by blast
qed

text \<open>The state after the receiver has created the bitmaps of a message, before polling starts.\<close>

definition poll_start :: "u32 \<Rightarrow> u16 \<Rightarrow> u32 \<Rightarrow> PollSystem" where
  "poll_start total_packets packets_per_chunk total_chunks =
     (let b = BackendBitmap_new total_packets packets_per_chunk
      in \<lparr> sys_backend = b, sys_frontend = FrontendBitmap_new (Some b) total_chunks,
           sys_pc = PollExited \<rparr>)"

text \<open>Dimensions that fit: the chunk count is the rounded-up quotient and no end of a chunk wraps.\<close>

definition dims_ok :: "u32 \<Rightarrow> u16 \<Rightarrow> u32 \<Rightarrow> bool" where
  "dims_ok tp ppc tc \<longleftrightarrow> 0 < unat ppc \<and> unat tp + unat ppc \<le> 2 ^ 32 \<and> unat tp + 63 < 2 ^ 32
     \<and> unat tc = (unat tp + unat ppc - 1) div unat ppc"

lemma dims_ok_chunks:
  assumes "dims_ok tp ppc tc"
  shows "unat tc \<le> unat tp"
proof -
  have "0 < unat ppc" using assms by (simp add: dims_ok_def)
  then have "unat tp \<le> unat tp * unat ppc" by simp
  then show ?thesis
    using assms ceil_div_le_iff [OF \<open>0 < unat ppc\<close>, of "unat tp" "unat tp"] unfolding dims_ok_def by metis
qed

lemma poll_start_inv:
  assumes "dims_ok tp ppc tc"
  shows "poll_inv (poll_start tp ppc tc)"
    and "chunks_cover (sys_backend (poll_start tp ppc tc)) (sys_frontend (poll_start tp ppc tc))"
proof -
  show cover: "chunks_cover (sys_backend (poll_start tp ppc tc)) (sys_frontend (poll_start tp ppc tc))"
    using assms by (simp add: poll_start_def chunks_cover_def bb_room_def dims_ok_def Let_def)
  have "unat tp + 63 < 2 ^ 32" "unat tc + 63 < 2 ^ 32"
    using assms dims_ok_chunks [OF assms] unfolding dims_ok_def by linarith+
  then show "poll_inv (poll_start tp ppc tc)"
    using chunks_cover_fit [OF cover]
    by (simp add: poll_inv_def poll_start_def Let_def new_wf fb_new_wf)
qed

lemma chunks_cover_frame:
  "bb_frame b = bb_frame b' \<Longrightarrow> fb_frame f = fb_frame f' \<Longrightarrow> chunks_cover b f = chunks_cover b' f'"
  by (simp add: chunks_cover_def bb_room_def bb_frame_def fb_frame_def)

lemma poll_step_frame:
  assumes "poll_step s t" and "poll_inv s"
  shows "fb_frame (sys_frontend t) = fb_frame (sys_frontend s)"
  using assms
proof (cases rule: poll_step.cases)
  case (check c r f')
  obtain g where "check_and_set_chunk (sys_backend s) (sys_frontend s) c =
      Some (unat c \<in> marked (sys_frontend s) \<or> chunk_done (sys_backend s) (unat c), g)"
    "fb_frame g = fb_frame (sys_frontend s)"
    using check_and_set_chunk_eq [of "sys_frontend s" "sys_backend s" c] assms(2) check(3)
    unfolding poll_inv_def by metis
  with check show ?thesis by simp
next
  case (start i f')
  then show ?thesis by (auto simp: start_polling_def fb_frame_def split: if_splits)
qed (simp_all add: fb_frame_def)

lemma poll_reach_cover:
  assumes "poll_reach s0 s" and "poll_inv s0" and "chunks_cover (sys_backend s0) (sys_frontend s0)"
  shows "chunks_cover (sys_backend s) (sys_frontend s)"
  using assms
proof (induction rule: poll_reach.induct)
  case refl
  then show ?case by simp
next
  case (step s t)
  have inv: "poll_inv s" using poll_reach_inv [OF step.hyps(1) step.prems(1)] by simp
  have "bb_frame (sys_backend s) = bb_frame (sys_backend t)"
    using poll_step_inv [OF step.hyps(2) inv] by (simp add: bb_grows_def)
  with poll_step_frame [OF step.hyps(2) inv] step show ?case
    using chunks_cover_frame by metis
qed

text \<open>A run in which a message of two packets and one chunk is received and noticed.\<close>

lemma polled_run:
  "\<exists>s. poll_reach (poll_start 2 2 1) s \<and> marked (sys_frontend s) = {0}
    \<and> get_total_chunks_completed (sys_frontend s) = Some 1 \<and> fb_total_chunks (sys_frontend s) = 1"
proof -
  let ?s0 = "poll_start 2 2 1"
  have s0: "bb_wf (sys_backend ?s0)" "fb_wf (sys_frontend ?s0)" "marked (sys_frontend ?s0) = {}"
    "received (sys_backend ?s0) = {}" "\<not> poller_joinable (sys_frontend ?s0)"
    "fb_total_chunks (sys_frontend ?s0) = 1" "bb_total_packets (sys_backend ?s0) = 2"
    "bb_packets_per_chunk (sys_backend ?s0) = 2"
    by (simp_all add: poll_start_def Let_def new_wf fb_new_wf)
      (simp_all add: FrontendBitmap_new_def BackendBitmap_new_def Let_def)
  obtain b1 where b1: "mark_received 0 (sys_backend ?s0) = Some b1" "bb_wf b1"
    "bb_frame b1 = bb_frame (sys_backend ?s0)" "received b1 = {0}"
    using mark_received_eq [OF s0(1), of 0] s0(4,7) by auto
  obtain b2 where b2: "mark_received 1 b1 = Some b2" "bb_wf b2" "bb_frame b2 = bb_frame b1" "received b2 = {0, 1}"
    using mark_received_eq [OF b1(2), of 1] b1(3,4) s0(7) by (auto simp: bb_frame_def insert_commute)
  let ?f1 = "(sys_frontend ?s0)\<lparr>fb_poll_interval_us := 5, fb_should_stop := False, poller_joinable := True\<rparr>"
  let ?s1 = "?s0\<lparr>sys_backend := b1\<rparr>" let ?s2 = "?s1\<lparr>sys_backend := b2\<rparr>"
  let ?s3 = "?s2\<lparr>sys_frontend := ?f1, sys_pc := PollHead\<rparr>" let ?s4 = "?s3\<lparr>sys_pc := PollAt 0\<rparr>"
  have dims: "bb_total_packets b2 = 2" "bb_packets_per_chunk b2 = 2"
    using b2(3) b1(3) s0(7,8) by (simp_all add: bb_frame_def)
  have fit: "chunks_fit b2 ?f1" using s0(6) dims by (simp add: chunks_fit_def bb_room_def)
  have "chunk_packets b2 0 = {0..<2}" unfolding chunk_packets_def dims by simp
  then have full: "chunk_done b2 0" unfolding chunk_done_def b2(4) by (simp add: subset_iff less_2_cases_iff)
  obtain r f2 where f2: "check_and_set_chunk b2 ?f1 0 = Some (r, f2)" "fb_wf f2"
    "fb_frame f2 = fb_frame ?f1" "marked f2 = {0}"
  proof (rule check_and_set_chunk_eq [OF _ b2(2) fit, of 0])
    show "fb_wf ?f1" "0 < fb_total_chunks ?f1" using s0(2,6) by simp_all
  qed (use s0(3) full that in auto)
  have steps: "poll_step ?s0 ?s1" "poll_step ?s1 ?s2" "poll_step ?s2 ?s3" "poll_step ?s3 ?s4"
    "poll_step ?s4 (?s4\<lparr>sys_frontend := f2, sys_pc := PollAt (0 + 1)\<rparr>)"
    by (rule poll_step.worker, rule b1(1), rule poll_step.worker [of 1], simp add: b2(1),
      rule poll_step.start [where i = 5], simp add: start_polling_def s0(5),
      rule poll_step.head_go, simp, simp, rule poll_step.check, simp, simp add: s0(6), simp add: f2(1))
  have "poll_reach ?s0 (?s4\<lparr>sys_frontend := f2, sys_pc := PollAt (0 + 1)\<rparr>)"
    by (rule poll_reach.step [OF poll_reach.step [OF poll_reach.step [OF poll_reach.step
          [OF poll_reach.step [OF poll_reach.refl steps(1)] steps(2)] steps(3)] steps(4)] steps(5)])
  moreover have "fb_total_chunks f2 = 1" using f2(3) s0(6) by (simp add: fb_frame_def)
  ultimately show ?thesis
    using f2(4) count_marked_eq(1) [OF f2(2)]
    by (intro exI [of _ "?s4\<lparr>sys_frontend := f2, sys_pc := PollAt (0 + 1)\<rparr>"]) simp
qed

section \<open>Properties\<close>

text \<open>C4: The chunk bitmap never runs ahead of the packet bitmap.  However the steps of workers,
  poller and owner interleave, in every reachable state every chunk marked complete has all its
  packets received, marks are never lost, the poller's next check cannot fault, and when as many
  chunks are counted complete as the message has, the whole message has been received.\<close>

theorem poller_sound:
  assumes dims: "dims_ok tp ppc tc" and reach: "poll_reach (poll_start tp ppc tc) s"
  shows "(\<forall>c\<in>marked (sys_frontend s). chunk_packets (sys_backend s) c \<subseteq> received (sys_backend s))
    \<and> (\<forall>t. poll_step s t \<longrightarrow> marked (sys_frontend s) \<subseteq> marked (sys_frontend t))
    \<and> (\<forall>c. c < fb_total_chunks (sys_frontend s) \<longrightarrow>
          check_and_set_chunk (sys_backend s) (sys_frontend s) c \<noteq> None)
    \<and> (get_total_chunks_completed (sys_frontend s) = Some (fb_total_chunks (sys_frontend s)) \<longrightarrow>
          received (sys_backend s) = {..<unat (bb_total_packets (sys_backend s))})"
proof (intro conjI allI impI)
  have inv: "poll_inv s"
    using poll_reach_inv [OF reach poll_start_inv(1) [OF dims]] by simp
  have cover: "chunks_cover (sys_backend s) (sys_frontend s)"
    by (rule poll_reach_cover [OF reach]) (rule poll_start_inv [OF dims])+
  have wf: "fb_wf (sys_frontend s)" "bb_wf (sys_backend s)"
    and sound: "\<forall>c\<in>marked (sys_frontend s). chunk_done (sys_backend s) c"
    using inv by (auto simp: poll_inv_def)
  show "\<forall>c\<in>marked (sys_frontend s). chunk_packets (sys_backend s) c \<subseteq> received (sys_backend s)"
    using sound by (simp add: chunk_done_def)
  show "marked (sys_frontend s) \<subseteq> marked (sys_frontend t)" if "poll_step s t" for t
    using poll_step_inv [OF that inv] by simp
  show "check_and_set_chunk (sys_backend s) (sys_frontend s) c \<noteq> None"
    if "c < fb_total_chunks (sys_frontend s)" for c
    using poll_step_check [OF inv that, of PollHead] by auto
  assume "get_total_chunks_completed (sys_frontend s) = Some (fb_total_chunks (sys_frontend s))"
  then have "(of_nat (card (marked (sys_frontend s))) :: u32) = fb_total_chunks (sys_frontend s)"
    by (simp add: count_marked_eq(1) [OF wf(1)])
  moreover have "unat (of_nat (card (marked (sys_frontend s))) :: u32) = card (marked (sys_frontend s))"
    by (rule unat_of_nat_small)
      (use count_marked_eq(2) [OF wf(1)] unat_width(5) [of "fb_total_chunks (sys_frontend s)"] in simp)
  ultimately have "card (marked (sys_frontend s)) = card {..<unat (fb_total_chunks (sys_frontend s))}"
    by simp
  then have "marked (sys_frontend s) = {..<unat (fb_total_chunks (sys_frontend s))}"
    using wf(1) by (intro card_subset_eq) (auto simp: fb_wf_def)
  then show "received (sys_backend s) = {..<unat (bb_total_packets (sys_backend s))}"
    using all_chunks_done_iff [OF cover wf(2)] sound by auto
qed

theorem poller_sound_witness:
  "\<exists>s. poll_reach (poll_start 2 2 1) s \<and> marked (sys_frontend s) = {0}
    \<and> chunk_packets (sys_backend s) 0 \<subseteq> received (sys_backend s)
    \<and> check_and_set_chunk (sys_backend s) (sys_frontend s) 0 \<noteq> None
    \<and> received (sys_backend s) = {..<unat (bb_total_packets (sys_backend s))}"
proof -
  obtain s where s: "poll_reach (poll_start 2 2 1) s" "marked (sys_frontend s) = {0}"
    "get_total_chunks_completed (sys_frontend s) = Some 1" "fb_total_chunks (sys_frontend s) = 1"
    using polled_run by blast
  have "dims_ok 2 2 1" by (simp add: dims_ok_def)
  from poller_sound [OF this s(1)] s show ?thesis
    by (intro exI [of _ s]) (simp, metis)
qed

text \<open>C21: One undisturbed polling pass is exact.  When the chunk count matches the message,
  \<open>update_chunk_bitmap\<close> does not fault, leaves exactly the old marks and all complete chunks marked,
  and if all earlier marks were justified the message counts as complete after the pass exactly when
  every packet has been received.\<close>

theorem poll_pass_exact:
  assumes "fb_wf f" and "bb_wf b" and "chunks_cover b f"
    and sound: "\<forall>c\<in>marked f. chunk_packets b c \<subseteq> received b"
  shows "\<exists>f'. update_chunk_bitmap (Some b) f = Some f' \<and> fb_wf f'
    \<and> marked f' = {c. c < unat (fb_total_chunks f) \<and> chunk_packets b c \<subseteq> received b}
    \<and> (get_total_chunks_completed f' = Some (fb_total_chunks f)
        \<longleftrightarrow> received b = {..<unat (bb_total_packets b)})"
proof -
  let ?T = "fb_total_chunks f"
  obtain f' where f': "update_chunk_bitmap (Some b) f = Some f'" "fb_wf f'" "fb_frame f' = fb_frame f"
    "marked f' = marked f \<union> {c. c < unat ?T \<and> chunk_done b c}"
    using update_chunk_bitmap_eq [OF assms(1,2) chunks_cover_fit [OF assms(3)]] by auto
  have T: "fb_total_chunks f' = ?T" using f'(3) by (simp add: fb_frame_def)
  have "marked f \<subseteq> {c. c < unat ?T \<and> chunk_done b c}"
    using sound assms(1) by (auto simp: fb_wf_def chunk_done_def)
  then have m: "marked f' = {c. c < unat ?T \<and> chunk_done b c}" using f'(4) by blast
  have le: "card (marked f') \<le> unat ?T" using count_marked_eq(2) [OF f'(2)] by (simp add: T)
  have small: "unat (of_nat (card (marked f')) :: u32) = card (marked f')"
    by (rule unat_of_nat_small) (use le unat_width(5) [of ?T] in simp)
  have "get_total_chunks_completed f' = Some ?T \<longleftrightarrow> card (marked f') = card {..<unat ?T}"
    using small by (simp add: count_marked_eq(1) [OF f'(2)] word_unat_eq_iff)
  also have "\<dots> \<longleftrightarrow> marked f' = {..<unat ?T}"
    using m by (intro iffI card_subset_eq) auto
  also have "\<dots> \<longleftrightarrow> (\<forall>c<unat ?T. chunk_done b c)" using m by auto
  also have "\<dots> \<longleftrightarrow> received b = {..<unat (bb_total_packets b)}"
    by (rule all_chunks_done_iff [OF assms(3,2)])
  finally show ?thesis using f' m by (auto simp: chunk_done_def)
qed

theorem poll_pass_exact_witness:
  "\<exists>f'. update_chunk_bitmap (Some (BackendBitmap_new 10 4))
        (FrontendBitmap_new (Some (BackendBitmap_new 10 4)) 3) = Some f' \<and> fb_wf f'
    \<and> marked f' = {c. c < unat (fb_total_chunks (FrontendBitmap_new (Some (BackendBitmap_new 10 4)) 3))
        \<and> chunk_packets (BackendBitmap_new 10 4) c \<subseteq> received (BackendBitmap_new 10 4)}
    \<and> (get_total_chunks_completed f'
         = Some (fb_total_chunks (FrontendBitmap_new (Some (BackendBitmap_new 10 4)) 3))
        \<longleftrightarrow> received (BackendBitmap_new 10 4) = {..<unat (bb_total_packets (BackendBitmap_new 10 4))})"
  by (rule poll_pass_exact [OF fb_new_wf(1) new_wf(1)])
    (simp_all add: chunks_cover_def bb_room_def fb_new_wf)

end
