(* ===== verification/Byte_Layout.thy ===== *)
theory Byte_Layout
  imports SDR_Prelude
begin

text \<open>
  Little-endian memory images of unsigned integers and the byte swaps of \<open>htons\<close>/\<open>htonl\<close> on a
  little-endian host, as used by the packed UDP packet header and by the control message that is
  copied with \<open>memcpy\<close>.
\<close>

section \<open>Images of integers\<close>

definition le_bytes :: "nat \<Rightarrow> 'w::len word \<Rightarrow> u8 list" where
  "le_bytes n w = map (\<lambda>i. ucast (drop_bit (8 * i) w)) [0..<n]"

fun le_word :: "u8 list \<Rightarrow> 'w::len word" where
  "le_word [] = 0"
| "le_word (b # bs) = ucast b OR push_bit 8 (le_word bs)"

lemma length_le_bytes [simp]: "length (le_bytes n w) = n"
  by (simp add: le_bytes_def)

lemma le_bytes_nth [simp]: "i < n \<Longrightarrow> le_bytes n w ! i = ucast (drop_bit (8 * i) w)"
  by (simp add: le_bytes_def)

lemma bit_le_word:
  "bit (le_word bs :: 'w::len word) k \<longleftrightarrow>
     k < LENGTH('w) \<and> k div 8 < length bs \<and> bit (bs ! (k div 8)) (k mod 8)"
proof (induction bs arbitrary: k)
  case Nil
  then show ?case by simp
next
  case (Cons b bs)
  show ?case
  proof (cases "k < 8")
    case True
    then show ?thesis by (auto simp: bit_simps)
  next
    case False
    then obtain j where j: "k = j + 8" by (metis add.commute le_Suc_ex not_less)
    have d: "(j + 8) div 8 = Suc (j div 8)" "(j + 8) mod 8 = j mod 8" by simp_all
    have "\<not> bit b (j + 8)" using bit_imp_le_length [of b "j + 8"] by auto
    then show ?thesis using Cons.IH [of j] unfolding j d by (auto simp: bit_simps)
  qed
qed

lemma le_word_le_bytes:
  assumes "LENGTH('w) \<le> 8 * n"
  shows "le_word (le_bytes n w) = (w :: 'w::len word)"
proof (rule bit_word_eqI)
  fix k assume k: "k < LENGTH('w)"
  with assms have "k div 8 < n" by linarith
  then show "bit (le_word (le_bytes n w) :: 'w word) k = bit w k"
    using k by (simp add: bit_le_word bit_simps)
qed

lemma le_word_image [simp]:
  "le_word (le_bytes 1 w) = (w :: u8)"
  "le_word (le_bytes 2 x) = (x :: u16)"
  "le_word (le_bytes 4 y) = (y :: u32)"
  "le_word (le_bytes 8 z) = (z :: u64)"
  by (simp_all add: le_word_le_bytes)

section \<open>Images of arrays\<close>

text \<open>An array of \<open>n\<close>-byte elements, and the array read back from an image.\<close>

definition le_array :: "nat \<Rightarrow> 'w::len word list \<Rightarrow> u8 list" where
  "le_array n ws = concat (map (le_bytes n) ws)"

fun array_of :: "nat \<Rightarrow> nat \<Rightarrow> u8 list \<Rightarrow> 'w::len word list" where
  "array_of n 0 bs = []"
| "array_of n (Suc c) bs = le_word (take n bs) # array_of n c (drop n bs)"

lemma length_le_array [simp]: "length (le_array n ws) = n * length ws"
  by (induction ws) (simp_all add: le_array_def)

lemma length_array_of [simp]: "length (array_of n c bs) = c"
  by (induction c arbitrary: bs) simp_all

lemma array_of_le_array:
  assumes "LENGTH('w) \<le> 8 * n"
  shows "array_of n (length ws) (le_array n ws) = (ws :: 'w::len word list)"
proof (induction ws)
  case Nil
  then show ?case by simp
next
  case (Cons w ws)
  then show ?case by (simp add: le_array_def le_word_le_bytes [OF assms])
qed

text \<open>The bytes of a field at an offset of an image.\<close>

definition field_at :: "nat \<Rightarrow> nat \<Rightarrow> u8 list \<Rightarrow> u8 list" where
  "field_at off n bs = take n (drop off bs)"

lemma field_at_skip [simp]:
  "length xs \<le> off \<Longrightarrow> field_at off n (xs @ ys) = field_at (off - length xs) n ys"
  by (simp add: field_at_def)

lemma field_at_Cons [simp]: "0 < off \<Longrightarrow> field_at off n (x # xs) = field_at (off - 1) n xs"
  by (cases off) (simp_all add: field_at_def)

lemma field_at_hit [simp]: "length xs = n \<Longrightarrow> field_at 0 n (xs @ ys) = xs"
  by (simp add: field_at_def)

lemma field_at_last [simp]: "length xs = n \<Longrightarrow> field_at 0 n xs = xs"
  by (simp add: field_at_def)

section \<open>Byte swaps\<close>

definition htons :: "u16 \<Rightarrow> u16" where
  "htons x = push_bit 8 x OR drop_bit 8 x"

definition htonl :: "u32 \<Rightarrow> u32" where
  "htonl x = push_bit 24 x OR push_bit 16 (take_bit 8 (drop_bit 8 x))
     OR push_bit 8 (take_bit 8 (drop_bit 16 x)) OR drop_bit 24 x"

definition ntohs :: "u16 \<Rightarrow> u16" where
  "ntohs = htons"

definition ntohl :: "u32 \<Rightarrow> u32" where
  "ntohl = htonl"

lemma bit_htons:
  "bit (htons x) k \<longleftrightarrow> k < 16 \<and> bit x (if k < 8 then k + 8 else k - 8)"
  using bit_imp_le_length [of x "k + 8"] by (auto simp: htons_def bit_simps add.commute)

lemma ntohs_htons [simp]: "ntohs (htons x) = x"
  by (rule bit_word_eqI) (auto simp: ntohs_def bit_htons)

lemma bit_htonl:
  "bit (htonl x) k \<longleftrightarrow>
     k < 32 \<and> bit x (if k < 8 then k + 24 else if k < 16 then k + 8 else if k < 24 then k - 8 else k - 24)"
  using bit_imp_le_length [of x "k + 24"]
  by (auto simp: htonl_def bit_simps add.commute)

lemma ntohl_htonl [simp]: "ntohl (htonl x) = x"
  by (rule bit_word_eqI) (auto simp: ntohl_def bit_htonl)

text \<open>On the wire a swapped field has its most significant byte first.\<close>

lemma htons_wire: "le_bytes 2 (htons x) = rev (le_bytes 2 x)"
proof -
  have "\<And>k. k < 8 \<Longrightarrow> bit (ucast (htons x) :: u8) k = bit (ucast (drop_bit 8 x) :: u8) k"
    and "\<And>k. k < 8 \<Longrightarrow> bit (ucast (drop_bit 8 (htons x)) :: u8) k = bit (ucast x :: u8) k"
    by (simp_all add: bit_simps bit_htons add.commute)
  then have "(ucast (htons x) :: u8) = ucast (drop_bit 8 x)"
    and "(ucast (drop_bit 8 (htons x)) :: u8) = ucast x"
    by (auto intro!: bit_word_eqI)
  then show ?thesis by (simp add: le_bytes_def numeral_2_eq_2)
qed

end
