(* ===== verification/Control.thy ===== *)
theory Control
  imports Byte_Layout
begin

text \<open>
  The TCP control plane of \<open>include/tcp_control.h\<close> and \<open>src/tcp_control.cpp\<close>: the connection
  parameters, the control message and its memory image (sent and received with \<open>memcpy\<close>, so with
  the struct layout of a 64-bit little-endian ABI, padding bytes being arbitrary), the server and
  client ends with their system calls, and the connection id allocator.
\<close>

section \<open>Parameters and messages\<close>

datatype ControlMsgType = OFFER | CTS | ACCEPT | REJECT | COMPLETE_ACK | INCOMPLETE_NACK
  | SR_ACK | SR_NACK | EC_ACK | EC_NACK | EC_FALLBACK_SR

fun ctl_code :: "ControlMsgType \<Rightarrow> u8" where
  "ctl_code OFFER = 0"
| "ctl_code CTS = 1"
| "ctl_code ACCEPT = 2"
| "ctl_code REJECT = 3"
| "ctl_code COMPLETE_ACK = 4"
| "ctl_code INCOMPLETE_NACK = 5"
| "ctl_code SR_ACK = 6"
| "ctl_code SR_NACK = 7"
| "ctl_code EC_ACK = 8"
| "ctl_code EC_NACK = 9"
| "ctl_code EC_FALLBACK_SR = 10"

lemma ctl_code_inject [simp]: "ctl_code a = ctl_code b \<longleftrightarrow> a = b"
  by (cases a; cases b) simp_all

record ConnectionParams =
  cp_transfer_id :: u32
  cp_total_bytes :: u64
  cp_mtu_bytes :: u32
  cp_packet_bytes :: u32
  cp_chunk_bytes :: u32
  cp_packets_per_chunk :: u16
  cp_total_chunks :: u16
  cp_fec_k :: u16
  cp_fec_m :: u16
  cp_max_inflight :: u32
  cp_rto_ms :: u32
  cp_rtt_alpha_ms :: u32
  cp_num_channels :: u16
  cp_channel_base_port :: u16
  cp_udp_server_ip :: "u8 list"
  cp_udp_server_port :: u16

text \<open>\<open>memset(&params, 0, sizeof params)\<close> and \<open>ConnectionParams{}\<close>.\<close>

definition zero_params :: ConnectionParams where
  "zero_params = \<lparr> cp_transfer_id = 0, cp_total_bytes = 0, cp_mtu_bytes = 0, cp_packet_bytes = 0,
     cp_chunk_bytes = 0, cp_packets_per_chunk = 0, cp_total_chunks = 0, cp_fec_k = 0, cp_fec_m = 0,
     cp_max_inflight = 0, cp_rto_ms = 0, cp_rtt_alpha_ms = 0, cp_num_channels = 0,
     cp_channel_base_port = 0, cp_udp_server_ip = replicate 16 0, cp_udp_server_port = 0 \<rparr>"

text \<open>The message type is kept as the byte it is: a received byte need not be an enumerator.\<close>

record ControlMessage =
  cm_magic :: u16
  cm_msg_type :: u8
  cm_connection_id :: u32
  cm_params :: ConnectionParams
  cm_chunk_bitmap_words :: u16
  cm_chunk_bitmap :: "u64 list"
  cm_num_gaps :: u16
  cm_gap_start :: "u16 list"
  cm_gap_len :: "u16 list"

definition CTL_MAGIC_VALUE :: u16 where
  "CTL_MAGIC_VALUE = 0x5344"

definition zero_message :: ControlMessage where
  "zero_message = \<lparr> cm_magic = 0, cm_msg_type = 0, cm_connection_id = 0, cm_params = zero_params,
     cm_chunk_bitmap_words = 0, cm_chunk_bitmap = replicate 16 0, cm_num_gaps = 0,
     cm_gap_start = replicate 16 0, cm_gap_len = replicate 16 0 \<rparr>"

definition wf_params :: "ConnectionParams \<Rightarrow> bool" where
  "wf_params p \<longleftrightarrow> length (cp_udp_server_ip p) = 16"

definition wf_message :: "ControlMessage \<Rightarrow> bool" where
  "wf_message m \<longleftrightarrow> wf_params (cm_params m) \<and> length (cm_chunk_bitmap m) = 16
     \<and> length (cm_gap_start m) = 16 \<and> length (cm_gap_len m) = 16"

lemma wf_zero [simp]: "wf_params zero_params" "wf_message zero_message"
  by (simp_all add: wf_params_def wf_message_def zero_params_def zero_message_def)

section \<open>Memory images\<close>

text \<open>\<open>pad i\<close> is the value of the padding byte at offset \<open>i\<close> of the message.\<close>

type_synonym padding = "nat \<Rightarrow> u8"

definition pad_bytes :: "padding \<Rightarrow> nat \<Rightarrow> nat \<Rightarrow> u8 list" where
  "pad_bytes pad off n = map pad [off..<off + n]"

lemma length_pad_bytes [simp]: "length (pad_bytes pad off n) = n"
  by (simp add: pad_bytes_def)

definition params_image :: "padding \<Rightarrow> ConnectionParams \<Rightarrow> u8 list" where
  "params_image pad p =
     le_bytes 4 (cp_transfer_id p) @ pad_bytes pad 12 4 @ le_bytes 8 (cp_total_bytes p) @
     le_bytes 4 (cp_mtu_bytes p) @ le_bytes 4 (cp_packet_bytes p) @ le_bytes 4 (cp_chunk_bytes p) @
     le_bytes 2 (cp_packets_per_chunk p) @ le_bytes 2 (cp_total_chunks p) @
     le_bytes 2 (cp_fec_k p) @ le_bytes 2 (cp_fec_m p) @
     le_bytes 4 (cp_max_inflight p) @ le_bytes 4 (cp_rto_ms p) @ le_bytes 4 (cp_rtt_alpha_ms p) @
     le_bytes 2 (cp_num_channels p) @ le_bytes 2 (cp_channel_base_port p) @
     cp_udp_server_ip p @ le_bytes 2 (cp_udp_server_port p) @ pad_bytes pad 78 2"

definition params_of_image :: "u8 list \<Rightarrow> ConnectionParams" where
  "params_of_image bs =
     \<lparr> cp_transfer_id = le_word (field_at 0 4 bs), cp_total_bytes = le_word (field_at 8 8 bs),
       cp_mtu_bytes = le_word (field_at 16 4 bs), cp_packet_bytes = le_word (field_at 20 4 bs),
       cp_chunk_bytes = le_word (field_at 24 4 bs),
       cp_packets_per_chunk = le_word (field_at 28 2 bs),
       cp_total_chunks = le_word (field_at 30 2 bs),
       cp_fec_k = le_word (field_at 32 2 bs), cp_fec_m = le_word (field_at 34 2 bs),
       cp_max_inflight = le_word (field_at 36 4 bs), cp_rto_ms = le_word (field_at 40 4 bs),
       cp_rtt_alpha_ms = le_word (field_at 44 4 bs), cp_num_channels = le_word (field_at 48 2 bs),
       cp_channel_base_port = le_word (field_at 50 2 bs), cp_udp_server_ip = field_at 52 16 bs,
       cp_udp_server_port = le_word (field_at 68 2 bs) \<rparr>"

definition message_image :: "padding \<Rightarrow> ControlMessage \<Rightarrow> u8 list" where
  "message_image pad m =
     le_bytes 2 (cm_magic m) @ [cm_msg_type m] @ pad_bytes pad 3 1 @
     le_bytes 4 (cm_connection_id m) @ params_image pad (cm_params m) @
     le_bytes 2 (cm_chunk_bitmap_words m) @ pad_bytes pad 82 6 @
     le_array 8 (cm_chunk_bitmap m) @ le_bytes 2 (cm_num_gaps m) @
     le_array 2 (cm_gap_start m) @ le_array 2 (cm_gap_len m) @ pad_bytes pad 282 6"

definition message_of_image :: "u8 list \<Rightarrow> ControlMessage" where
  "message_of_image bs =
     \<lparr> cm_magic = le_word (field_at 0 2 bs), cm_msg_type = bs ! 2,
       cm_connection_id = le_word (field_at 4 4 bs),
       cm_params = params_of_image (field_at 8 72 bs),
       cm_chunk_bitmap_words = le_word (field_at 80 2 bs),
       cm_chunk_bitmap = array_of 8 16 (field_at 88 128 bs),
       cm_num_gaps = le_word (field_at 216 2 bs),
       cm_gap_start = array_of 2 16 (field_at 218 32 bs),
       cm_gap_len = array_of 2 16 (field_at 250 32 bs) \<rparr>"

text \<open>\<open>sizeof(ControlMessage)\<close>.\<close>

definition message_size :: nat where
  "message_size = 288"

lemma length_params_image [simp]: "wf_params p \<Longrightarrow> length (params_image pad p) = 72"
  by (simp add: params_image_def wf_params_def)

lemma length_message_image [simp]: "wf_message m \<Longrightarrow> length (message_image pad m) = message_size"
  by (simp add: message_image_def wf_message_def message_size_def)

lemma params_of_image_image [simp]:
  assumes "wf_params p"
  shows "params_of_image (params_image pad p) = p"
  using assms unfolding params_of_image_def
  by (intro ConnectionParams.equality) (simp_all add: params_image_def wf_params_def)

lemma array_of_words [simp]:
  "length bm = 16 \<Longrightarrow> array_of 8 16 (le_array 8 bm) = (bm :: u64 list)"
  "length gp = 16 \<Longrightarrow> array_of 2 16 (le_array 2 gp) = (gp :: u16 list)"
  using array_of_le_array [of 8 bm] array_of_le_array [of 2 gp] by simp_all

lemma message_of_image_image [simp]:
  assumes wf: "wf_message m"
  shows "message_of_image (message_image pad m) = m"
proof -
  have l: "length (params_image pad (cm_params m)) = 72" and p: "wf_params (cm_params m)"
    using wf by (simp_all add: wf_message_def)
  show ?thesis
    unfolding message_of_image_def
    by (rule ControlMessage.equality)
      (use wf l p in \<open>simp_all add: message_image_def wf_message_def nth_append\<close>)
qed

definition serialize :: "padding \<Rightarrow> ControlMessage \<Rightarrow> nat \<Rightarrow> u8 list" where
  "serialize pad m buffer_size = (if buffer_size < message_size then [] else message_image pad m)"

text \<open>
  On a short buffer the message is unchanged; on a wrong magic number it has been overwritten
  although the answer is false.
\<close>

definition deserialize :: "ControlMessage \<Rightarrow> u8 list \<Rightarrow> bool \<times> ControlMessage" where
  "deserialize m buffer =
     (if length buffer < message_size then (False, m)
      else let m' = message_of_image buffer in (cm_magic m' = CTL_MAGIC_VALUE, m'))"

section \<open>Sockets\<close>

text \<open>
  What a connected stream socket presents to \<open>recv\<close>, in order: bytes that have arrived, an expiry of
  the receive timeout (\<open>EAGAIN\<close>/\<open>EWOULDBLOCK\<close>), the end of the stream, another error.
\<close>

datatype NetEvent = EvData "u8 list" | EvTimeout | EvClosed | EvError

datatype RecvResult = RecvDone "u8 list" | RecvTimeout | RecvLost

text \<open>
  The loop of \<open>receive_message\<close>: it collects until \<open>k\<close> bytes are there and leaves what arrived beyond
  them for the next call; bytes collected before a timeout are in a local buffer and are dropped with
  it.  \<open>None\<close>: the events are used up and the loop is still waiting.
\<close>

fun recv_loop :: "nat \<Rightarrow> u8 list \<Rightarrow> NetEvent list \<Rightarrow> (RecvResult \<times> NetEvent list) option" where
  "recv_loop k acc [] = None"
| "recv_loop k acc (EvData bs # evs) =
     (if length acc + length bs < k then recv_loop k (acc @ bs) evs
      else let n = k - length acc; rest = drop n bs
           in Some (RecvDone (acc @ take n bs), if rest = [] then evs else EvData rest # evs))"
| "recv_loop k acc (EvTimeout # evs) = Some (RecvTimeout, evs)"
| "recv_loop k acc (EvClosed # evs) = Some (RecvLost, evs)"
| "recv_loop k acc (EvError # evs) = Some (RecvLost, evs)"

record TCPControlServer =
  listen_fd :: int
  client_fd :: int
  listen_port :: u16
  is_listening :: bool

definition TCPControlServer_new :: TCPControlServer where
  "TCPControlServer_new = \<lparr> listen_fd = - 1, client_fd = - 1, listen_port = 0, is_listening = False \<rparr>"

text \<open>Results of the system calls of \<open>start_listening\<close>; operations also return the descriptors they close.\<close>

record ListenSys =
  ls_socket :: int
  ls_setsockopt :: int
  ls_bind :: int
  ls_listen :: int

definition start_listening :: "TCPControlServer \<Rightarrow> u16 \<Rightarrow> ListenSys \<Rightarrow> bool \<times> TCPControlServer \<times> int list" where
  "start_listening srv port sys =
     (if is_listening srv then (False, srv, [])
      else let srv = srv\<lparr>listen_fd := ls_socket sys\<rparr> in
        if ls_socket sys < 0 then (False, srv, [])
        else if ls_setsockopt sys < 0 then (False, srv\<lparr>listen_fd := - 1\<rparr>, [ls_socket sys])
        else if ls_bind sys < 0 then (False, srv\<lparr>listen_fd := - 1\<rparr>, [ls_socket sys])
        else if ls_listen sys < 0 then (False, srv\<lparr>listen_fd := - 1\<rparr>, [ls_socket sys])
        else (True, srv\<lparr>listen_port := port, is_listening := True\<rparr>, []))"

definition accept_connection :: "TCPControlServer \<Rightarrow> int \<Rightarrow> bool \<times> TCPControlServer \<times> int list" where
  "accept_connection srv accept_result =
     (if \<not> is_listening srv then (False, srv, [])
      else let closed = (if client_fd srv \<ge> 0 then [client_fd srv] else []);
               srv = srv\<lparr>client_fd := accept_result\<rparr>
           in if accept_result < 0 then (False, srv, closed) else (True, srv, closed))"

definition server_receive ::
    "TCPControlServer \<Rightarrow> ControlMessage \<Rightarrow> NetEvent list
      \<Rightarrow> (bool \<times> ControlMessage \<times> TCPControlServer \<times> NetEvent list) option" where
  "server_receive srv msg evs =
     (if client_fd srv < 0 then Some (False, msg, srv, evs)
      else case recv_loop message_size [] evs of
          None \<Rightarrow> None
        | Some (RecvTimeout, evs') \<Rightarrow> Some (False, msg, srv, evs')
        | Some (RecvLost, evs') \<Rightarrow> Some (False, msg, srv\<lparr>client_fd := - 1\<rparr>, evs')
        | Some (RecvDone buffer, evs') \<Rightarrow>
            (let (ok, msg') = deserialize msg buffer in Some (ok, msg', srv, evs')))"

text \<open>\<open>sent\<close> is the result of \<open>send\<close>; the second component is what went out on the stream.\<close>

definition server_send :: "TCPControlServer \<Rightarrow> padding \<Rightarrow> ControlMessage \<Rightarrow> int \<Rightarrow> bool \<times> u8 list" where
  "server_send srv pad msg sent =
     (if client_fd srv < 0 then (False, [])
      else let buffer = serialize pad msg message_size; len = length buffer in
        if sent < 0 then (False, [])
        else if nat sent \<noteq> len then (False, take (nat sent) buffer)
        else (True, buffer))"

definition close_connection :: "TCPControlServer \<Rightarrow> TCPControlServer \<times> int list" where
  "close_connection srv =
     (if client_fd srv \<ge> 0 then (srv\<lparr>client_fd := - 1\<rparr>, [client_fd srv]) else (srv, []))"

definition server_stop :: "TCPControlServer \<Rightarrow> TCPControlServer \<times> int list" where
  "server_stop srv =
     (let (srv, closed) = close_connection srv;
          (srv, closed') = (if listen_fd srv \<ge> 0
             then (srv\<lparr>listen_fd := - 1\<rparr>, [listen_fd srv]) else (srv, []))
      in (srv\<lparr>is_listening := False, listen_port := 0\<rparr>, closed @ closed'))"

record TCPControlClient =
  socket_fd :: int
  is_connected :: bool

definition TCPControlClient_new :: TCPControlClient where
  "TCPControlClient_new = \<lparr> socket_fd = - 1, is_connected = False \<rparr>"

definition client_disconnect :: "TCPControlClient \<Rightarrow> TCPControlClient \<times> int list" where
  "client_disconnect cl =
     (let (cl, closed) = (if socket_fd cl \<ge> 0 then (cl\<lparr>socket_fd := - 1\<rparr>, [socket_fd cl]) else (cl, []))
      in (cl\<lparr>is_connected := False\<rparr>, closed))"

record ConnectSys =
  cs_socket :: int
  cs_inet_pton :: int
  cs_connect :: int

definition connect_to_server :: "TCPControlClient \<Rightarrow> ConnectSys \<Rightarrow> bool \<times> TCPControlClient \<times> int list" where
  "connect_to_server cl sys =
     (let (cl, closed) = (if is_connected cl then client_disconnect cl else (cl, []));
          cl = cl\<lparr>socket_fd := cs_socket sys\<rparr>
      in if cs_socket sys < 0 then (False, cl, closed)
         else if cs_inet_pton sys \<le> 0 then (False, cl\<lparr>socket_fd := - 1\<rparr>, closed @ [cs_socket sys])
         else if cs_connect sys < 0 then (False, cl\<lparr>socket_fd := - 1\<rparr>, closed @ [cs_socket sys])
         else (True, cl\<lparr>is_connected := True\<rparr>, closed))"

definition client_send ::
    "TCPControlClient \<Rightarrow> padding \<Rightarrow> ControlMessage \<Rightarrow> int \<Rightarrow> bool \<times> TCPControlClient \<times> u8 list" where
  "client_send cl pad msg sent =
     (if \<not> is_connected cl then (False, cl, [])
      else let buffer = serialize pad msg message_size; len = length buffer in
        if sent < 0 then (False, cl\<lparr>is_connected := False\<rparr>, [])
        else if nat sent \<noteq> len then (False, cl, take (nat sent) buffer)
        else (True, cl, buffer))"

definition client_receive ::
    "TCPControlClient \<Rightarrow> ControlMessage \<Rightarrow> NetEvent list
      \<Rightarrow> (bool \<times> ControlMessage \<times> TCPControlClient \<times> NetEvent list) option" where
  "client_receive cl msg evs =
     (if \<not> is_connected cl then Some (False, msg, cl, evs)
      else case recv_loop message_size [] evs of
          None \<Rightarrow> None
        | Some (RecvTimeout, evs') \<Rightarrow> Some (False, msg, cl, evs')
        | Some (RecvLost, evs') \<Rightarrow> Some (False, msg, cl\<lparr>is_connected := False\<rparr>, evs')
        | Some (RecvDone buffer, evs') \<Rightarrow>
            (let (ok, msg') = deserialize msg buffer in Some (ok, msg', cl, evs')))"

text \<open>\<open>ConnectionIDAllocator::allocate\<close> over its static counter, which starts at 1.\<close>

definition allocate_connection_id :: "u32 \<Rightarrow> u32 \<times> u32" where
  "allocate_connection_id next_id = (next_id, next_id + 1)"

section \<open>Reassembly\<close>

text \<open>How the bytes are cut into arrivals does not matter, as long as no timeout falls between them.\<close>

lemma recv_loop_stream:
  assumes "length acc < k" and "k \<le> length acc + length (concat fs)"
  shows "\<exists>gs. recv_loop k acc (map EvData fs @ evs)
      = Some (RecvDone (take k (acc @ concat fs)), map EvData gs @ evs)
    \<and> concat gs = drop k (acc @ concat fs)"
  using assms
proof (induction fs arbitrary: acc)
  case Nil
  then show ?case by simp
next
  case (Cons f fs)
  show ?case
  proof (cases "length acc + length f < k")
    case True
    then show ?thesis using Cons.IH [of "acc @ f"] Cons.prems by simp
  next
    case False
    let ?rest = "drop (k - length acc) f"
    have tk: "take k (acc @ concat (f # fs)) = acc @ take (k - length acc) f"
      using False Cons.prems(1) by simp
    have dr: "drop k (acc @ concat (f # fs)) = ?rest @ concat fs"
      using False Cons.prems(1) by simp
    have "recv_loop k acc (map EvData (f # fs) @ evs)
        = Some (RecvDone (acc @ take (k - length acc) f),
            map EvData (if ?rest = [] then fs else ?rest # fs) @ evs)"
      using False by (simp add: Let_def)
    moreover have "concat (if ?rest = [] then fs else ?rest # fs) = ?rest @ concat fs"
      by auto
    ultimately show ?thesis unfolding tk dr by blast
  qed
qed

text \<open>Bytes collected before a timeout are lost.\<close>

lemma recv_loop_timeout:
  "length acc + length (concat fs) < k \<Longrightarrow>
     recv_loop k acc (map EvData fs @ EvTimeout # evs) = Some (RecvTimeout, evs)"
  by (induction fs arbitrary: acc) simp_all

lemma deserialize_image [simp]:
  "wf_message m \<Longrightarrow> deserialize m0 (message_image pad m) = (cm_magic m = CTL_MAGIC_VALUE, m)"
  by (simp add: deserialize_def)

lemma message_size_pos [simp]: "0 < message_size"
  by (simp add: message_size_def)

lemma receive_stream:
  assumes m: "wf_message m" "cm_magic m = CTL_MAGIC_VALUE" and fs: "concat fs = message_image pad m @ next_bytes"
  shows "client_fd srv \<ge> 0 \<Longrightarrow> \<exists>gs. server_receive srv m0 (map EvData fs @ evs) = Some (True, m, srv, map EvData gs @ evs)
      \<and> concat gs = next_bytes"
    and "is_connected cl \<Longrightarrow> \<exists>gs. client_receive cl m0 (map EvData fs @ evs) = Some (True, m, cl, map EvData gs @ evs)
      \<and> concat gs = next_bytes"
proof -
  obtain gs where gs: "recv_loop message_size [] (map EvData fs @ evs)
      = Some (RecvDone (take message_size (concat fs)), map EvData gs @ evs)"
    "concat gs = drop message_size (concat fs)"
    using recv_loop_stream [of "[]" message_size fs evs] fs m(1) by auto
  then have "recv_loop message_size [] (map EvData fs @ evs)
      = Some (RecvDone (message_image pad m), map EvData gs @ evs)" "concat gs = next_bytes"
    using fs m(1) by auto
  then show "client_fd srv \<ge> 0 \<Longrightarrow> \<exists>gs. server_receive srv m0 (map EvData fs @ evs) = Some (True, m, srv, map EvData gs @ evs)
      \<and> concat gs = next_bytes"
    and "is_connected cl \<Longrightarrow> \<exists>gs. client_receive cl m0 (map EvData fs @ evs) = Some (True, m, cl, map EvData gs @ evs)
      \<and> concat gs = next_bytes"
    using m by (auto simp: server_receive_def client_receive_def)
qed

text \<open>One whole message per arrival, the usual case.\<close>

lemma receive_one:
  assumes "wf_message m" "cm_magic m = CTL_MAGIC_VALUE"
  shows "client_fd srv \<ge> 0 \<Longrightarrow>
      server_receive srv m0 (EvData (message_image pad m) # evs) = Some (True, m, srv, evs)"
    and "is_connected cl \<Longrightarrow>
      client_receive cl m0 (EvData (message_image pad m) # evs) = Some (True, m, cl, evs)"
  using assms by (simp_all add: server_receive_def client_receive_def)

section \<open>Waiting for a message\<close>

text \<open>
  The loop with which every client of a control channel waits: receive, and on failure give up only
  when the connection is gone (a failure on a live connection is a timeout and is retried); skip
  messages that are not wanted.  \<open>Some (None, ...)\<close> is giving up, \<open>None\<close> is waiting beyond the
  events given.
\<close>

partial_function (option) await_msg ::
    "('c \<Rightarrow> ControlMessage \<Rightarrow> NetEvent list \<Rightarrow> (bool \<times> ControlMessage \<times> 'c \<times> NetEvent list) option)
      \<Rightarrow> ('c \<Rightarrow> bool) \<Rightarrow> (ControlMessage \<Rightarrow> bool) \<Rightarrow> 'c \<Rightarrow> ControlMessage \<Rightarrow> NetEvent list
      \<Rightarrow> (ControlMessage option \<times> 'c \<times> NetEvent list) option" where
  "await_msg recv alive want c msg evs =
     (case recv c msg evs of
        None \<Rightarrow> None
      | Some (ok, msg', c', evs') \<Rightarrow>
          (if \<not> ok then (if \<not> alive c' then Some (None, c', evs') else await_msg recv alive want c' msg' evs')
           else if want msg' then Some (Some msg', c', evs')
           else await_msg recv alive want c' msg' evs'))"

definition valid_message :: "ControlMessage \<Rightarrow> bool" where
  "valid_message m \<longleftrightarrow> wf_message m \<and> cm_magic m = CTL_MAGIC_VALUE"

text \<open>Events after which a waiting client goes on waiting.\<close>

inductive skippable :: "(ControlMessage \<Rightarrow> bool) \<Rightarrow> NetEvent \<Rightarrow> bool" for want where
  "skippable want EvTimeout"
| "valid_message m \<Longrightarrow> \<not> want m \<Longrightarrow> skippable want (EvData (message_image pad m))"

inductive_cases skippableE: "skippable want ev"

locale ctl_channel =
  fixes recv :: "'c \<Rightarrow> ControlMessage \<Rightarrow> NetEvent list \<Rightarrow> (bool \<times> ControlMessage \<times> 'c \<times> NetEvent list) option"
    and alive :: "'c \<Rightarrow> bool"
  assumes recv_message: "alive c \<Longrightarrow> valid_message m \<Longrightarrow>
      recv c m0 (EvData (message_image pad m) # evs) = Some (True, m, c, evs)"
    and recv_timeout: "alive c \<Longrightarrow> recv c m0 (EvTimeout # evs) = Some (False, m0, c, evs)"
    and recv_lost: "alive c \<Longrightarrow> ev = EvClosed \<or> ev = EvError \<Longrightarrow>
      \<exists>c'. recv c m0 (ev # evs) = Some (False, m0, c', evs) \<and> \<not> alive c'"
    and recv_end: "alive c \<Longrightarrow> recv c m0 [] = None"
begin

lemma await_timeout:
  "alive c \<Longrightarrow> await_msg recv alive want c m0 (EvTimeout # evs) = await_msg recv alive want c m0 evs"
  by (subst await_msg.simps) (simp add: recv_timeout)

lemma await_message:
  "alive c \<Longrightarrow> valid_message m \<Longrightarrow> await_msg recv alive want c m0 (EvData (message_image pad m) # evs)
     = (if want m then Some (Some m, c, evs) else await_msg recv alive want c m evs)"
  by (subst await_msg.simps) (simp add: recv_message)

lemma await_skip:
  "alive c \<Longrightarrow> skippable want ev \<Longrightarrow>
     \<exists>m'. await_msg recv alive want c m0 (ev # evs) = await_msg recv alive want c m' evs"
  by (erule skippableE) (auto simp: await_timeout await_message)

lemma await_skip_all:
  assumes "alive c" and "\<forall>ev\<in>set skipped. skippable want ev"
  shows "\<exists>m'. await_msg recv alive want c m0 (skipped @ evs) = await_msg recv alive want c m' evs"
  using assms(2)
proof (induction skipped arbitrary: m0)
  case Nil
  then show ?case by auto
next
  case (Cons ev skipped)
  then obtain m1 where "await_msg recv alive want c m0 ((ev # skipped) @ evs)
      = await_msg recv alive want c m1 (skipped @ evs)"
    using await_skip [OF assms(1), of want ev m0 "skipped @ evs"] by auto
  with Cons show ?case by auto
qed

text \<open>The wait ends with the first wanted message, ...\<close>

lemma await_found:
  assumes "alive c" and "\<forall>ev\<in>set skipped. skippable want ev" and "valid_message m" and "want m"
  shows "await_msg recv alive want c m0 (skipped @ EvData (message_image pad m) # evs)
    = Some (Some m, c, evs)"
proof -
  obtain m' where "await_msg recv alive want c m0 (skipped @ EvData (message_image pad m) # evs)
      = await_msg recv alive want c m' (EvData (message_image pad m) # evs)"
    using await_skip_all [OF assms(1,2)] by blast
  then show ?thesis
    using assms(1,3,4) by (simp add: await_message)
qed

text \<open>... with the loss of the connection, ...\<close>

lemma await_lost:
  assumes "alive c" and "\<forall>ev\<in>set skipped. skippable want ev" and "ev = EvClosed \<or> ev = EvError"
  shows "\<exists>c'. await_msg recv alive want c m0 (skipped @ ev # evs) = Some (None, c', evs) \<and> \<not> alive c'"
proof -
  obtain m' where "await_msg recv alive want c m0 (skipped @ ev # evs)
      = await_msg recv alive want c m' (ev # evs)"
    using await_skip_all [OF assms(1,2)] by blast
  moreover obtain c' where "recv c m' (ev # evs) = Some (False, m', c', evs)" "\<not> alive c'"
    using recv_lost [OF assms(1,3)] by blast
  ultimately show ?thesis
    by (auto simp: await_msg.simps [of recv alive want c m' "ev # evs"])
qed

text \<open>... and not before either: nothing else ends it.\<close>

lemma await_waits:
  assumes "alive c" and "\<forall>ev\<in>set skipped. skippable want ev"
  shows "await_msg recv alive want c m0 skipped = None"
proof -
  have stuck: "await_msg recv alive want c m [] = None" for m
    by (subst await_msg.simps) (simp add: recv_end assms(1))
  then show ?thesis using await_skip_all [OF assms, of m0 "[]"] by auto
qed

end

definition server_alive :: "TCPControlServer \<Rightarrow> bool" where
  "server_alive srv \<longleftrightarrow> client_fd srv \<ge> 0"

interpretation server_channel: ctl_channel server_receive server_alive
  by unfold_locales
    (auto simp: server_alive_def valid_message_def receive_one server_receive_def)

interpretation client_channel: ctl_channel client_receive is_connected
  by unfold_locales
    (auto simp: valid_message_def receive_one client_receive_def)

section \<open>Properties\<close>

text \<open>A control message survives serialization.  Its image has 288 bytes whatever the padding
  bytes are, and reading it back over any old message gives the message itself, accepted exactly when
  its magic number is right; a buffer shorter than a message is neither written nor read.\<close>

theorem control_roundtrip:
  assumes "wf_message m"
  shows "length (serialize pad m 288) = 288
    \<and> deserialize old (serialize pad m 288) = (cm_magic m = CTL_MAGIC_VALUE, m)
    \<and> (\<forall>n<288. serialize pad m n = [] \<and> (\<forall>bs. length bs = n \<longrightarrow> deserialize old bs = (False, old)))"
  using assms by (auto simp: serialize_def deserialize_def message_size_def [symmetric])

theorem control_roundtrip_witness:
  "length (serialize (\<lambda>_. 7) zero_message 288) = 288
    \<and> deserialize (zero_message\<lparr>cm_connection_id := 9\<rparr>) (serialize (\<lambda>_. 7) zero_message 288)
        = (cm_magic zero_message = CTL_MAGIC_VALUE, zero_message)
    \<and> serialize (\<lambda>_. 7) zero_message 287 = []
    \<and> deserialize zero_message (replicate 287 7) = (False, zero_message)"
proof -
  have wf: "wf_message zero_message" by simp
  have 287: "(287 :: nat) < 288" "length (replicate 287 7) = 287" by simp_all
  show ?thesis
    using control_roundtrip [OF wf, of "\<lambda>_. 7" "zero_message\<lparr>cm_connection_id := 9\<rparr>"]
      control_roundtrip [OF wf, of "\<lambda>_. 7" zero_message] 287 by blast
qed

text \<open>C18: Reassembly on both ends.  If the bytes that arrive without an intervening timeout begin
  with a message's image, then however they are cut into arrivals the server and the client receive
  exactly that message, stay connected, and leave exactly the bytes after it for the next call.\<close>

theorem control_stream_reassembly:
  assumes "wf_message m" and "cm_magic m = CTL_MAGIC_VALUE"
    and "concat fs = message_image pad m @ next_bytes" and "client_fd srv \<ge> 0" and "is_connected cl"
  shows "\<exists>gs hs. server_receive srv m0 (map EvData fs @ evs) = Some (True, m, srv, map EvData gs @ evs)
    \<and> concat gs = next_bytes
    \<and> client_receive cl m0 (map EvData fs @ evs) = Some (True, m, cl, map EvData hs @ evs)
    \<and> concat hs = next_bytes"
  using receive_stream [OF assms(1-3)] assms(4,5) by blast

theorem control_stream_reassembly_witness:
  "\<exists>gs hs. server_receive (TCPControlServer_new\<lparr>client_fd := 5\<rparr>) zero_message
      (map EvData [message_image (\<lambda>_. 0) (zero_message\<lparr>cm_magic := CTL_MAGIC_VALUE\<rparr>), [83, 68]] @ [])
      = Some (True, zero_message\<lparr>cm_magic := CTL_MAGIC_VALUE\<rparr>, TCPControlServer_new\<lparr>client_fd := 5\<rparr>,
          map EvData gs @ [])
    \<and> concat gs = [83, 68]
    \<and> client_receive (TCPControlClient_new\<lparr>is_connected := True\<rparr>) zero_message
      (map EvData [message_image (\<lambda>_. 0) (zero_message\<lparr>cm_magic := CTL_MAGIC_VALUE\<rparr>), [83, 68]] @ [])
      = Some (True, zero_message\<lparr>cm_magic := CTL_MAGIC_VALUE\<rparr>, TCPControlClient_new\<lparr>is_connected := True\<rparr>,
          map EvData hs @ [])
    \<and> concat hs = [83, 68]"
  by (rule control_stream_reassembly [where pad = "\<lambda>_. 0"])
    (simp_all add: wf_message_def zero_message_def wf_params_def zero_params_def)

text \<open>C19: A receive timeout in the middle of a message loses the alignment of the stream for good.
  When a message's image arrives in two nonempty parts with a timeout between them, the first call
  answers false as on any idle timeout, and the next call reads the second part together with the
  first bytes of the following message; it can accept that only if the second part happens to carry
  the magic number.\<close>

theorem timeout_desynchronises:
  assumes m: "wf_message m" and m2: "wf_message m2"
    and parts: "message_image pad m = a @ b" "a \<noteq> []" "b \<noteq> []" and fd: "client_fd srv \<ge> 0"
  shows "let evs = EvData a # EvTimeout # EvData b # EvData (message_image pad2 m2) # rest;
             evs2 = EvData b # EvData (message_image pad2 m2) # rest;
             mixed = b @ take (length a) (message_image pad2 m2)
    in server_receive srv m0 evs = Some (False, m0, srv, evs2)
     \<and> server_receive srv m0 evs2
         = Some (cm_magic (message_of_image mixed) = CTL_MAGIC_VALUE, message_of_image mixed, srv,
                 EvData (drop (length a) (message_image pad2 m2)) # rest)"
proof -
  have ab: "length a + length b = message_size" using arg_cong [OF parts(1), of length] m by simp
  have pos: "0 < length a" "0 < length b" using parts(2,3) by auto
  have la: "length a < message_size" and lb: "length b < message_size" using ab pos by linarith+
  have l2: "length (message_image pad2 m2) = message_size" using m2 by simp
  have first: "recv_loop message_size [] (EvData a # EvTimeout # evs) = Some (RecvTimeout, evs)" for evs
    using la by simp
  have n: "message_size - length b = length a" using ab by simp
  have "drop (length a) (message_image pad2 m2) \<noteq> []" using la l2 by simp
  then have second: "recv_loop message_size [] (EvData b # EvData (message_image pad2 m2) # rest)
      = Some (RecvDone (b @ take (length a) (message_image pad2 m2)),
          EvData (drop (length a) (message_image pad2 m2)) # rest)"
    using ab la lb l2 n by (simp add: Let_def)
  have lm: "length (b @ take (length a) (message_image pad2 m2)) = message_size"
    using ab l2 by simp
  have "deserialize m0 (b @ take (length a) (message_image pad2 m2)) =
      (cm_magic (message_of_image (b @ take (length a) (message_image pad2 m2))) = CTL_MAGIC_VALUE,
       message_of_image (b @ take (length a) (message_image pad2 m2)))"
    unfolding deserialize_def lm by (simp add: Let_def)
  then show ?thesis
    unfolding Let_def server_receive_def first second using fd by simp
qed

theorem timeout_desynchronises_witness:
  "let m = zero_message\<lparr>cm_magic := CTL_MAGIC_VALUE\<rparr>;
       a = take 100 (message_image (\<lambda>_. 0) m); b = drop 100 (message_image (\<lambda>_. 0) m);
       srv = TCPControlServer_new\<lparr>client_fd := 5\<rparr>;
       evs = EvData a # EvTimeout # EvData b # EvData (message_image (\<lambda>_. 0) m) # [];
       evs2 = EvData b # EvData (message_image (\<lambda>_. 0) m) # [];
       mixed = b @ take (length a) (message_image (\<lambda>_. 0) m)
    in server_receive srv zero_message evs = Some (False, zero_message, srv, evs2)
     \<and> server_receive srv zero_message evs2
         = Some (cm_magic (message_of_image mixed) = CTL_MAGIC_VALUE, message_of_image mixed, srv,
                 EvData (drop (length a) (message_image (\<lambda>_. 0) m)) # [])"
proof -
  have wf: "wf_message (zero_message\<lparr>cm_magic := CTL_MAGIC_VALUE\<rparr>)"
    by (simp add: wf_message_def zero_message_def wf_params_def zero_params_def)
  then have "length (message_image (\<lambda>_. 0) (zero_message\<lparr>cm_magic := CTL_MAGIC_VALUE\<rparr>)) = 288"
    by (simp add: message_size_def)
  then show ?thesis
    unfolding Let_def
    by (intro timeout_desynchronises [OF wf wf, unfolded Let_def]) (auto simp: append_take_drop_id)
qed

end
