(* ===== verification/Connection.thy ===== *)
theory Connection
  imports Frontend Control
begin

text \<open>
  The per-connection state of \<open>include/sdr_connection.h\<close>: message contexts in a table of 1024 slots,
  allocation with rotating generations, completion (which redirects the buffer to a one-byte sink)
  and the dimensions of a message.  The table is guarded by a mutex in the code, so every operation
  is one step here.
\<close>

section \<open>State and operations\<close>

datatype MessageState = ACTIVE | COMPLETED | DEAD | NULL_STATE

text \<open>Where \<open>buffer\<close> points: nowhere, to a buffer of the user, to the connection's null sink.\<close>

datatype BufRef = NullPtr | UserBuf nat | NullSink

record MessageContext =
  mc_msg_id :: u32
  mc_generation :: u32
  mc_state :: MessageState
  mc_buffer :: BufRef
  mc_buffer_size :: u64
  mc_total_packets :: u64
  mc_total_chunks :: u64
  mc_packets_per_chunk :: u16
  mc_backend :: "BackendBitmap option"
  mc_frontend :: "FrontendBitmap option"
  mc_params :: ConnectionParams

definition MessageContext_new :: MessageContext where
  "MessageContext_new =
     \<lparr> mc_msg_id = 0, mc_generation = 0, mc_state = NULL_STATE, mc_buffer = NullPtr,
       mc_buffer_size = 0, mc_total_packets = 0, mc_total_chunks = 0, mc_packets_per_chunk = 0,
       mc_backend = None, mc_frontend = None, mc_params = zero_params \<rparr>"

record ConnectionContext =
  cc_connection_id :: u32
  cc_params :: ConnectionParams
  cc_is_initialized :: bool
  cc_auto_send_data :: bool
  cc_msg_table :: "MessageContext option list"
  cc_null_sink :: "u8 list"
  cc_generation_counters :: "u32 list"
  cc_tcp_socket_fd :: int
  cc_udp_socket_fd :: int

definition MAX_MESSAGES :: nat where
  "MAX_MESSAGES = 1024"

definition ConnectionContext_new :: ConnectionContext where
  "ConnectionContext_new =
     \<lparr> cc_connection_id = 0, cc_params = zero_params, cc_is_initialized = False,
       cc_auto_send_data = True, cc_msg_table = replicate MAX_MESSAGES None,
       cc_null_sink = replicate 1 0, cc_generation_counters = replicate MAX_MESSAGES 1,
       cc_tcp_socket_fd = - 1, cc_udp_socket_fd = - 1 \<rparr>"

definition cc_initialize ::
    "ConnectionContext \<Rightarrow> u32 \<Rightarrow> ConnectionParams \<Rightarrow> bool \<times> ConnectionContext" where
  "cc_initialize cc connection_id params =
     (True, cc\<lparr>cc_connection_id := connection_id, cc_params := params, cc_is_initialized := True\<rparr>)"

text \<open>The guard of \<open>allocate_message_slot\<close> on the slot's present occupant.\<close>

definition slot_reusable :: "MessageContext option \<Rightarrow> u32 \<Rightarrow> bool" where
  "slot_reusable slot generation =
     (case slot of
        None \<Rightarrow> True
      | Some mc \<Rightarrow>
          (if mc_state mc = ACTIVE then False
           else \<not> ((mc_state mc = COMPLETED \<or> mc_state mc = DEAD) \<and> mc_generation mc \<ge> generation)))"

text \<open>The result stands for the pointer returned: \<open>None\<close> is \<open>nullptr\<close>.\<close>

definition allocate_message_slot ::
    "ConnectionContext \<Rightarrow> u32 \<Rightarrow> u32 \<Rightarrow> MessageContext option \<times> ConnectionContext" where
  "allocate_message_slot cc msg_id generation =
     (if unat msg_id \<ge> MAX_MESSAGES then (None, cc)
      else if \<not> slot_reusable (cc_msg_table cc ! unat msg_id) generation then (None, cc)
      else
        let rotated_gen = cc_generation_counters cc ! unat msg_id;
            mc = MessageContext_new\<lparr>mc_msg_id := msg_id, mc_generation := rotated_gen,
                   mc_state := ACTIVE, mc_params := cc_params cc\<rparr>
        in (Some mc,
            cc\<lparr>cc_msg_table := (cc_msg_table cc)[unat msg_id := Some mc],
               cc_generation_counters :=
                 (cc_generation_counters cc)[unat msg_id := rotated_gen + 1]\<rparr>))"

definition get_message :: "ConnectionContext \<Rightarrow> u32 \<Rightarrow> MessageContext option" where
  "get_message cc msg_id =
     (if unat msg_id \<ge> MAX_MESSAGES then None
      else case cc_msg_table cc ! unat msg_id of
          None \<Rightarrow> None
        | Some mc \<Rightarrow> (if mc_state mc = NULL_STATE then None else Some mc))"

definition release_message :: "ConnectionContext \<Rightarrow> u32 \<Rightarrow> ConnectionContext" where
  "release_message cc msg_id =
     (if unat msg_id \<ge> MAX_MESSAGES then cc
      else cc\<lparr>cc_msg_table := (cc_msg_table cc)[unat msg_id := None]\<rparr>)"

definition complete_message :: "ConnectionContext \<Rightarrow> u32 \<Rightarrow> ConnectionContext" where
  "complete_message cc msg_id =
     (if unat msg_id \<ge> MAX_MESSAGES then cc
      else case cc_msg_table cc ! unat msg_id of
          None \<Rightarrow> cc
        | Some mc \<Rightarrow>
            cc\<lparr>cc_msg_table := (cc_msg_table cc)
                 [unat msg_id := Some (mc\<lparr>mc_state := DEAD, mc_buffer := NullSink\<rparr>)]\<rparr>)"

definition calculate_bitmap_sizes :: "u64 \<Rightarrow> u32 \<Rightarrow> u16 \<Rightarrow> u64 \<times> u64" where
  "calculate_bitmap_sizes total_bytes mtu_bytes packets_per_chunk =
     (if mtu_bytes = 0 \<or> packets_per_chunk = 0 then (0, 0)
      else
        let total_packets = (total_bytes + ucast mtu_bytes - 1) div ucast mtu_bytes
        in (total_packets,
            (total_packets + ucast packets_per_chunk - 1) div ucast packets_per_chunk))"

text \<open>Assignments through a pointer into the table, as the holders of message contexts make them.\<close>

definition update_message ::
    "ConnectionContext \<Rightarrow> u32 \<Rightarrow> (MessageContext \<Rightarrow> MessageContext) \<Rightarrow> ConnectionContext" where
  "update_message cc msg_id f =
     cc\<lparr>cc_msg_table := (cc_msg_table cc)
          [unat msg_id := map_option f (cc_msg_table cc ! unat msg_id)]\<rparr>"

text \<open>
  The assignments of \<open>sdr_recv_post\<close> to the context it has allocated: the buffer, the dimensions, new
  bitmaps and the poller started.
\<close>

definition setup_message ::
    "BufRef \<Rightarrow> u64 \<Rightarrow> u64 \<Rightarrow> u64 \<Rightarrow> ConnectionParams \<Rightarrow> MessageContext \<Rightarrow> MessageContext" where
  "setup_message buffer len total_packets total_chunks params mc =
     (let b = BackendBitmap_new (ucast total_packets) (cp_packets_per_chunk params);
          f = FrontendBitmap_new (Some b) (ucast total_chunks)
      in mc\<lparr>mc_buffer := buffer, mc_buffer_size := len, mc_total_packets := total_packets,
            mc_total_chunks := total_chunks, mc_packets_per_chunk := cp_packets_per_chunk params,
            mc_params := params, mc_backend := Some b, mc_frontend := Some (snd (start_polling f 100))\<rparr>)"

lemma setup_message_simps [simp]:
  "mc_msg_id (setup_message buffer len tp tc params mc) = mc_msg_id mc"
  "mc_generation (setup_message buffer len tp tc params mc) = mc_generation mc"
  "mc_state (setup_message buffer len tp tc params mc) = mc_state mc"
  "mc_buffer (setup_message buffer len tp tc params mc) = buffer"
  "mc_buffer_size (setup_message buffer len tp tc params mc) = len"
  "mc_total_chunks (setup_message buffer len tp tc params mc) = tc"
  "mc_params (setup_message buffer len tp tc params mc) = params"
  "mc_backend (setup_message buffer len tp tc params mc)
     = Some (BackendBitmap_new (ucast tp) (cp_packets_per_chunk params))"
  by (simp_all add: setup_message_def Let_def)

section \<open>Invariant\<close>

definition cc_wf :: "ConnectionContext \<Rightarrow> bool" where
  "cc_wf cc \<longleftrightarrow> length (cc_msg_table cc) = MAX_MESSAGES
     \<and> length (cc_generation_counters cc) = MAX_MESSAGES \<and> length (cc_null_sink cc) = 1
     \<and> (\<forall>i mc. i < MAX_MESSAGES \<longrightarrow> cc_msg_table cc ! i = Some mc \<longrightarrow> unat (mc_msg_id mc) = i)"

lemma cc_wf_new [simp]: "cc_wf ConnectionContext_new"
  by (simp add: cc_wf_def ConnectionContext_new_def)

lemma cc_wf_initialize [sdr_inv]: "cc_wf cc \<Longrightarrow> cc_wf (snd (cc_initialize cc i p))"
  by (simp add: cc_wf_def cc_initialize_def)

lemma cc_wf_allocate [sdr_inv]: "cc_wf cc \<Longrightarrow> cc_wf (snd (allocate_message_slot cc i g))"
  by (auto simp: cc_wf_def allocate_message_slot_def Let_def nth_list_update)

lemma cc_wf_release [sdr_inv]: "cc_wf cc \<Longrightarrow> cc_wf (release_message cc i)"
  by (auto simp: cc_wf_def release_message_def nth_list_update)

lemma cc_wf_complete [sdr_inv]: "cc_wf cc \<Longrightarrow> cc_wf (complete_message cc i)"
  by (auto simp: cc_wf_def complete_message_def nth_list_update split: option.split)

lemma cc_wf_update [sdr_inv]:
  "cc_wf cc \<Longrightarrow> (\<And>mc. mc_msg_id (f mc) = mc_msg_id mc) \<Longrightarrow> cc_wf (update_message cc i f)"
  by (cases "unat i < MAX_MESSAGES") (auto simp: cc_wf_def update_message_def nth_list_update)

lemma allocate_slot:
  assumes "cc_wf cc" and "unat i < MAX_MESSAGES"
    and "slot_reusable (cc_msg_table cc ! unat i) g"
  obtains mc cc' where "allocate_message_slot cc i g = (Some mc, cc')"
    and "mc_generation mc = cc_generation_counters cc ! unat i" and "mc_state mc = ACTIVE"
    and "mc_msg_id mc = i" and "get_message cc' i = Some mc"
    and "cc_msg_table cc' = (cc_msg_table cc)[unat i := Some mc]"
    and "cc_generation_counters cc'
      = (cc_generation_counters cc)[unat i := cc_generation_counters cc ! unat i + 1]"
  using assms by (auto simp: allocate_message_slot_def get_message_def cc_wf_def Let_def)

section \<open>Generations\<close>

text \<open>
  The interface of the protection against late packets: a table whose every step leaves a slot's
  counter alone and does not bring its occupant back to life, or takes the counter's value as the
  generation of a new occupant and advances it.  The clients' question is whether a generation that
  has been retired can be live again.
\<close>

locale rotating_table =
  fixes slot :: "'c \<Rightarrow> nat \<Rightarrow> 'm option"
    and counter :: "'c \<Rightarrow> nat \<Rightarrow> 'w::len word"
    and gen :: "'m \<Rightarrow> 'w word"
    and live :: "'m \<Rightarrow> bool"
    and step :: "'c \<Rightarrow> 'c \<Rightarrow> bool"
    and valid :: "'c \<Rightarrow> bool"
    and slots :: "nat set"
  assumes step_valid: "valid c \<Longrightarrow> step c c' \<Longrightarrow> valid c'"
    and step_slot: "valid c \<Longrightarrow> step c c' \<Longrightarrow> i \<in> slots \<Longrightarrow>
      (counter c' i = counter c i \<and> (\<forall>m'. slot c' i = Some m' \<longrightarrow> live m' \<longrightarrow>
          (\<exists>m. slot c i = Some m \<and> gen m = gen m' \<and> live m)))
      \<or> (counter c' i = counter c i + 1 \<and> (\<forall>m'. slot c' i = Some m' \<longrightarrow> gen m' = counter c i))"
begin

definition retired :: "'c \<Rightarrow> nat \<Rightarrow> 'w word \<Rightarrow> bool" where
  "retired c i g \<longleftrightarrow> (\<forall>m. slot c i = Some m \<longrightarrow> gen m = g \<longrightarrow> \<not> live m)"

text \<open>Executions, with the number of allocations made in one slot.\<close>

inductive runs :: "nat \<Rightarrow> 'c \<Rightarrow> nat \<Rightarrow> 'c \<Rightarrow> bool" for i where
  start: "runs i c 0 c"
| quiet: "runs i c n c' \<Longrightarrow> step c' c'' \<Longrightarrow> counter c'' i = counter c' i \<Longrightarrow> runs i c n c''"
| alloc: "runs i c n c' \<Longrightarrow> step c' c'' \<Longrightarrow> counter c'' i = counter c' i + 1 \<Longrightarrow> runs i c (Suc n) c''"

lemma runs_valid: "runs i c n c' \<Longrightarrow> valid c \<Longrightarrow> valid c'"
  by (induction rule: runs.induct) (auto intro: step_valid)

lemma runs_counter: "runs i c n c' \<Longrightarrow> counter c' i = counter c i + of_nat n"
  by (induction rule: runs.induct) (simp_all add: ac_simps)

lemma distance_ne_0:
  "0 < d \<Longrightarrow> d < 2 ^ LENGTH('w) \<Longrightarrow> (of_nat d :: 'w word) \<noteq> 0"
  by (metis gr_implies_not0 unat_0 unat_of_nat_small)

lemma step_retired:
  assumes "valid c" and "step c c'" and "i \<in> slots" and "retired c i g" and "counter c i \<noteq> g"
  shows "retired c' i g"
  using step_slot [OF assms(1-3)] assms(4,5) by (fastforce simp: retired_def)

text \<open>
  A generation retired \<open>d\<close> allocations ago stays retired while the counter does not come round to it.
\<close>

lemma retired_stays:
  assumes "runs i c n c'" and "valid c" and "i \<in> slots" and "retired c i g"
    and "counter c i = g + of_nat d" and "0 < d" and "d + n \<le> 2 ^ LENGTH('w)"
  shows "retired c' i g"
  using assms
proof (induction rule: runs.induct)
  case start
  then show ?case by simp
next
  case (quiet c n c' c'')
  then have r: "retired c' i g" by simp
  have "valid c'" using runs_valid quiet by blast
  moreover have "counter c' i = g + of_nat (d + n)"
    using runs_counter [OF quiet.hyps(1)] quiet.prems by (simp add: ac_simps)
  ultimately show ?case
    using step_slot [of c' c'' i] quiet r
    by (cases "live (the (slot c'' i))") (fastforce simp: retired_def)+
next
  case (alloc c n c' c'')
  then have "retired c' i g" by simp
  moreover have "valid c'" using runs_valid alloc by blast
  moreover have "counter c' i = g + of_nat (d + n)"
    using runs_counter [OF alloc.hyps(1)] alloc.prems by (simp add: ac_simps)
  then have "counter c' i \<noteq> g"
    using distance_ne_0 [of "d + n"] alloc.prems by simp
  ultimately show ?case using step_retired alloc by blast
qed

end

text \<open>
  The operations on the table, with the assignments that the holders of a context make through their
  pointer: set up by the poster, marking by the workers, completion declared by a reliability layer.
  None of these changes the generation or makes a closed message active.
\<close>

datatype TableOp = OpInitialize u32 ConnectionParams | OpAllocate u32 u32 | OpRelease u32
  | OpComplete u32 | OpUpdate u32 "MessageContext \<Rightarrow> MessageContext"

fun table_op :: "TableOp \<Rightarrow> ConnectionContext \<Rightarrow> ConnectionContext" where
  "table_op (OpInitialize c p) cc = snd (cc_initialize cc c p)"
| "table_op (OpAllocate i g) cc = snd (allocate_message_slot cc i g)"
| "table_op (OpRelease i) cc = release_message cc i"
| "table_op (OpComplete i) cc = complete_message cc i"
| "table_op (OpUpdate i f) cc = update_message cc i f"

definition holder_update :: "(MessageContext \<Rightarrow> MessageContext) \<Rightarrow> bool" where
  "holder_update f \<longleftrightarrow> (\<forall>mc. mc_msg_id (f mc) = mc_msg_id mc \<and> mc_generation (f mc) = mc_generation mc
     \<and> (mc_state (f mc) = ACTIVE \<longrightarrow> mc_state mc = ACTIVE))"

fun op_ok :: "TableOp \<Rightarrow> bool" where
  "op_ok (OpUpdate i f) \<longleftrightarrow> holder_update f"
| "op_ok _ \<longleftrightarrow> True"

inductive table_step :: "ConnectionContext \<Rightarrow> ConnectionContext \<Rightarrow> bool" where
  "op_ok op \<Longrightarrow> table_step cc (table_op op cc)"

inductive_cases table_stepE: "table_step cc cc'"

lemma table_op_wf [sdr_inv]: "cc_wf cc \<Longrightarrow> op_ok op \<Longrightarrow> cc_wf (table_op op cc)"
  by (cases op) (auto simp: holder_update_def intro: sdr_inv)

lemma table_op_slot:
  assumes wf: "cc_wf cc" and ok: "op_ok op" and i: "i < MAX_MESSAGES"
  shows "(cc_generation_counters (table_op op cc) ! i = cc_generation_counters cc ! i
      \<and> (\<forall>m'. cc_msg_table (table_op op cc) ! i = Some m' \<longrightarrow> mc_state m' = ACTIVE \<longrightarrow>
          (\<exists>m. cc_msg_table cc ! i = Some m \<and> mc_generation m = mc_generation m' \<and> mc_state m = ACTIVE)))
    \<or> (cc_generation_counters (table_op op cc) ! i = cc_generation_counters cc ! i + 1
      \<and> (\<forall>m'. cc_msg_table (table_op op cc) ! i = Some m' \<longrightarrow>
          mc_generation m' = cc_generation_counters cc ! i))"
proof (cases op)
  case (OpInitialize c p)
  then show ?thesis by (auto simp: cc_initialize_def)
next
  case (OpAllocate k g)
  then show ?thesis
    using wf i by (cases "unat k = i") (auto simp: allocate_message_slot_def cc_wf_def Let_def)
next
  case (OpRelease k)
  then show ?thesis
    using wf i by (cases "unat k = i") (auto simp: release_message_def cc_wf_def)
next
  case (OpComplete k)
  then show ?thesis
    using wf i by (cases "unat k = i")
      (auto simp: complete_message_def cc_wf_def split: option.splits)
next
  case (OpUpdate k f)
  then show ?thesis
    using wf i ok by (cases "unat k = i") (auto simp: update_message_def cc_wf_def holder_update_def)
qed

interpretation generations: rotating_table "\<lambda>cc i. cc_msg_table cc ! i"
    "\<lambda>cc i. cc_generation_counters cc ! i" mc_generation "\<lambda>mc. mc_state mc = ACTIVE" table_step cc_wf
    "{..<MAX_MESSAGES}"
proof unfold_locales
  fix c c' assume "cc_wf c" "table_step c c'"
  then show "cc_wf c'" by (auto elim!: table_stepE intro: table_op_wf)
next
  fix c c' :: ConnectionContext and i assume "cc_wf c" "table_step c c'" "i \<in> {..<MAX_MESSAGES}"
  then show "(cc_generation_counters c' ! i = cc_generation_counters c ! i
      \<and> (\<forall>m'. cc_msg_table c' ! i = Some m' \<longrightarrow> mc_state m' = ACTIVE \<longrightarrow>
          (\<exists>m. cc_msg_table c ! i = Some m \<and> mc_generation m = mc_generation m' \<and> mc_state m = ACTIVE)))
    \<or> (cc_generation_counters c' ! i = cc_generation_counters c ! i + 1
      \<and> (\<forall>m'. cc_msg_table c' ! i = Some m' \<longrightarrow> mc_generation m' = cc_generation_counters c ! i))"
    by (auto elim!: table_stepE dest: table_op_slot)
qed

lemma runs_of_ops:
  assumes "cc_wf cc" and "\<forall>op\<in>set ops. op_ok op" and "i < MAX_MESSAGES"
  shows "\<exists>n\<le>length ops. generations.runs i cc n (fold table_op ops cc)"
  using assms(2)
proof (induction ops rule: rev_induct)
  case Nil
  show ?case by (auto intro: generations.start)
next
  case (snoc op ops)
  then obtain n where n: "n \<le> length ops" "generations.runs i cc n (fold table_op ops cc)" by auto
  let ?c = "fold table_op ops cc"
  have ok: "op_ok op" using snoc.prems by simp
  have wf: "cc_wf ?c" using generations.runs_valid [OF n(2) assms(1)] .
  have step: "table_step ?c (table_op op ?c)" using ok by (rule table_step.intros)
  consider "cc_generation_counters (table_op op ?c) ! i = cc_generation_counters ?c ! i"
    | "cc_generation_counters (table_op op ?c) ! i = cc_generation_counters ?c ! i + 1"
    using table_op_slot [OF wf ok assms(3)] by blast
  then have "\<exists>k\<le>Suc (length ops). generations.runs i cc k (table_op op ?c)"
  proof cases
    case 1
    then show ?thesis using generations.quiet [OF n(2) step] n(1) by (meson le_SucI)
  next
    case 2
    then show ?thesis using generations.alloc [OF n(2) step] n(1) by (meson Suc_le_mono)
  qed
  then show ?case by simp
qed

section \<open>Dimensions\<close>

lemma bitmap_sizes:
  assumes "unat total_bytes + unat mtu + unat ppc \<le> 2 ^ 64"
  shows "let (tp, tc) = calculate_bitmap_sizes total_bytes mtu ppc in
    (if mtu = 0 \<or> ppc = 0 then tp = 0 \<and> tc = 0
     else (\<forall>n. unat tp \<le> n \<longleftrightarrow> unat total_bytes \<le> n * unat mtu)
        \<and> (\<forall>n. unat tc \<le> n \<longleftrightarrow> unat tp \<le> n * unat ppc)
        \<and> (unat tp + unat ppc \<le> 2 ^ 32 \<and> unat tp + 63 < 2 ^ 32 \<longrightarrow>
             dims_ok (ucast tp) ppc (ucast tc)))"
proof (cases "mtu = 0 \<or> ppc = 0")
  case True
  then show ?thesis by (auto simp: calculate_bitmap_sizes_def)
next
  case False
  then have pos: "0 < unat mtu" "0 < unat ppc" by (simp_all add: unat_gt_0)
  let ?tp = "(total_bytes + ucast mtu - 1) div ucast mtu"
  let ?tc = "(?tp + ucast ppc - 1) div ucast ppc"
  have tp: "unat ?tp = (unat total_bytes + unat mtu - 1) div unat mtu"
    using assms pos by (intro unat_ceil_div) auto
  have "unat ?tp \<le> unat total_bytes + unat mtu - 1" unfolding tp by (rule div_le_dividend)
  then have tc: "unat ?tc = (unat ?tp + unat ppc - 1) div unat ppc"
    using assms pos by (intro unat_ceil_div) auto
  have A: "\<forall>n. unat ?tp \<le> n \<longleftrightarrow> unat total_bytes \<le> n * unat mtu"
    unfolding tp ceil_div_le_iff [OF pos(1)] by simp
  have B: "\<forall>n. unat ?tc \<le> n \<longleftrightarrow> unat ?tp \<le> n * unat ppc"
    unfolding tc ceil_div_le_iff [OF pos(2)] by simp
  have C: "dims_ok (ucast ?tp) ppc (ucast ?tc)" if "unat ?tp + unat ppc \<le> 2 ^ 32" "unat ?tp + 63 < 2 ^ 32"
  proof -
    have "unat ?tp \<le> unat ?tp * unat ppc" using pos(2) by simp
    then have "unat ?tc \<le> unat ?tp" using B by blast
    then have "unat (ucast ?tp :: u32) = unat ?tp" "unat (ucast ?tc :: u32) = unat ?tc"
      using that(2) by (simp_all add: unat_ucast_mod)
    then show ?thesis using that pos tc unfolding dims_ok_def by simp
  qed
  from False A B C show ?thesis
    unfolding calculate_bitmap_sizes_def Let_def by simp
qed

section \<open>Properties\<close>

text \<open>C22: Slot allocation on every branch.  It answers a message exactly when the id is below 1024
  and the slot is not active and not closed with a generation at or past the requested one; the
  message is a fresh active one under the slot's own counter, which is advanced, and is what a
  lookup then finds; other slots are untouched and a refusal changes nothing.\<close>

theorem allocate_message_slot_spec:
  assumes "cc_wf cc"
  shows "case allocate_message_slot cc i g of
      (None, cc') \<Rightarrow> cc' = cc \<and> (1024 \<le> unat i
        \<or> (\<exists>mc. cc_msg_table cc ! unat i = Some mc \<and> (mc_state mc = ACTIVE
              \<or> mc_state mc \<in> {COMPLETED, DEAD} \<and> g \<le> mc_generation mc)))
    | (Some mc, cc') \<Rightarrow> cc_wf cc' \<and> unat i < 1024
        \<and> (\<forall>old. cc_msg_table cc ! unat i = Some old \<longrightarrow> mc_state old = NULL_STATE
              \<or> mc_state old \<in> {COMPLETED, DEAD} \<and> mc_generation old < g)
        \<and> mc_state mc = ACTIVE \<and> mc_generation mc = cc_generation_counters cc ! unat i
        \<and> mc_params mc = cc_params cc \<and> mc_buffer mc = NullPtr \<and> get_message cc' i = Some mc
        \<and> cc_generation_counters cc' ! unat i = cc_generation_counters cc ! unat i + 1
        \<and> (\<forall>j. j \<noteq> unat i \<longrightarrow> cc_msg_table cc' ! j = cc_msg_table cc ! j
              \<and> cc_generation_counters cc' ! j = cc_generation_counters cc ! j)"
proof (cases "unat i < 1024 \<and> slot_reusable (cc_msg_table cc ! unat i) g")
  case True
  have "cc_wf (snd (allocate_message_slot cc i g))" using assms by (rule cc_wf_allocate)
  with True assms show ?thesis
    by (auto simp: allocate_message_slot_def get_message_def cc_wf_def Let_def MAX_MESSAGES_def
        MessageContext_new_def slot_reusable_def not_le split: if_splits)
      (metis MessageState.exhaust)+
next
  case False
  then show ?thesis
    by (auto simp: allocate_message_slot_def MAX_MESSAGES_def slot_reusable_def not_less
        split: if_splits option.splits)
qed

theorem allocate_message_slot_spec_witness:
  "\<exists>mc cc'. allocate_message_slot ConnectionContext_new 5 1 = (Some mc, cc') \<and> cc_wf cc'
    \<and> mc_state mc = ACTIVE \<and> mc_generation mc = 1 \<and> get_message cc' 5 = Some mc
    \<and> cc_generation_counters cc' ! 5 = 2 \<and> cc_generation_counters cc' ! 6 = 1"
proof -
  obtain mc cc' where a: "allocate_message_slot ConnectionContext_new 5 1 = (Some mc, cc')"
    by (simp add: allocate_message_slot_def slot_reusable_def ConnectionContext_new_def MAX_MESSAGES_def Let_def)
  have c: "cc_generation_counters ConnectionContext_new ! 5 = 1" "cc_generation_counters ConnectionContext_new ! 6 = 1"
    by (simp_all add: ConnectionContext_new_def MAX_MESSAGES_def)
  show ?thesis
    using allocate_message_slot_spec [OF cc_wf_new, of 5 1] unfolding a prod.case option.case
    using a c by simp
qed

text \<open>C8: Late packets of a completed message stay harmless.  Once a message has been completed, no
  sequence of fewer than \<open>2^32 - 1\<close> table operations, whatever they are, makes a lookup find an
  active message with its slot and generation again.\<close>

theorem completed_generation_stays_closed:
  assumes "cc_wf cc" and "allocate_message_slot cc i req = (Some mc, cc1)"
    and "\<forall>op\<in>set transfer \<union> set later. op_ok op"
    and "length transfer + length later < 2 ^ 32 - 1"
  shows "\<forall>m. get_message (fold table_op later (complete_message (fold table_op transfer cc1) i)) i = Some m
    \<longrightarrow> mc_generation m = mc_generation mc \<longrightarrow> mc_state m \<noteq> ACTIVE"
proof -
  let ?g = "mc_generation mc" and ?i = "unat i"
  have i: "?i < MAX_MESSAGES" and ok: "slot_reusable (cc_msg_table cc ! ?i) req"
    using assms(2) by (auto simp: allocate_message_slot_def split: if_splits)
  have wf1: "cc_wf cc1" using cc_wf_allocate [OF assms(1), of i req] assms(2) by simp
  have "?i < length (cc_generation_counters cc)" using assms(1) i by (simp add: cc_wf_def)
  then have c1: "cc_generation_counters cc1 ! ?i = ?g + 1"
    using allocate_slot [OF assms(1) i ok] assms(2) by (metis nth_list_update_eq prod.inject option.inject)
  let ?c2 = "fold table_op transfer cc1" let ?c3 = "complete_message ?c2 i"
  obtain n1 where n1: "n1 \<le> length transfer" "generations.runs ?i cc1 n1 ?c2"
    using runs_of_ops [OF wf1 _ i, of transfer] assms(3) by auto
  have wf2: "cc_wf ?c2" using generations.runs_valid [OF n1(2) wf1] .
  then have wf3: "cc_wf ?c3" by (rule cc_wf_complete)
  have count: "cc_generation_counters ?c3 ! ?i = ?g + of_nat (Suc n1)"
    using generations.runs_counter [OF n1(2)] c1
    by (simp add: complete_message_def split: option.split)
  have closed: "generations.retired ?c3 ?i ?g"
    using wf2 i by (auto simp: generations.retired_def complete_message_def cc_wf_def split: option.splits)
  obtain n where n: "n \<le> length later" "generations.runs ?i ?c3 n (fold table_op later ?c3)"
    using runs_of_ops [OF wf3 _ i, of later] assms(3) by auto
  have "generations.retired (fold table_op later ?c3) ?i ?g"
    by (rule generations.retired_stays [OF n(2) wf3 _ closed count]) (use i n(1) n1(1) assms(4) in auto)
  then show ?thesis
    by (auto simp: generations.retired_def get_message_def split: if_splits option.splits)
qed

theorem completed_generation_stays_closed_witness:
  "let mc = MessageContext_new\<lparr>mc_msg_id := 5, mc_generation := 1, mc_state := ACTIVE\<rparr>;
       cc1 = snd (allocate_message_slot ConnectionContext_new 5 1);
       cc3 = complete_message (fold table_op [OpUpdate 5 (\<lambda>m. m\<lparr>mc_buffer_size := 9\<rparr>)] cc1) 5
   in \<not> (\<exists>m. get_message (fold table_op [OpRelease 5, OpAllocate 5 7] cc3) 5 = Some m
        \<and> mc_generation m = mc_generation mc \<and> mc_state m = ACTIVE)"
proof -
  let ?mc = "MessageContext_new\<lparr>mc_msg_id := 5, mc_generation := 1, mc_state := ACTIVE\<rparr>"
  let ?cc1 = "snd (allocate_message_slot ConnectionContext_new 5 1)"
  let ?up = "[OpUpdate 5 (\<lambda>m. m\<lparr>mc_buffer_size := 9\<rparr>)]" and ?later = "[OpRelease 5, OpAllocate 5 7]"
  have "\<forall>m. get_message (fold table_op ?later (complete_message (fold table_op ?up ?cc1) 5)) 5 = Some m
    \<longrightarrow> mc_generation m = mc_generation ?mc \<longrightarrow> mc_state m \<noteq> ACTIVE"
    by (rule completed_generation_stays_closed [OF cc_wf_new, of 5 1])
      (simp_all add: allocate_message_slot_def slot_reusable_def ConnectionContext_new_def
        MessageContext_new_def MAX_MESSAGES_def Let_def holder_update_def)
  then show ?thesis unfolding Let_def by blast
qed

text \<open>The dimensions of a message are rounded-up quotients.  With a packet size and a chunk size,
  and a length whose rounding does not wrap, the packets cover the bytes with the last one nonempty,
  and the chunks the packets; with either size zero there are no packets and no chunks.  If the
  numbers also leave room in 32 bits, the two bitmaps made from them satisfy the conditions under
  which the poller is sound.\<close>

theorem calculate_bitmap_sizes_spec:
  assumes "unat total_bytes + unat mtu + unat ppc \<le> 2 ^ 64"
  shows "let (tp, tc) = calculate_bitmap_sizes total_bytes mtu ppc in
    (if mtu = 0 \<or> ppc = 0 then tp = 0 \<and> tc = 0
     else (\<forall>n. unat tp \<le> n \<longleftrightarrow> unat total_bytes \<le> n * unat mtu)
        \<and> (\<forall>n. unat tc \<le> n \<longleftrightarrow> unat tp \<le> n * unat ppc)
        \<and> (unat tp + unat ppc \<le> 2 ^ 32 \<and> unat tp + 63 < 2 ^ 32 \<longrightarrow>
             dims_ok (ucast tp) ppc (ucast tc)))"
  using assms by (rule bitmap_sizes)

theorem calculate_bitmap_sizes_spec_witness:
  "case calculate_bitmap_sizes 100000 1400 16 of (tp, tc) \<Rightarrow>
     unat tp = 72 \<and> unat tc = 5 \<and> dims_ok (ucast tp) 16 (ucast tc)"
proof -
  obtain tp tc where s: "calculate_bitmap_sizes 100000 1400 16 = (tp, tc)" by (rule prod.exhaust)
  have *: "\<forall>n. unat tp \<le> n \<longleftrightarrow> 100000 \<le> n * 1400" "\<forall>n. unat tc \<le> n \<longleftrightarrow> unat tp \<le> n * 16"
    "unat tp + 16 \<le> 2 ^ 32 \<and> unat tp + 63 < 2 ^ 32 \<longrightarrow> dims_ok (ucast tp) 16 (ucast tc)"
    using calculate_bitmap_sizes_spec [of 100000 1400 16] unfolding s Let_def prod.case by simp_all
  have "unat tp = 72" using *(1) [rule_format, of 72] *(1) [rule_format, of 71] by simp
  moreover have "unat tc = 5" using *(2) [rule_format, of 5] *(2) [rule_format, of 4] calculation by simp
  ultimately show ?thesis using *(3) by (simp add: s)
qed

end
