(* ===== verification/Packet.thy ===== *)
theory Packet
  imports Byte_Layout
begin

text \<open>
  The UDP data packet of \<open>include/sdr_packet.h\<close>: the bit-packed header with its helper methods,
  its memory image on a little-endian host (the layout GCC and Clang give a packed struct, with
  bit fields allocated from the least significant bit), the byte swaps before sending and after
  receiving, and the construction of data packets.
\<close>

section \<open>Header\<close>

datatype PacketType = PT_DATA | PT_PARITY | PT_ACK | PT_NACK | PT_CTS

fun packet_type_code :: "PacketType \<Rightarrow> u8" where
  "packet_type_code PT_DATA = 0"
| "packet_type_code PT_PARITY = 1"
| "packet_type_code PT_ACK = 2"
| "packet_type_code PT_NACK = 3"
| "packet_type_code PT_CTS = 4"

record SDRPacketHeader =
  h_magic :: u16
  h_type :: u8
  h_reserved1 :: u8
  h_transfer_id :: u32
  h_msg_id :: "10 word"
  h_packet_offset :: "18 word"
  h_reserved2 :: "4 word"
  h_submsg_id :: u16
  h_chunk_seq :: u32
  h_packets_per_chunk :: u16
  h_fec_k :: u16
  h_fec_m :: u16
  h_parity_idx :: u16
  h_payload_len :: u16
  h_flags :: u8
  h_reserved3 :: "u8 \<times> u8 \<times> u8"

definition HDR_MAGIC_VALUE :: u16 where
  "HDR_MAGIC_VALUE = 0x5344"

text \<open>\<open>sizeof(SDRPacketHeader)\<close>; \<open>length_header_image\<close> below confirms it.\<close>

definition header_size :: nat where
  "header_size = 32"

definition get_chunk_id :: "SDRPacketHeader \<Rightarrow> u32" where
  "get_chunk_id h =
     (if h_packets_per_chunk h = 0 then 0
      else ucast (h_packet_offset h) div ucast (h_packets_per_chunk h))"

definition get_packet_in_chunk :: "SDRPacketHeader \<Rightarrow> u32" where
  "get_packet_in_chunk h =
     (if h_packets_per_chunk h = 0 then 0
      else ucast (h_packet_offset h) mod ucast (h_packets_per_chunk h))"

definition header_is_valid :: "SDRPacketHeader \<Rightarrow> bool" where
  "header_is_valid h \<longleftrightarrow> h_magic h = HDR_MAGIC_VALUE"

definition to_network_order :: "SDRPacketHeader \<Rightarrow> SDRPacketHeader" where
  "to_network_order h = h\<lparr>
     h_magic := htons (h_magic h),
     h_transfer_id := htonl (h_transfer_id h),
     h_chunk_seq := htonl (h_chunk_seq h),
     h_submsg_id := htons (h_submsg_id h),
     h_packets_per_chunk := htons (h_packets_per_chunk h),
     h_fec_k := htons (h_fec_k h),
     h_fec_m := htons (h_fec_m h),
     h_parity_idx := htons (h_parity_idx h),
     h_payload_len := htons (h_payload_len h)\<rparr>"

definition to_host_order :: "SDRPacketHeader \<Rightarrow> SDRPacketHeader" where
  "to_host_order h = h\<lparr>
     h_magic := ntohs (h_magic h),
     h_transfer_id := ntohl (h_transfer_id h),
     h_chunk_seq := ntohl (h_chunk_seq h),
     h_submsg_id := ntohs (h_submsg_id h),
     h_packets_per_chunk := ntohs (h_packets_per_chunk h),
     h_fec_k := ntohs (h_fec_k h),
     h_fec_m := ntohs (h_fec_m h),
     h_parity_idx := ntohs (h_parity_idx h),
     h_payload_len := ntohs (h_payload_len h)\<rparr>"

text \<open>The 32-bit unit that holds the three bit fields.\<close>

definition bitfield_unit :: "10 word \<Rightarrow> 18 word \<Rightarrow> 4 word \<Rightarrow> u32" where
  "bitfield_unit m p r = ucast m OR push_bit 10 (ucast p) OR push_bit 28 (ucast r)"

definition header_image :: "SDRPacketHeader \<Rightarrow> u8 list" where
  "header_image h =
     le_bytes 2 (h_magic h) @ [h_type h] @ [h_reserved1 h] @
     le_bytes 4 (h_transfer_id h) @
     le_bytes 4 (bitfield_unit (h_msg_id h) (h_packet_offset h) (h_reserved2 h)) @
     le_bytes 2 (h_submsg_id h) @ le_bytes 4 (h_chunk_seq h) @
     le_bytes 2 (h_packets_per_chunk h) @ le_bytes 2 (h_fec_k h) @ le_bytes 2 (h_fec_m h) @
     le_bytes 2 (h_parity_idx h) @ le_bytes 2 (h_payload_len h) @ [h_flags h] @
     (case h_reserved3 h of (a, b, c) \<Rightarrow> [a, b, c])"

text \<open>\<open>memcpy(&header, recv_buffer, sizeof header)\<close>, with the bit fields read back.\<close>

definition header_of_image :: "u8 list \<Rightarrow> SDRPacketHeader" where
  "header_of_image bs =
     (let u = le_word (field_at 8 4 bs) :: u32 in
      \<lparr> h_magic = le_word (field_at 0 2 bs),
        h_type = bs ! 2,
        h_reserved1 = bs ! 3,
        h_transfer_id = le_word (field_at 4 4 bs),
        h_msg_id = ucast u,
        h_packet_offset = ucast (drop_bit 10 u),
        h_reserved2 = ucast (drop_bit 28 u),
        h_submsg_id = le_word (field_at 12 2 bs),
        h_chunk_seq = le_word (field_at 14 4 bs),
        h_packets_per_chunk = le_word (field_at 18 2 bs),
        h_fec_k = le_word (field_at 20 2 bs),
        h_fec_m = le_word (field_at 22 2 bs),
        h_parity_idx = le_word (field_at 24 2 bs),
        h_payload_len = le_word (field_at 26 2 bs),
        h_flags = bs ! 28,
        h_reserved3 = (bs ! 29, bs ! 30, bs ! 31) \<rparr>)"

lemma length_header_image [simp]: "length (header_image h) = header_size"
  by (simp add: header_image_def header_size_def split: prod.split)

lemma bitfield_unit_fields [simp]:
  "ucast (bitfield_unit m p r) = m"
  "ucast (drop_bit 10 (bitfield_unit m p r)) = p"
  "ucast (drop_bit 28 (bitfield_unit m p r)) = r"
proof -
  have m: "\<And>k. bit m k \<Longrightarrow> k < 10" and p: "\<And>k. bit p k \<Longrightarrow> k < 18"
    using bit_imp_le_length [of m] bit_imp_le_length [of p] by auto
  show "ucast (bitfield_unit m p r) = m"
    by (rule bit_word_eqI) (auto simp: bitfield_unit_def bit_simps)
  show "ucast (drop_bit 10 (bitfield_unit m p r)) = p"
    by (rule bit_word_eqI) (auto simp: bitfield_unit_def bit_simps dest: m)
  show "ucast (drop_bit 28 (bitfield_unit m p r)) = r"
    by (rule bit_word_eqI) (auto simp: bitfield_unit_def bit_simps dest: m p)
qed

lemma header_of_image_app [simp]: "header_of_image (header_image h @ rest) = h"
proof -
  obtain a b c where r: "h_reserved3 h = (a, b, c)" by (cases "h_reserved3 h")
  show ?thesis
    unfolding header_of_image_def Let_def
    by (rule SDRPacketHeader.equality) (simp_all add: header_image_def r nth_append)
qed

lemma to_host_to_network [simp]: "to_host_order (to_network_order h) = h"
  by (simp add: to_host_order_def to_network_order_def)

lemma unat_get_chunk_id:
  "h_packets_per_chunk h \<noteq> 0 \<Longrightarrow>
     unat (get_chunk_id h) = unat (h_packet_offset h) div unat (h_packets_per_chunk h)"
  by (simp add: get_chunk_id_def unat_div)

lemma unat_get_packet_in_chunk:
  "h_packets_per_chunk h \<noteq> 0 \<Longrightarrow>
     unat (get_packet_in_chunk h) = unat (h_packet_offset h) mod unat (h_packets_per_chunk h)"
  by (simp add: get_packet_in_chunk_def unat_mod)

section \<open>Packets\<close>

record SDRPacket =
  header :: SDRPacketHeader
  payload :: "u8 list"

definition MAX_PAYLOAD_SIZE :: u64 where
  "MAX_PAYLOAD_SIZE = 64 * 1024 - 8 - of_nat header_size"

lemma MAX_PAYLOAD_SIZE_value [simp]: "MAX_PAYLOAD_SIZE = 65496"
  by (simp add: MAX_PAYLOAD_SIZE_def header_size_def)

definition get_total_size :: "SDRPacket \<Rightarrow> u64" where
  "get_total_size p = of_nat header_size + ucast (h_payload_len (header p))"

text \<open>The header after \<open>memset(0)\<close> and the assignments of \<open>create_data_packet\<close>.\<close>

definition data_header :: "u32 \<Rightarrow> u32 \<Rightarrow> u32 \<Rightarrow> u16 \<Rightarrow> u64 \<Rightarrow> SDRPacketHeader" where
  "data_header transfer_id msg_id packet_offset packets_per_chunk data_len =
     \<lparr> h_magic = HDR_MAGIC_VALUE, h_type = packet_type_code PT_DATA, h_reserved1 = 0,
       h_transfer_id = transfer_id,
       h_msg_id = ucast msg_id, h_packet_offset = ucast packet_offset, h_reserved2 = 0,
       h_submsg_id = 0, h_chunk_seq = 0, h_packets_per_chunk = packets_per_chunk,
       h_fec_k = 0, h_fec_m = 0, h_parity_idx = 0, h_payload_len = ucast data_len,
       h_flags = 0, h_reserved3 = (0, 0, 0) \<rparr>"

text \<open>
  \<open>data\<close> is the memory readable from the source pointer on.  The outer \<open>None\<close> is the fault of
  copying more bytes than are readable, \<open>Some None\<close> the \<open>nullptr\<close> for an oversized payload.
\<close>

definition create_data_packet ::
    "u32 \<Rightarrow> u32 \<Rightarrow> u32 \<Rightarrow> u16 \<Rightarrow> u8 list \<Rightarrow> u64 \<Rightarrow> SDRPacket option option" where
  "create_data_packet transfer_id msg_id packet_offset packets_per_chunk data data_len =
     (if data_len > MAX_PAYLOAD_SIZE then Some None
      else if length data < unat data_len then None
      else Some (Some
        \<lparr> header = data_header transfer_id msg_id packet_offset packets_per_chunk data_len,
          payload = take (unat data_len) data \<rparr>))"

text \<open>The bytes handed to \<open>sendto\<close>.\<close>

definition packet_image :: "SDRPacket \<Rightarrow> u8 list" where
  "packet_image p = header_image (header p) @ payload p"

text \<open>
  Every caller sets the chunk number from the packet's own header and converts to network order
  just before sending.
\<close>

definition finish_packet :: "SDRPacket \<Rightarrow> SDRPacket" where
  "finish_packet p =
     (let h = header p; h' = h\<lparr>h_chunk_seq := get_chunk_id h\<rparr>
      in p\<lparr>header := to_network_order h'\<rparr>)"

lemma data_header_simps [simp]:
  "h_magic (data_header t m p c d) = HDR_MAGIC_VALUE"
  "h_transfer_id (data_header t m p c d) = t"
  "h_msg_id (data_header t m p c d) = ucast m"
  "h_packet_offset (data_header t m p c d) = ucast p"
  "h_packets_per_chunk (data_header t m p c d) = c"
  "h_payload_len (data_header t m p c d) = ucast d"
  by (simp_all add: data_header_def)

lemma payload_len_exact:
  "d \<le> MAX_PAYLOAD_SIZE \<Longrightarrow> unat (ucast d :: u16) = unat d"
  by (simp add: unat_ucast_mod word_le_nat_alt)

lemma packet_offset_mod: "unat (ucast (p :: u32) :: 18 word) = unat p mod 262144"
  by (simp add: unat_ucast_mod)

lemma msg_id_mod: "unat (ucast (m :: u32) :: 10 word) = unat m mod 1024"
  by (simp add: unat_ucast_mod)

lemma ucast_narrow_widen:
  "unat p < 262144 \<Longrightarrow> ucast (ucast (p :: u32) :: 18 word) = p"
  "unat m < 1024 \<Longrightarrow> ucast (ucast (m :: u32) :: 10 word) = m"
  by (rule word_unat_eq_iff [THEN iffD2], simp add: packet_offset_mod msg_id_mod)+

lemma create_data_packet_ok:
  assumes "d \<le> MAX_PAYLOAD_SIZE" and "unat d \<le> length data"
  shows "create_data_packet t m p c data d =
    Some (Some \<lparr>header = data_header t m p c d, payload = take (unat d) data\<rparr>)"
  using assms by (simp add: create_data_packet_def)

text \<open>C17: A header survives the wire.  The image of a header in network order has 32 bytes and
  starts with the magic number's bytes, most significant first; copying the first 32 bytes of a
  datagram back into a header and converting it to host order gives the header the sender
  converted, whatever follows it in the datagram.\<close>

theorem header_wire_roundtrip:
  "length (header_image (to_network_order h)) = 32 \<and>
   take 2 (header_image (to_network_order h)) = rev (le_bytes 2 (h_magic h)) \<and>
   to_host_order (header_of_image (header_image (to_network_order h) @ rest)) = h"
  by (simp add: header_size_def) (simp add: header_image_def to_network_order_def htons_wire)

text \<open>A data packet records what it was made from, as far as its fields are wide enough.
  Creation fails exactly for payloads over the maximum; otherwise the packet is valid, carries
  exactly the requested bytes with their true number in \<open>payload_len\<close>, and the offset and message
  id are those requested modulo \<open>2^18\<close> and \<open>2^10\<close>.\<close>

theorem create_data_packet_spec:
  assumes "unat data_len \<le> length data"
  shows "case create_data_packet t m p c data data_len of
      None \<Rightarrow> False
    | Some None \<Rightarrow> 65496 < unat data_len
    | Some (Some pkt) \<Rightarrow> unat data_len \<le> 65496 \<and> header_is_valid (header pkt)
        \<and> payload pkt = take (unat data_len) data
        \<and> unat (h_payload_len (header pkt)) = length (payload pkt)
        \<and> unat (get_total_size pkt) = length (packet_image pkt)
        \<and> unat (h_packet_offset (header pkt)) = unat p mod 2 ^ 18
        \<and> unat (h_msg_id (header pkt)) = unat m mod 2 ^ 10
        \<and> h_transfer_id (header pkt) = t"
proof (cases "data_len \<le> MAX_PAYLOAD_SIZE")
  case True
  then have "unat data_len \<le> 65496" by (simp add: word_le_nat_alt)
  with True assms show ?thesis
    by (simp add: create_data_packet_ok header_is_valid_def payload_len_exact packet_offset_mod
        msg_id_mod get_total_size_def packet_image_def header_size_def unat_word_ariths)
next
  case False
  then show ?thesis by (simp add: create_data_packet_def word_less_nat_alt not_le)
qed

theorem create_data_packet_spec_witness:
  "case create_data_packet 7 1029 262150 4 [10, 20, 30] 2 of
      None \<Rightarrow> False
    | Some None \<Rightarrow> 65496 < unat (2 :: u64)
    | Some (Some pkt) \<Rightarrow> unat (2 :: u64) \<le> 65496 \<and> header_is_valid (header pkt)
        \<and> payload pkt = take (unat (2 :: u64)) [10, 20, 30]
        \<and> unat (h_payload_len (header pkt)) = length (payload pkt)
        \<and> unat (get_total_size pkt) = length (packet_image pkt)
        \<and> unat (h_packet_offset (header pkt)) = unat (262150 :: u32) mod 2 ^ 18
        \<and> unat (h_msg_id (header pkt)) = unat (1029 :: u32) mod 2 ^ 10
        \<and> h_transfer_id (header pkt) = 7"
  by (rule create_data_packet_spec) simp

text \<open>Chunk arithmetic of the header.  With a nonzero chunk size, the chunk number and the index
  inside the chunk are the quotient and remainder of the packet offset, so they determine it and
  the index is below the chunk size; with chunk size zero both are zero.\<close>

theorem header_chunk_decomposition:
  "(if h_packets_per_chunk h = 0 then get_chunk_id h = 0 \<and> get_packet_in_chunk h = 0
    else unat (get_chunk_id h) * unat (h_packets_per_chunk h) + unat (get_packet_in_chunk h)
           = unat (h_packet_offset h)
       \<and> unat (get_packet_in_chunk h) < unat (h_packets_per_chunk h))"
  by (simp add: unat_get_chunk_id unat_get_packet_in_chunk)
    (simp add: get_chunk_id_def get_packet_in_chunk_def unat_gt_0)

end
