(* ===== verification/Receiver.thy ===== *)
theory Receiver
  imports Connection Packet
begin

text \<open>
  The UDP receiver of \<open>include/sdr_receiver.h\<close>: opening and closing its channels, the reading of
  datagrams, and \<open>process_packet\<close>, which writes the payload into the message's buffer and records the
  packet.  The state is the connection context with the user's buffers; a write outside a buffer is a
  fault (\<open>None\<close>).  A specification of the slots follows, which the worker's loop implements, and the steps
  of \<open>process_packet\<close> interleaved with the completion of the message by another thread.
\<close>

section \<open>Channels\<close>

record Worker =
  w_udp_socket_fd :: int
  w_udp_port :: u16

record UDPReceiver =
  ur_workers :: "Worker list"
  ur_should_stop :: bool
  ur_is_running :: bool
  ur_base_port :: u16
  ur_num_channels :: u16

definition UDPReceiver_new :: UDPReceiver where
  "UDPReceiver_new = \<lparr> ur_workers = [], ur_should_stop = False, ur_is_running = False,
     ur_base_port = 0, ur_num_channels = 1 \<rparr>"

text \<open>Results of the system calls made for one channel; a failed \<open>SO_RCVBUF\<close> is only a warning.\<close>

record ChannelSys =
  chs_socket :: int
  chs_reuseaddr :: int
  chs_rcvbuf :: int
  chs_bind :: int

text \<open>\<open>stop\<close> joins the threads; the second component lists the descriptors closed.\<close>

definition ur_stop :: "UDPReceiver \<Rightarrow> UDPReceiver \<times> int list" where
  "ur_stop r =
     (r\<lparr>ur_should_stop := True, ur_workers := [], ur_is_running := False\<rparr>,
      filter (\<lambda>fd. fd \<ge> 0) (map w_udp_socket_fd (ur_workers r)))"

text \<open>One turn of the loop of \<open>start\<close>; a failure has closed its own socket and leaves the workers.\<close>

definition open_channel ::
    "(u16 \<Rightarrow> ChannelSys) \<Rightarrow> u16 \<Rightarrow> u16 \<Rightarrow> Worker list \<Rightarrow> (Worker list \<times> int list) + Worker list" where
  "open_channel sys base_port idx workers =
     (let port = base_port + idx; fd = chs_socket (sys idx) in
      if fd < 0 then Inl (workers, [])
      else if chs_reuseaddr (sys idx) < 0 then Inl (workers, [fd])
      else if chs_bind (sys idx) < 0 then Inl (workers, [fd])
      else Inr (workers[unat idx := \<lparr> w_udp_socket_fd = fd, w_udp_port = port \<rparr>]))"

definition ur_start ::
    "UDPReceiver \<Rightarrow> ConnectionContext \<Rightarrow> u16 \<Rightarrow> u16 \<Rightarrow> (u16 \<Rightarrow> ChannelSys)
      \<Rightarrow> bool \<times> UDPReceiver \<times> ConnectionContext \<times> int list" where
  "ur_start r cc base_port num_channels sys =
     (if ur_is_running r then (False, r, cc, [])
      else
        let n = max 1 num_channels;
            workers = replicate (unat n) \<lparr> w_udp_socket_fd = - 1, w_udp_port = 0 \<rparr>;
            r = r\<lparr>ur_base_port := base_port, ur_num_channels := n, ur_should_stop := False\<rparr>
        in (case for_exit 0 n (open_channel sys base_port) workers of
              Inl (workers', closed) \<Rightarrow>
                (let (r', closed') = ur_stop (r\<lparr>ur_workers := workers'\<rparr>)
                 in (False, r', cc, closed @ closed'))
            | Inr workers' \<Rightarrow>
                (True, r\<lparr>ur_workers := workers', ur_is_running := True\<rparr>,
                 (if workers' \<noteq> [] then cc\<lparr>cc_udp_socket_fd := w_udp_socket_fd (workers' ! 0)\<rparr> else cc),
                 [])))"

section \<open>Writing a packet\<close>

record RecvState =
  rs_conn :: ConnectionContext
  rs_mem :: "nat \<Rightarrow> u8 list"

text \<open>\<open>memcpy\<close> to \<open>buffer + off\<close>.\<close>

definition buffer_write :: "RecvState \<Rightarrow> BufRef \<Rightarrow> nat \<Rightarrow> u8 list \<Rightarrow> RecvState option" where
  "buffer_write rs buf off bytes =
     (case buf of
        NullPtr \<Rightarrow> None
      | UserBuf b \<Rightarrow> map_option (\<lambda>m. rs\<lparr>rs_mem := (rs_mem rs)(b := m)\<rparr>) (mem_write (rs_mem rs b) off bytes)
      | NullSink \<Rightarrow>
          map_option (\<lambda>m. rs\<lparr>rs_conn := (rs_conn rs)\<lparr>cc_null_sink := m\<rparr>\<rparr>)
            (mem_write (cc_null_sink (rs_conn rs)) off bytes))"

text \<open>
  The place of a packet: the offset and the number of bytes to copy, \<open>None\<close> when nothing is written.
\<close>

definition packet_place :: "MessageContext \<Rightarrow> u32 \<Rightarrow> u64 \<Rightarrow> (u64 \<times> u64) option" where
  "packet_place mc packet_offset payload_len =
     (let mtu_bytes = (if cp_mtu_bytes (mc_params mc) = 0 then 1 else cp_mtu_bytes (mc_params mc));
          buffer_offset = (ucast packet_offset :: u64) * ucast mtu_bytes
      in if buffer_offset \<ge> mc_buffer_size mc then None
         else if buffer_offset + payload_len > mc_buffer_size mc then
           (let payload_len = mc_buffer_size mc - buffer_offset
            in if payload_len = 0 then None else Some (buffer_offset, payload_len))
         else Some (buffer_offset, payload_len))"

definition write_packet_to_buffer ::
    "RecvState \<Rightarrow> MessageContext \<Rightarrow> u32 \<Rightarrow> u8 list \<Rightarrow> RecvState option" where
  "write_packet_to_buffer rs mc packet_offset pl =
     (if mc_buffer mc = NullPtr then Some rs
      else case packet_place mc packet_offset (of_nat (length pl)) of
          None \<Rightarrow> Some rs
        | Some (buffer_offset, payload_len) \<Rightarrow>
            buffer_write rs (mc_buffer mc) (unat buffer_offset) (take (unat payload_len) pl))"

text \<open>The guards of \<open>process_packet\<close> on the context found.\<close>

definition accepts :: "MessageContext \<Rightarrow> SDRPacketHeader \<Rightarrow> bool" where
  "accepts mc hdr \<longleftrightarrow> mc_generation mc = h_transfer_id hdr
     \<and> mc_state mc \<noteq> DEAD \<and> mc_state mc \<noteq> COMPLETED \<and> mc_state mc \<noteq> NULL_STATE"

definition already_received :: "MessageContext \<Rightarrow> u32 \<Rightarrow> bool option" where
  "already_received mc packet_offset =
     (case mc_backend mc of None \<Rightarrow> Some False | Some b \<Rightarrow> is_packet_received b packet_offset)"

text \<open>\<open>backend_bitmap->set_packet_received(packet_offset)\<close> through the message's pointer.\<close>

definition record_packet :: "RecvState \<Rightarrow> u32 \<Rightarrow> u32 \<Rightarrow> RecvState option" where
  "record_packet rs msg_id packet_offset =
     (case get_message (rs_conn rs) msg_id of
        None \<Rightarrow> None
      | Some mc \<Rightarrow>
          (case mc_backend mc of
             None \<Rightarrow> Some rs
           | Some b \<Rightarrow>
               map_option (\<lambda>(_, b'). rs\<lparr>rs_conn :=
                   update_message (rs_conn rs) msg_id (\<lambda>mc. mc\<lparr>mc_backend := Some b'\<rparr>)\<rparr>)
                 (set_packet_received b packet_offset)))"

definition process_packet :: "RecvState \<Rightarrow> SDRPacketHeader \<Rightarrow> u8 list \<Rightarrow> RecvState option" where
  "process_packet rs hdr pl =
     (case get_message (rs_conn rs) (ucast (h_msg_id hdr)) of
        None \<Rightarrow> Some rs
      | Some mc \<Rightarrow>
          (if \<not> accepts mc hdr then Some rs
           else case already_received mc (ucast (h_packet_offset hdr)) of
               None \<Rightarrow> None
             | Some True \<Rightarrow> Some rs
             | Some False \<Rightarrow>
                 Option.bind (write_packet_to_buffer rs mc (ucast (h_packet_offset hdr)) pl)
                   (\<lambda>rs'. record_packet rs' (ucast (h_msg_id hdr)) (ucast (h_packet_offset hdr)))))"

section \<open>The receiver thread\<close>

text \<open>
  What a channel's socket presents to \<open>recvfrom\<close>: a datagram, an expired timeout or interruption, or
  another error.  \<open>stop\<close> setting the flag is an event of its own, seen at the loop test.
\<close>

datatype UdpEvent = Datagram "u8 list" | UdpRetry | UdpFailed | StopSeen

definition max_packet_size :: nat where
  "max_packet_size = header_size + unat MAX_PAYLOAD_SIZE"

definition parse_datagram :: "u8 list \<Rightarrow> (SDRPacketHeader \<times> u8 list) option" where
  "parse_datagram bytes =
     (let recv_buffer = take max_packet_size bytes; n = length recv_buffer in
      if n < header_size then None
      else
        let hdr = to_host_order (header_of_image (take header_size recv_buffer)) in
        if \<not> header_is_valid hdr then None
        else
          let actual_payload_len = n - header_size;
              expected_payload_len = unat (h_payload_len hdr);
              payload_len = min actual_payload_len expected_payload_len
          in Some (hdr, take payload_len (drop header_size recv_buffer)))"

definition handle_datagram :: "RecvState \<Rightarrow> u8 list \<Rightarrow> RecvState option" where
  "handle_datagram rs bytes =
     (case parse_datagram bytes of
        None \<Rightarrow> Some rs
      | Some (hdr, pl) \<Rightarrow> process_packet rs hdr pl)"

text \<open>The loop of \<open>receiver_thread_func\<close> over the events of its socket.\<close>

fun receiver_loop :: "RecvState \<Rightarrow> UdpEvent list \<Rightarrow> RecvState option" where
  "receiver_loop rs [] = Some rs"
| "receiver_loop rs (StopSeen # evs) = Some rs"
| "receiver_loop rs (UdpFailed # evs) = Some rs"
| "receiver_loop rs (UdpRetry # evs) = receiver_loop rs evs"
| "receiver_loop rs (Datagram bytes # evs) =
     Option.bind (handle_datagram rs bytes) (\<lambda>rs'. receiver_loop rs' evs)"

lemma header_of_image_only [simp]: "header_of_image (header_image h) = h"
  using header_of_image_app [of h "[]"] by simp

text \<open>What a sender has finished and sent is parsed back.\<close>

lemma parse_sent:
  assumes "data_len \<le> MAX_PAYLOAD_SIZE" and "unat data_len \<le> length data"
    and "create_data_packet t m p c data data_len = Some (Some pkt)"
  shows "\<exists>h. parse_datagram (packet_image (finish_packet pkt)) = Some (h, take (unat data_len) data)
    \<and> h_transfer_id h = t \<and> h_msg_id h = ucast m \<and> h_packet_offset h = ucast p
    \<and> h_packets_per_chunk h = c \<and> h_chunk_seq h = get_chunk_id h"
proof -
  let ?h = "data_header t m p c data_len"
  let ?h' = "?h\<lparr>h_chunk_seq := get_chunk_id ?h\<rparr>"
  have pkt: "pkt = \<lparr>header = ?h, payload = take (unat data_len) data\<rparr>"
    using create_data_packet_ok [OF assms(1,2), of t m p c] assms(3) by simp
  have len: "unat data_len \<le> 65496" using assms(1) by (simp add: word_le_nat_alt)
  have img: "packet_image (finish_packet pkt) = header_image (to_network_order ?h') @ take (unat data_len) data"
    by (simp add: pkt packet_image_def finish_packet_def Let_def)
  have "length (packet_image (finish_packet pkt)) = 32 + unat data_len"
    unfolding img using assms(2) by (simp add: header_size_def)
  then have "take max_packet_size (packet_image (finish_packet pkt)) = packet_image (finish_packet pkt)"
    using len by (simp add: max_packet_size_def header_size_def)
  then have "parse_datagram (packet_image (finish_packet pkt)) = Some (?h', take (unat data_len) data)"
    using assms(2) len payload_len_exact [OF assms(1)]
    unfolding parse_datagram_def Let_def img
    by (simp add: header_is_valid_def)
  then show ?thesis by (simp add: get_chunk_id_def)
qed

section \<open>Bounds of a write\<close>

definition effective_mtu :: "MessageContext \<Rightarrow> nat" where
  "effective_mtu mc = (if cp_mtu_bytes (mc_params mc) = 0 then 1 else unat (cp_mtu_bytes (mc_params mc)))"

lemma packet_place_eq:
  assumes "n + unat (mc_buffer_size mc) < 2 ^ 64"
  shows "packet_place mc p (of_nat n) =
    (if unat (mc_buffer_size mc) \<le> unat p * effective_mtu mc then None
     else Some (of_nat (unat p * effective_mtu mc),
                of_nat (min n (unat (mc_buffer_size mc) - unat p * effective_mtu mc))))"
proof -
  let ?size = "mc_buffer_size mc"
  let ?mtu = "if cp_mtu_bytes (mc_params mc) = 0 then 1 else cp_mtu_bytes (mc_params mc)"
  let ?off = "(ucast p :: u64) * ucast ?mtu"
  have mtu: "unat (ucast ?mtu :: u64) = effective_mtu mc" by (simp add: effective_mtu_def)
  have e: "effective_mtu mc \<le> 2 ^ 32 - 1"
    using unat_width(5) [of "cp_mtu_bytes (mc_params mc)"] by (simp add: effective_mtu_def)
  have "unat p * effective_mtu mc \<le> (2 ^ 32 - 1) * (2 ^ 32 - 1)"
    by (rule mult_le_mono [OF _ e]) (use unat_width(5) [of p] in simp)
  then have off: "unat ?off = unat p * effective_mtu mc"
    unfolding unat_word_ariths mtu by (simp add: mod_less)
  then have off_word: "?off = of_nat (unat p * effective_mtu mc)"
    unfolding off [symmetric] by simp
  have n: "unat (of_nat n :: u64) = n" using assms by (intro unat_of_nat_small) simp
  show ?thesis
  proof (cases "?size \<le> ?off")
    case True
    then show ?thesis using off by (simp add: packet_place_def Let_def word_le_nat_alt)
  next
    case False
    then have lt: "unat p * effective_mtu mc < unat ?size" using off by (simp add: word_le_nat_alt)
    have sum: "unat (?off + of_nat n) = unat p * effective_mtu mc + n"
      unfolding unat_word_ariths(1) off n by (rule mod_less) (use assms lt in simp)
    show ?thesis
    proof (cases "?off + of_nat n > ?size")
      case True
      have sub: "unat (?size - ?off) = unat ?size - unat p * effective_mtu mc"
        using False off by (simp add: unat_sub not_le)
      have left: "?size - ?off = of_nat (unat ?size - unat p * effective_mtu mc)"
        unfolding sub [symmetric] by simp
      have "?size - ?off \<noteq> 0" using False by auto
      moreover have "min n (unat ?size - unat p * effective_mtu mc) = unat ?size - unat p * effective_mtu mc"
        using True sum by (simp add: word_less_nat_alt)
      ultimately show ?thesis
        using True False lt left off_word by (simp add: packet_place_def Let_def)
    next
      case False': False
      then have "min n (unat ?size - unat p * effective_mtu mc) = n"
        using sum by (simp add: word_less_nat_alt not_less)
      then show ?thesis
        using False' False lt off_word by (simp add: packet_place_def Let_def)
    qed
  qed
qed

text \<open>
  What a write does to a buffer of at least the recorded size: the bytes of the payload that fit
  replace those from the packet's offset on.
\<close>

lemma write_user_buffer:
  assumes buf: "mc_buffer mc = UserBuf b" and size: "unat (mc_buffer_size mc) \<le> length (rs_mem rs b)"
    and n: "length pl + unat (mc_buffer_size mc) < 2 ^ 64"
  shows "write_packet_to_buffer rs mc p pl =
    (let off = unat p * effective_mtu mc; fits = take (unat (mc_buffer_size mc) - off) pl
     in if unat (mc_buffer_size mc) \<le> off then Some rs
        else Some (rs\<lparr>rs_mem := (rs_mem rs)
               (b := take off (rs_mem rs b) @ fits @ drop (off + length fits) (rs_mem rs b))\<rparr>))"
proof (cases "unat (mc_buffer_size mc) \<le> unat p * effective_mtu mc")
  case True
  then show ?thesis
    by (simp add: write_packet_to_buffer_def packet_place_eq [OF n] Let_def)
next
  case False
  let ?off = "unat p * effective_mtu mc" and ?size = "unat (mc_buffer_size mc)"
  have s: "?size < 2 ^ 64" using n by simp
  have o: "unat (of_nat ?off :: u64) = ?off" using False s by (intro unat_of_nat_small) simp
  have l: "unat (of_nat (min (length pl) (?size - ?off)) :: u64) = min (length pl) (?size - ?off)"
    using n by (intro unat_of_nat_small) simp
  have t: "take (min (length pl) (?size - ?off)) pl = take (?size - ?off) pl" by (simp add: min_def)
  have fits: "?off + length (take (?size - ?off) pl) \<le> length (rs_mem rs b)" using False size by simp
  have "write_packet_to_buffer rs mc p pl = buffer_write rs (UserBuf b) ?off (take (?size - ?off) pl)"
    using False unfolding write_packet_to_buffer_def packet_place_eq [OF n] buf
    by (simp add: o l t del: of_nat_mult)
  also have "\<dots> = Some (rs\<lparr>rs_mem := (rs_mem rs)(b := take ?off (rs_mem rs b) @ take (?size - ?off) pl
      @ drop (?off + length (take (?size - ?off) pl)) (rs_mem rs b))\<rparr>)"
    using mem_write_fits [OF fits] by (simp add: buffer_write_def)
  finally show ?thesis using False by (simp add: Let_def)
qed

section \<open>A message being received\<close>

text \<open>
  The target of a transfer: the slot and generation the sender stamps, the user's buffer with its old
  content, the sender's data and the packet size.
\<close>

record Target =
  t_slot :: "10 word"
  t_generation :: u32
  t_buffer :: nat
  t_old :: "u8 list"
  t_data :: "u8 list"
  t_mtu :: nat

definition slice :: "'a list \<Rightarrow> nat \<Rightarrow> nat \<Rightarrow> 'a list" where
  "slice xs m p = take m (drop (p * m) xs)"

text \<open>The buffer when the packets of \<open>R\<close> have arrived.\<close>

definition overlay :: "Target \<Rightarrow> nat set \<Rightarrow> u8 list" where
  "overlay T R = map (\<lambda>j. if j div t_mtu T \<in> R then t_data T ! j else t_old T ! j) [0..<length (t_data T)]"

lemma length_overlay [simp]: "length (overlay T R) = length (t_data T)"
  by (simp add: overlay_def)

lemma nth_overlay [simp]:
  "j < length (t_data T) \<Longrightarrow>
     overlay T R ! j = (if j div t_mtu T \<in> R then t_data T ! j else t_old T ! j)"
  by (simp add: overlay_def)

lemma overlay_none: "length (t_old T) = length (t_data T) \<Longrightarrow> overlay T {} = t_old T"
  by (rule nth_equalityI) simp_all

lemma overlay_all:
  assumes "\<forall>p. p * t_mtu T < length (t_data T) \<longrightarrow> p \<in> R"
  shows "overlay T R = t_data T"
proof (rule nth_equalityI)
  fix j assume "j < length (overlay T R)"
  then have "j div t_mtu T * t_mtu T < length (t_data T)"
    using le_less_trans [OF div_times_less_eq_dividend] by simp
  with assms \<open>j < length (overlay T R)\<close> show "overlay T R ! j = t_data T ! j" by simp
qed simp

lemma overlay_write:
  assumes m: "0 < t_mtu T" and p: "p * t_mtu T < length (t_data T)"
  shows "take (p * t_mtu T) (overlay T R) @ slice (t_data T) (t_mtu T) p
      @ drop (p * t_mtu T + length (slice (t_data T) (t_mtu T) p)) (overlay T R) = overlay T (insert p R)"
    (is "?new = _")
proof -
  let ?m = "t_mtu T" and ?L = "length (t_data T)"
  let ?s = "slice (t_data T) ?m p"
  have ls: "length ?s = min ?m (?L - p * ?m)" by (simp add: slice_def min.commute)
  have w: "mem_write (overlay T R) (p * ?m) ?s = Some ?new" using p ls by (simp add: mem_write_def)
  show ?thesis
  proof (rule nth_equalityI)
    show "length ?new = length (overlay T (insert p R))" using mem_write_length [OF w] by simp
    fix j assume "j < length ?new"
    then have j: "j < ?L" using mem_write_length [OF w] by simp
    have "j div ?m = p \<longleftrightarrow> p * ?m \<le> j \<and> j < p * ?m + ?m"
      using m by (metis add.commute div_nat_eqI dividend_less_div_times div_times_less_eq_dividend
          mult.commute mult_Suc_right)
    then have same: "j div ?m = p \<longleftrightarrow> p * ?m \<le> j \<and> j < p * ?m + length ?s"
      using j ls by auto
    have "?new ! j = (if p * ?m \<le> j \<and> j < p * ?m + length ?s then ?s ! (j - p * ?m) else overlay T R ! j)"
      using mem_write_nth [OF w] j by simp
    moreover have "?s ! (j - p * ?m) = t_data T ! j" if "p * ?m \<le> j" "j < p * ?m + length ?s"
      using that p ls by (simp add: slice_def)
    ultimately show "?new ! j = overlay T (insert p R) ! j" using j same by auto
  qed
qed

definition slot_of :: "Target \<Rightarrow> u32" where
  "slot_of T = ucast (t_slot T)"

lemma unat_slot_of [simp]: "unat (slot_of T) = unat (t_slot T)" "unat (t_slot T) < MAX_MESSAGES"
  using unat_width(2) [of "t_slot T"] by (simp_all add: slot_of_def MAX_MESSAGES_def)

definition rx_inv :: "Target \<Rightarrow> RecvState \<Rightarrow> bool" where
  "rx_inv T rs \<longleftrightarrow> cc_wf (rs_conn rs) \<and> 0 < t_mtu T \<and> length (t_old T) = length (t_data T)
     \<and> length (t_data T) + 2 ^ 16 \<le> 2 ^ 64
     \<and> (\<exists>mc b. cc_msg_table (rs_conn rs) ! unat (t_slot T) = Some mc
          \<and> mc_generation mc = t_generation T \<and> mc_state mc = ACTIVE
          \<and> mc_buffer mc = UserBuf (t_buffer T) \<and> unat (mc_buffer_size mc) = length (t_data T)
          \<and> effective_mtu mc = t_mtu T \<and> mc_backend mc = Some b \<and> bb_wf b
          \<and> (\<forall>p. p < unat (bb_total_packets b) \<longleftrightarrow> p * t_mtu T < length (t_data T))
          \<and> rs_mem rs (t_buffer T) = overlay T (received b))"

definition rx_received :: "Target \<Rightarrow> RecvState \<Rightarrow> nat set" where
  "rx_received T rs =
     (case cc_msg_table (rs_conn rs) ! unat (t_slot T) of
        None \<Rightarrow> {}
      | Some mc \<Rightarrow> (case mc_backend mc of None \<Rightarrow> {} | Some b \<Rightarrow> received b))"

text \<open>
  Arrivals for the slot: those of the transfer carry the sender's bytes at their offset; packets of
  another generation, and offsets beyond the message, may carry anything.
\<close>

definition rx_good :: "Target \<Rightarrow> SDRPacketHeader \<times> u8 list \<Rightarrow> bool" where
  "rx_good T = (\<lambda>(h, pl). h_msg_id h = t_slot T \<and> length pl < 2 ^ 16
     \<and> (h_transfer_id h = t_generation T \<longrightarrow> unat (h_packet_offset h) * t_mtu T < length (t_data T) \<longrightarrow>
          pl = slice (t_data T) (t_mtu T) (unat (h_packet_offset h))))"

definition rx_adds :: "Target \<Rightarrow> SDRPacketHeader \<times> u8 list \<Rightarrow> nat set" where
  "rx_adds T = (\<lambda>(h, pl).
     if h_transfer_id h = t_generation T \<and> unat (h_packet_offset h) * t_mtu T < length (t_data T)
     then {unat (h_packet_offset h)} else {})"

text \<open>The state without what the transfer may change, and put together again.\<close>

definition rx_frame :: "Target \<Rightarrow> RecvState \<Rightarrow> RecvState" where
  "rx_frame T rs = rs\<lparr>rs_mem := (rs_mem rs)(t_buffer T := []),
     rs_conn := update_message (rs_conn rs) (slot_of T)
       (\<lambda>mc. mc\<lparr>mc_backend := map_option (\<lambda>b. b\<lparr>packet_bitmap := []\<rparr>) (mc_backend mc)\<rparr>)\<rparr>"

definition rx_fill :: "Target \<Rightarrow> RecvState \<Rightarrow> BackendBitmap \<Rightarrow> RecvState" where
  "rx_fill T rs b = rs\<lparr>rs_mem := (rs_mem rs)(t_buffer T := overlay T (received b)),
     rs_conn := update_message (rs_conn rs) (slot_of T) (\<lambda>mc. mc\<lparr>mc_backend := Some b\<rparr>)\<rparr>"

definition deliver :: "SDRPacketHeader \<times> u8 list \<Rightarrow> RecvState \<Rightarrow> RecvState option" where
  "deliver = (\<lambda>(h, pl) rs. process_packet rs h pl)"

lemma rx_invE:
  assumes "rx_inv T rs"
  obtains mc b where "cc_wf (rs_conn rs)" and "unat (t_slot T) < length (cc_msg_table (rs_conn rs))"
    and "0 < t_mtu T" and "length (t_old T) = length (t_data T)" and "length (t_data T) + 2 ^ 16 \<le> 2 ^ 64"
    and "cc_msg_table (rs_conn rs) ! unat (t_slot T) = Some mc"
    and "get_message (rs_conn rs) (slot_of T) = Some mc"
    and "mc_generation mc = t_generation T" and "mc_state mc = ACTIVE"
    and "mc_buffer mc = UserBuf (t_buffer T)" and "unat (mc_buffer_size mc) = length (t_data T)"
    and "effective_mtu mc = t_mtu T" and "mc_backend mc = Some b" and "bb_wf b"
    and "\<forall>p. p < unat (bb_total_packets b) \<longleftrightarrow> p * t_mtu T < length (t_data T)"
    and "rs_mem rs (t_buffer T) = overlay T (received b)" and "rx_received T rs = received b"
proof -
  from assms obtain mc b where m: "cc_msg_table (rs_conn rs) ! unat (t_slot T) = Some mc"
    "mc_generation mc = t_generation T" "mc_state mc = ACTIVE" "mc_buffer mc = UserBuf (t_buffer T)"
    "unat (mc_buffer_size mc) = length (t_data T)" "effective_mtu mc = t_mtu T"
    "mc_backend mc = Some b" "bb_wf b"
    "\<forall>p. p < unat (bb_total_packets b) \<longleftrightarrow> p * t_mtu T < length (t_data T)"
    "rs_mem rs (t_buffer T) = overlay T (received b)" unfolding rx_inv_def by blast
  have g: "get_message (rs_conn rs) (slot_of T) = Some mc"
    unfolding get_message_def unat_slot_of(1) using m(1,3) unat_slot_of(2) [of T]
    by (simp add: not_le [symmetric])
  have r: "rx_received T rs = received b" by (simp add: rx_received_def m)
  show thesis
    by (rule that) (use assms m g r in \<open>auto simp: rx_inv_def cc_wf_def\<close>)
qed

lemma update_update:
  assumes "unat i < length (cc_msg_table cc)"
  shows "update_message (update_message cc i f) i g = update_message cc i (\<lambda>mc. g (f mc))"
  using assms by (simp add: update_message_def option.map_comp comp_def)

lemma update_same:
  assumes "cc_msg_table cc ! unat i = Some mc" and "f mc = mc"
  shows "update_message cc i f = cc"
proof -
  have "(cc_msg_table cc)[unat i := Some mc] = cc_msg_table cc"
    using list_update_id [of "cc_msg_table cc" "unat i"] assms(1) by simp
  then show ?thesis using assms by (simp add: update_message_def)
qed

lemma rx_rebuild:
  assumes "rx_inv T rs" and "cc_msg_table (rs_conn rs) ! unat (t_slot T) = Some mc" and "mc_backend mc = Some b"
  shows "rs = rx_fill T (rx_frame T rs) b"
proof -
  obtain mc' b' where inv: "unat (t_slot T) < length (cc_msg_table (rs_conn rs))"
    "cc_msg_table (rs_conn rs) ! unat (t_slot T) = Some mc'" "mc_backend mc' = Some b'"
    "rs_mem rs (t_buffer T) = overlay T (received b')"
    using rx_invE [OF assms(1)] by metis
  have "b' = b" using inv assms by simp
  then have mem: "(rs_mem rs)(t_buffer T := overlay T (received b)) = rs_mem rs" using inv(4) by auto
  have conn: "update_message (rs_conn rs) (slot_of T) (\<lambda>mc. mc\<lparr>mc_backend := Some b\<rparr>) = rs_conn rs"
    by (rule update_same) (use assms in \<open>auto simp: MessageContext.equality\<close>)
  have "unat (slot_of T) < length (cc_msg_table (rs_conn rs))" using inv(1) by simp
  then have "rx_fill T (rx_frame T rs) b = rs\<lparr>rs_mem := (rs_mem rs)(t_buffer T := overlay T (received b)),
      rs_conn := update_message (rs_conn rs) (slot_of T) (\<lambda>mc. mc\<lparr>mc_backend := Some b\<rparr>)\<rparr>"
    by (simp add: rx_fill_def rx_frame_def update_update)
  then show ?thesis by (simp add: mem conn)
qed

lemma rx_eqI:
  assumes "rx_inv T rs" and "rx_inv T rs'" and frame: "rx_frame T rs = rx_frame T rs'"
    and rec: "rx_received T rs = rx_received T rs'"
  shows "rs = rs'"
proof -
  obtain mc b where s: "cc_msg_table (rs_conn rs) ! unat (t_slot T) = Some mc" "mc_backend mc = Some b"
    "bb_wf b" "rx_received T rs = received b" "unat (t_slot T) < length (cc_msg_table (rs_conn rs))"
    using rx_invE [OF assms(1)] by metis
  obtain mc' b' where s': "cc_msg_table (rs_conn rs') ! unat (t_slot T) = Some mc'" "mc_backend mc' = Some b'"
    "bb_wf b'" "rx_received T rs' = received b'" "unat (t_slot T) < length (cc_msg_table (rs_conn rs'))"
    using rx_invE [OF assms(2)] by metis
  have "cc_msg_table (rs_conn (rx_frame T rs)) ! unat (t_slot T) =
      cc_msg_table (rs_conn (rx_frame T rs')) ! unat (t_slot T)" by (simp add: frame)
  then have "mc\<lparr>mc_backend := Some (b\<lparr>packet_bitmap := []\<rparr>)\<rparr> = mc'\<lparr>mc_backend := Some (b'\<lparr>packet_bitmap := []\<rparr>)\<rparr>"
    using s s' by (simp add: rx_frame_def update_message_def)
  from arg_cong [OF this, of mc_backend]
  have "b\<lparr>packet_bitmap := []\<rparr> = b'\<lparr>packet_bitmap := []\<rparr>" by simp
  then have "bb_frame b = bb_frame b'"
    by (cases b; cases b') (simp add: bb_frame_def)
  then have "b = b'" using bb_eqI s s' rec by metis
  then show ?thesis
    using rx_rebuild [OF assms(1) s(1,2)] rx_rebuild [OF assms(2) s'(1,2)] frame by simp
qed

lemma blank_backend: "bb_frame b = bb_frame b' \<Longrightarrow> b\<lparr>packet_bitmap := []\<rparr> = b'\<lparr>packet_bitmap := []\<rparr>"
  by (cases b; cases b') (simp add: bb_frame_def)

lemma effective_mtu_backend [simp]: "effective_mtu (mc\<lparr>mc_backend := x\<rparr>) = effective_mtu mc"
  by (simp add: effective_mtu_def)

text \<open>Recording a new packet whose bytes have been written.\<close>

lemma rx_advance:
  assumes inv: "rx_inv T rs" and mc: "cc_msg_table (rs_conn rs) ! unat (t_slot T) = Some mc"
    and b: "mc_backend mc = Some b" and b': "bb_wf b'" "bb_frame b' = bb_frame b"
    and rs': "rs' = rs\<lparr>rs_mem := (rs_mem rs)(t_buffer T := overlay T (received b')),
      rs_conn := update_message (rs_conn rs) (slot_of T) (\<lambda>mc. mc\<lparr>mc_backend := Some b'\<rparr>)\<rparr>"
  shows "rx_inv T rs' \<and> rx_frame T rs' = rx_frame T rs \<and> rx_received T rs' = received b'"
proof -
  obtain mc1 b1 where i: "cc_wf (rs_conn rs)" "unat (t_slot T) < length (cc_msg_table (rs_conn rs))"
    "0 < t_mtu T" "length (t_old T) = length (t_data T)" "length (t_data T) + 2 ^ 16 \<le> 2 ^ 64"
    "cc_msg_table (rs_conn rs) ! unat (t_slot T) = Some mc1"
    "mc_generation mc1 = t_generation T" "mc_state mc1 = ACTIVE" "mc_buffer mc1 = UserBuf (t_buffer T)"
    "unat (mc_buffer_size mc1) = length (t_data T)" "effective_mtu mc1 = t_mtu T"
    "mc_backend mc1 = Some b1"
    "\<forall>p. p < unat (bb_total_packets b1) \<longleftrightarrow> p * t_mtu T < length (t_data T)"
    by (rule rx_invE [OF inv]) blast
  have same: "mc1 = mc" "b1 = b" using i(6,12) mc b by auto
  have slot: "cc_msg_table (rs_conn rs') ! unat (t_slot T) = Some (mc\<lparr>mc_backend := Some b'\<rparr>)"
    using i(2) mc by (simp add: rs' update_message_def)
  have wf: "cc_wf (rs_conn rs')" using cc_wf_update [OF i(1)] by (simp add: rs')
  have total: "bb_total_packets b' = bb_total_packets b" using b'(2) by (simp add: bb_frame_def)
  have "rx_inv T rs'"
    unfolding rx_inv_def using wf slot i b'(1) total by (auto simp: same rs')
  moreover have "rx_frame T rs' = rx_frame T rs"
    using i(2) mc b blank_backend [OF b'(2)] by (simp add: rx_frame_def rs' update_message_def)
  moreover have "rx_received T rs' = received b'" by (simp add: rx_received_def slot)
  ultimately show ?thesis by blast
qed

lemma deliver_step:
  assumes inv: "rx_inv T rs" and good: "rx_good T x"
  shows "\<exists>rs'. deliver x rs = Some rs' \<and> rx_inv T rs' \<and> rx_frame T rs' = rx_frame T rs
    \<and> rx_received T rs' = rx_received T rs \<union> rx_adds T x"
proof -
  obtain h pl where x: "x = (h, pl)" by (cases x)
  let ?p = "unat (h_packet_offset h)" and ?L = "length (t_data T)" and ?m = "t_mtu T"
  have id: "h_msg_id h = t_slot T" and len: "length pl < 2 ^ 16"
    and bytes: "h_transfer_id h = t_generation T \<Longrightarrow> ?p * ?m < ?L \<Longrightarrow> pl = slice (t_data T) ?m ?p"
    using good by (auto simp: rx_good_def x)
  obtain mc b where i: "cc_wf (rs_conn rs)" "0 < ?m" "?L + 2 ^ 16 \<le> 2 ^ 64"
    "cc_msg_table (rs_conn rs) ! unat (t_slot T) = Some mc"
    "get_message (rs_conn rs) (slot_of T) = Some mc"
    "mc_generation mc = t_generation T" "mc_state mc = ACTIVE" "mc_buffer mc = UserBuf (t_buffer T)"
    "unat (mc_buffer_size mc) = ?L" "effective_mtu mc = ?m" "mc_backend mc = Some b" "bb_wf b"
    "\<forall>p. p < unat (bb_total_packets b) \<longleftrightarrow> p * ?m < ?L"
    "rs_mem rs (t_buffer T) = overlay T (received b)" "rx_received T rs = received b"
    by (rule rx_invE [OF inv]) blast
  have slot: "ucast (h_msg_id h) = slot_of T" by (simp add: id slot_of_def)
  have acc: "accepts mc h \<longleftrightarrow> h_transfer_id h = t_generation T" using i(6,7) by (auto simp: accepts_def)
  have already: "already_received mc (ucast (h_packet_offset h)) = Some (?p \<in> received b)"
    using is_packet_received_eq [OF i(12), of "ucast (h_packet_offset h)"] i(11)
    by (simp add: already_received_def)
  have step: "deliver x rs = (if h_transfer_id h = t_generation T \<and> ?p \<notin> received b
      then Option.bind (write_packet_to_buffer rs mc (ucast (h_packet_offset h)) pl)
        (\<lambda>rs'. record_packet rs' (slot_of T) (ucast (h_packet_offset h))) else Some rs)"
    by (simp add: deliver_def x process_packet_def slot i(5) acc already)
  have written: "write_packet_to_buffer rs mc (ucast (h_packet_offset h)) pl =
      (if ?L \<le> ?p * ?m then Some rs
       else Some (rs\<lparr>rs_mem := (rs_mem rs)(t_buffer T := take (?p * ?m) (overlay T (received b))
          @ take (?L - ?p * ?m) pl
          @ drop (?p * ?m + length (take (?L - ?p * ?m) pl)) (overlay T (received b)))\<rparr>))"
    using write_user_buffer [OF i(8), of rs pl "ucast (h_packet_offset h)"] i(3,9,10,14) len
    by (simp add: Let_def)
  obtain b' where b': "mark_received (ucast (h_packet_offset h)) b = Some b'" "bb_wf b'"
    "bb_frame b' = bb_frame b"
    "received b' = received b \<union> (if (ucast (h_packet_offset h) :: u32) < bb_total_packets b then {?p} else {})"
    using mark_received_eq [OF i(12), of "ucast (h_packet_offset h)"] by (metis unat_widen(4))
  have rec': "received b' = received b \<union> (if ?p * ?m < ?L then {?p} else {})"
    using b'(4) i(13) by (simp add: word_less_nat_alt)
  have recorded: "record_packet rs1 (slot_of T) (ucast (h_packet_offset h)) =
      Some (rs1\<lparr>rs_conn := update_message (rs_conn rs) (slot_of T) (\<lambda>mc. mc\<lparr>mc_backend := Some b'\<rparr>)\<rparr>)"
    if "rs_conn rs1 = rs_conn rs" for rs1
    using b'(1) i(5,11) that by (auto simp: record_packet_def mark_received_def)
  consider (old) "h_transfer_id h \<noteq> t_generation T \<or> ?p \<in> received b"
    | (past) "h_transfer_id h = t_generation T" "?p \<notin> received b" "?L \<le> ?p * ?m"
    | (fresh) "h_transfer_id h = t_generation T" "?p \<notin> received b" "?p * ?m < ?L" by linarith
  then show ?thesis
  proof cases
    case old
    then show ?thesis using step inv i(15) by (auto simp: rx_adds_def x)
  next
    case past
    let ?rs' = "rs\<lparr>rs_conn := update_message (rs_conn rs) (slot_of T) (\<lambda>mc. mc\<lparr>mc_backend := Some b'\<rparr>)\<rparr>"
    have "received b' = received b" using rec' past(3) by simp
    then have "?rs' = rs\<lparr>rs_mem := (rs_mem rs)(t_buffer T := overlay T (received b')),
      rs_conn := update_message (rs_conn rs) (slot_of T) (\<lambda>mc. mc\<lparr>mc_backend := Some b'\<rparr>)\<rparr>"
      using i(14) by (metis RecvState.surjective RecvState.update_convs fun_upd_triv)
    from rx_advance [OF inv i(4,11) b'(2,3) this]
    show ?thesis using step written past recorded [of rs] \<open>received b' = received b\<close> i(15)
      by (simp add: rx_adds_def x)
  next
    case fresh
    let ?mem = "(rs_mem rs)(t_buffer T := overlay T (received b'))"
    have "received b' = insert ?p (received b)" using rec' fresh(3) by simp
    moreover have "take (?L - ?p * ?m) (slice (t_data T) ?m ?p) = slice (t_data T) ?m ?p"
      by (simp add: slice_def min_def)
    ultimately have "write_packet_to_buffer rs mc (ucast (h_packet_offset h)) pl = Some (rs\<lparr>rs_mem := ?mem\<rparr>)"
      using written fresh overlay_write [OF i(2) fresh(3), of "received b"] bytes [OF fresh(1,3)] by simp
    then have "deliver x rs = Some (rs\<lparr>rs_mem := ?mem,
        rs_conn := update_message (rs_conn rs) (slot_of T) (\<lambda>mc. mc\<lparr>mc_backend := Some b'\<rparr>)\<rparr>)"
      using step fresh recorded [of "rs\<lparr>rs_mem := ?mem\<rparr>"] by simp
    with rx_advance [OF inv i(4,11) b'(2,3) HOL.refl] show ?thesis
      using fresh i(15) \<open>received b' = insert ?p (received b)\<close> by (simp add: rx_adds_def x)
  qed
qed

interpretation rx_sink: packet_sink deliver "rx_inv T" "\<lambda>_. rx_good T" for T
proof unfold_locales
  fix rs x assume "rx_inv T rs" "rx_good T x"
  then show "\<exists>rs'. deliver x rs = Some rs' \<and> rx_inv T rs' \<and> (\<forall>q. rx_good T q \<longrightarrow> rx_good T q)"
    using deliver_step by blast
next
  fix rs x y assume inv: "rx_inv T rs" and x: "rx_good T x" and y: "rx_good T y"
  obtain rx where rx: "deliver x rs = Some rx" "rx_inv T rx" "rx_frame T rx = rx_frame T rs"
    "rx_received T rx = rx_received T rs \<union> rx_adds T x" using deliver_step [OF inv x] by blast
  obtain ry where ry: "deliver y rs = Some ry" "rx_inv T ry" "rx_frame T ry = rx_frame T rs"
    "rx_received T ry = rx_received T rs \<union> rx_adds T y" using deliver_step [OF inv y] by blast
  obtain rxy where rxy: "deliver y rx = Some rxy" "rx_inv T rxy" "rx_frame T rxy = rx_frame T rx"
    "rx_received T rxy = rx_received T rx \<union> rx_adds T y" using deliver_step [OF rx(2) y] by blast
  obtain ryx where ryx: "deliver x ry = Some ryx" "rx_inv T ryx" "rx_frame T ryx = rx_frame T ry"
    "rx_received T ryx = rx_received T ry \<union> rx_adds T x" using deliver_step [OF ry(2) x] by blast
  have "rxy = ryx"
    by (rule rx_eqI [OF rxy(2) ryx(2)]) (use rx ry rxy ryx in auto)
  then show "Option.bind (deliver x rs) (deliver y) = Option.bind (deliver y rs) (deliver x)"
    using rx(1) ry(1) rxy(1) ryx(1) by simp
next
  fix rs rs' x assume inv: "rx_inv T rs" and x: "rx_good T x" and d: "deliver x rs = Some rs'"
  obtain r1 where r1: "deliver x rs = Some r1" "rx_inv T r1" "rx_frame T r1 = rx_frame T rs"
    "rx_received T r1 = rx_received T rs \<union> rx_adds T x" using deliver_step [OF inv x] by blast
  obtain r2 where r2: "deliver x r1 = Some r2" "rx_inv T r2" "rx_frame T r2 = rx_frame T r1"
    "rx_received T r2 = rx_received T r1 \<union> rx_adds T x" using deliver_step [OF r1(2) x] by blast
  have "r2 = r1" by (rule rx_eqI [OF r2(2) r1(2)]) (use r1 r2 in auto)
  with d r1(1) r2(1) show "deliver x rs' = Some rs'" by simp
qed

lemma deliver_all:
  assumes "rx_inv T rs" and "\<forall>x\<in>set xs. rx_good T x"
  shows "\<exists>rs'. run_all deliver xs rs = Some rs' \<and> rx_inv T rs' \<and> rx_frame T rs' = rx_frame T rs
    \<and> rx_received T rs' = rx_received T rs \<union> (\<Union>x\<in>set xs. rx_adds T x)"
  using assms
proof (induction xs arbitrary: rs)
  case Nil
  then show ?case by simp
next
  case (Cons x xs)
  have "rx_good T x" using Cons.prems(2) by simp
  then obtain r1 where r1: "deliver x rs = Some r1" "rx_inv T r1" "rx_frame T r1 = rx_frame T rs"
    "rx_received T r1 = rx_received T rs \<union> rx_adds T x"
    using deliver_step [OF Cons.prems(1)] by blast
  with Cons.IH [OF r1(2)] Cons.prems(2) show ?case by auto
qed

lemma rx_inv_buffer:
  "rx_inv T rs \<Longrightarrow> rs_mem rs (t_buffer T) = overlay T (rx_received T rs)"
  by (erule rx_invE) simp

text \<open>A message that has just been posted is in this state, with nothing received.\<close>

lemma posted_rx_inv:
  assumes cc: "cc_wf cc" and alloc: "allocate_message_slot cc (slot_of T) g = (Some mc, cc1)"
    and gen: "t_generation T = mc_generation mc"
    and mtu: "cp_mtu_bytes params \<noteq> 0" "t_mtu T = unat (cp_mtu_bytes params)"
    and ppc: "cp_packets_per_chunk params \<noteq> 0"
    and len: "unat len = length (t_data T)" "length (t_old T) = length (t_data T)"
      "unat len + 2 ^ 33 \<le> 2 ^ 64"
    and sizes: "calculate_bitmap_sizes len (cp_mtu_bytes params) (cp_packets_per_chunk params) = (tp, tc)"
    and fits: "unat tp + 63 < 2 ^ 32" and old: "mem (t_buffer T) = t_old T"
  shows "rx_inv T \<lparr>rs_conn = update_message cc1 (slot_of T) (setup_message (UserBuf (t_buffer T)) len tp tc params),
      rs_mem = mem\<rparr>"
    and "rx_received T \<lparr>rs_conn = update_message cc1 (slot_of T)
      (setup_message (UserBuf (t_buffer T)) len tp tc params), rs_mem = mem\<rparr> = {}"
proof -
  let ?rs = "\<lparr>rs_conn = update_message cc1 (slot_of T) (setup_message (UserBuf (t_buffer T)) len tp tc params),
      rs_mem = mem\<rparr>"
  let ?b = "BackendBitmap_new (ucast tp) (cp_packets_per_chunk params)"
  have ok: "slot_reusable (cc_msg_table cc ! unat (slot_of T)) g"
    using alloc by (auto simp: allocate_message_slot_def split: if_splits)
  obtain mc' where a: "mc' = mc" "mc_state mc = ACTIVE"
    "cc_msg_table cc1 = (cc_msg_table cc)[unat (slot_of T) := Some mc]"
    using allocate_slot [OF cc _ ok] alloc by (metis prod.inject option.inject unat_slot_of)
  have l: "unat (t_slot T) < length (cc_msg_table cc)" using cc by (simp add: cc_wf_def)
  then have slot: "cc_msg_table (rs_conn ?rs) ! unat (t_slot T)
      = Some (setup_message (UserBuf (t_buffer T)) len tp tc params mc)"
    by (simp add: update_message_def a(3))
  have wf1: "cc_wf cc1" using cc_wf_allocate [OF cc, of "slot_of T" g] alloc by simp
  then have wf: "cc_wf (rs_conn ?rs)" using cc_wf_update by simp
  have tp: "unat (ucast tp :: u32) = unat tp" using fits by (simp add: unat_ucast_mod)
  have cover: "unat tp \<le> n \<longleftrightarrow> unat len \<le> n * t_mtu T" for n
    using bitmap_sizes [of len "cp_mtu_bytes params" "cp_packets_per_chunk params"]
      sizes mtu ppc len(3) unat_width(3) [of "cp_packets_per_chunk params"]
      unat_width(5) [of "cp_mtu_bytes params"] by simp
  have bb: "bb_wf ?b" "received ?b = {}" using new_wf [of "ucast tp"] fits by (simp_all add: tp)
  have "p < unat (bb_total_packets ?b) \<longleftrightarrow> p * t_mtu T < length (t_data T)" for p
    using cover [of p] len(1) by (simp add: tp not_le [symmetric])
  then show "rx_inv T ?rs"
    unfolding rx_inv_def
    using wf slot bb len old mtu a(2) gen
    by (auto simp: overlay_none effective_mtu_def unat_gt_0 simp del: new_simps)
  show "rx_received T ?rs = {}" using slot bb by (simp add: rx_received_def)
qed

section \<open>Arbitrary datagrams\<close>

text \<open>
  The memory conditions for receiving at all: an active message has a user's buffer of at least the
  recorded size, or none, and a well-formed packet bitmap, or none.
\<close>

definition msg_ok :: "(nat \<Rightarrow> u8 list) \<Rightarrow> MessageContext \<Rightarrow> bool" where
  "msg_ok mem mc \<longleftrightarrow> (mc_state mc = ACTIVE \<longrightarrow>
     unat (mc_buffer_size mc) + 2 ^ 16 \<le> 2 ^ 64
     \<and> (mc_buffer mc = NullPtr
         \<or> (\<exists>b. mc_buffer mc = UserBuf b \<and> unat (mc_buffer_size mc) \<le> length (mem b)))
     \<and> (\<forall>b. mc_backend mc = Some b \<longrightarrow> bb_wf b))"

definition rs_wf :: "RecvState \<Rightarrow> bool" where
  "rs_wf rs \<longleftrightarrow> cc_wf (rs_conn rs)
     \<and> (\<forall>i mc. i < MAX_MESSAGES \<longrightarrow> cc_msg_table (rs_conn rs) ! i = Some mc \<longrightarrow> msg_ok (rs_mem rs) mc)"

text \<open>What handling a datagram may change: one buffer's bytes and one message's packet bitmap.\<close>

definition touches_only :: "u32 \<Rightarrow> MessageContext \<Rightarrow> RecvState \<Rightarrow> RecvState \<Rightarrow> bool" where
  "touches_only i mc rs rs' \<longleftrightarrow>
     (\<forall>b. length (rs_mem rs' b) = length (rs_mem rs b))
     \<and> (\<forall>b. mc_buffer mc \<noteq> UserBuf b \<longrightarrow> rs_mem rs' b = rs_mem rs b)
     \<and> (\<exists>bk. rs_conn rs' = update_message (rs_conn rs) i (\<lambda>mc. mc\<lparr>mc_backend := bk\<rparr>))"

lemma msg_ok_cong:
  "(\<And>b. length (mem b) = length (mem' b)) \<Longrightarrow> msg_ok mem mc = msg_ok mem' mc"
  by (simp add: msg_ok_def)

lemma write_ok:
  assumes "msg_ok (rs_mem rs) mc" and "mc_state mc = ACTIVE" and "length pl < 2 ^ 16"
  shows "\<exists>mem'. write_packet_to_buffer rs mc p pl = Some (rs\<lparr>rs_mem := mem'\<rparr>)
    \<and> (\<forall>b. length (mem' b) = length (rs_mem rs b))
    \<and> (\<forall>b. mc_buffer mc \<noteq> UserBuf b \<longrightarrow> mem' b = rs_mem rs b)"
proof (cases "mc_buffer mc = NullPtr")
  case True
  then have "write_packet_to_buffer rs mc p pl = Some (rs\<lparr>rs_mem := rs_mem rs\<rparr>)"
    by (simp add: write_packet_to_buffer_def)
  then show ?thesis by blast
next
  case False
  then obtain b where b: "mc_buffer mc = UserBuf b" "unat (mc_buffer_size mc) \<le> length (rs_mem rs b)"
    using assms(1,2) by (auto simp: msg_ok_def)
  let ?off = "unat p * effective_mtu mc" and ?size = "unat (mc_buffer_size mc)"
  let ?fits = "take (?size - ?off) pl"
  have n: "length pl + ?size < 2 ^ 64" using assms by (simp add: msg_ok_def)
  note w = write_user_buffer [OF b n, of p, unfolded Let_def]
  show ?thesis
  proof (cases "?size \<le> ?off")
    case True
    then have "write_packet_to_buffer rs mc p pl = Some (rs\<lparr>rs_mem := rs_mem rs\<rparr>)" using w by simp
    then show ?thesis by blast
  next
    case in_range: False
    let ?mem = "(rs_mem rs)(b := take ?off (rs_mem rs b) @ ?fits @ drop (?off + length ?fits) (rs_mem rs b))"
    have "write_packet_to_buffer rs mc p pl = Some (rs\<lparr>rs_mem := ?mem\<rparr>)" using w in_range by simp
    moreover have "\<forall>b. length (?mem b) = length (rs_mem rs b)" using in_range b(2) by auto
    moreover have "\<forall>b'. mc_buffer mc \<noteq> UserBuf b' \<longrightarrow> ?mem b' = rs_mem rs b'" using b(1) by auto
    ultimately show ?thesis by blast
  qed
qed

lemma get_message_slot:
  "get_message cc i = Some mc \<Longrightarrow> unat i < MAX_MESSAGES \<and> cc_msg_table cc ! unat i = Some mc"
  by (auto simp: get_message_def split: if_splits option.splits)

lemma record_ok:
  assumes g: "get_message (rs_conn rs) i = Some mc" and bb: "\<And>b. mc_backend mc = Some b \<Longrightarrow> bb_wf b"
  shows "\<exists>bk. record_packet rs i p
      = Some (rs\<lparr>rs_conn := update_message (rs_conn rs) i (\<lambda>mc. mc\<lparr>mc_backend := bk\<rparr>)\<rparr>)
    \<and> (\<forall>b. bk = Some b \<longrightarrow> bb_wf b)"
proof (cases "mc_backend mc")
  case None
  have "update_message (rs_conn rs) i (\<lambda>mc. mc\<lparr>mc_backend := None\<rparr>) = rs_conn rs"
    by (rule update_same [of _ _ mc]) (use None get_message_slot [OF g] in auto)
  then have "record_packet rs i p
      = Some (rs\<lparr>rs_conn := update_message (rs_conn rs) i (\<lambda>mc. mc\<lparr>mc_backend := None\<rparr>)\<rparr>)"
    by (simp add: record_packet_def g None)
  then show ?thesis by blast
next
  case (Some b)
  obtain b' where "mark_received p b = Some b'" "bb_wf b'"
    using mark_received_eq [OF bb [OF Some]] by metis
  then have "record_packet rs i p
      = Some (rs\<lparr>rs_conn := update_message (rs_conn rs) i (\<lambda>mc. mc\<lparr>mc_backend := Some b'\<rparr>)\<rparr>)"
    by (auto simp: record_packet_def g Some mark_received_def)
  with \<open>bb_wf b'\<close> show ?thesis by blast
qed

lemma touches_only_wf:
  assumes wf: "rs_wf rs" and g: "get_message (rs_conn rs) i = Some mc"
    and t: "rs' = rs\<lparr>rs_mem := mem', rs_conn := update_message (rs_conn rs) i (\<lambda>mc. mc\<lparr>mc_backend := bk\<rparr>)\<rparr>"
    and len: "\<forall>b. length (mem' b) = length (rs_mem rs b)" and bk: "\<forall>b. bk = Some b \<longrightarrow> bb_wf b"
  shows "rs_wf rs'"
proof -
  have cc: "cc_wf (rs_conn rs)" using wf by (simp add: rs_wf_def)
  note slot = get_message_slot [OF g]
  have same: "msg_ok mem' m = msg_ok (rs_mem rs) m" for m using len by (intro msg_ok_cong) simp
  have "msg_ok (rs_mem rs) mc" using wf slot by (auto simp: rs_wf_def)
  then have new: "msg_ok (rs_mem rs) (mc\<lparr>mc_backend := bk\<rparr>)" using bk by (simp add: msg_ok_def)
  have "unat i < length (cc_msg_table (rs_conn rs))" using cc slot by (simp add: cc_wf_def)
  then have "msg_ok mem' m" if "k < MAX_MESSAGES" "cc_msg_table (rs_conn rs') ! k = Some m" for k m
    using that wf new slot by (cases "k = unat i") (auto simp: t same rs_wf_def update_message_def)
  then show ?thesis using cc_wf_update [OF cc] by (simp add: rs_wf_def t)
qed

lemma process_packet_safe:
  assumes wf: "rs_wf rs" and n: "length pl < 2 ^ 16"
  shows "\<exists>rs'. process_packet rs h pl = Some rs' \<and> rs_wf rs' \<and>
    (rs' = rs \<or> (\<exists>mc. get_message (rs_conn rs) (ucast (h_msg_id h)) = Some mc \<and> accepts mc h
        \<and> touches_only (ucast (h_msg_id h)) mc rs rs'))"
proof (cases "get_message (rs_conn rs) (ucast (h_msg_id h))")
  case None
  then show ?thesis using wf by (simp add: process_packet_def)
next
  case (Some mc)
  let ?i = "ucast (h_msg_id h) :: u32" and ?p = "ucast (h_packet_offset h) :: u32"
  have ok: "msg_ok (rs_mem rs) mc" using wf get_message_slot [OF Some] by (auto simp: rs_wf_def)
  show ?thesis
  proof (cases "accepts mc h")
    case False
    then show ?thesis using wf Some by (simp add: process_packet_def)
  next
    case acc: True
    then have act: "mc_state mc = ACTIVE" by (cases "mc_state mc") (auto simp: accepts_def)
    have bb: "\<And>b. mc_backend mc = Some b \<Longrightarrow> bb_wf b" using ok act by (simp add: msg_ok_def)
    obtain r where r: "already_received mc ?p = Some r"
      using bb is_packet_received_eq by (cases "mc_backend mc") (auto simp: already_received_def)
    show ?thesis
    proof (cases r)
      case True
      then show ?thesis using wf Some acc r by (simp add: process_packet_def)
    next
      case False
      obtain mem' where w: "write_packet_to_buffer rs mc ?p pl = Some (rs\<lparr>rs_mem := mem'\<rparr>)"
        "\<forall>b. length (mem' b) = length (rs_mem rs b)"
        "\<forall>b. mc_buffer mc \<noteq> UserBuf b \<longrightarrow> mem' b = rs_mem rs b"
        using write_ok [OF ok act n] by blast
      obtain bk where k: "record_packet (rs\<lparr>rs_mem := mem'\<rparr>) ?i ?p = Some (rs\<lparr>rs_mem := mem',
          rs_conn := update_message (rs_conn rs) ?i (\<lambda>mc. mc\<lparr>mc_backend := bk\<rparr>)\<rparr>)"
        "\<forall>b. bk = Some b \<longrightarrow> bb_wf b"
        using record_ok [of "rs\<lparr>rs_mem := mem'\<rparr>" ?i mc ?p] Some bb by auto
      let ?rs' = "rs\<lparr>rs_mem := mem',
          rs_conn := update_message (rs_conn rs) ?i (\<lambda>mc. mc\<lparr>mc_backend := bk\<rparr>)\<rparr>"
      have "process_packet rs h pl = Some ?rs'"
        using Some acc r False w(1) k(1) by (simp add: process_packet_def)
      moreover have "rs_wf ?rs'" by (rule touches_only_wf [OF wf Some HOL.refl w(2) k(2)])
      moreover have "touches_only ?i mc rs ?rs'" using w(2,3) by (auto simp: touches_only_def)
      ultimately show ?thesis using Some acc by blast
    qed
  qed
qed

lemma parse_length:
  assumes "parse_datagram bytes = Some (h, pl)"
  shows "length pl < 2 ^ 16"
  using assms unfolding parse_datagram_def Let_def
  by (auto simp: max_packet_size_def header_size_def split: if_splits)

definition exposed :: "RecvState \<Rightarrow> nat \<Rightarrow> bool" where
  "exposed rs b \<longleftrightarrow> (\<exists>i<MAX_MESSAGES. \<exists>mc. cc_msg_table (rs_conn rs) ! i = Some mc
     \<and> mc_state mc = ACTIVE \<and> mc_buffer mc = UserBuf b)"

lemma touches_only_exposed:
  assumes wf: "rs_wf rs" and t: "touches_only i mc rs rs'" and i: "get_message (rs_conn rs) i = Some mc"
  shows "exposed rs' b = exposed rs b"
proof -
  obtain bk where u: "rs_conn rs' = update_message (rs_conn rs) i (\<lambda>mc. mc\<lparr>mc_backend := bk\<rparr>)"
    using t by (auto simp: touches_only_def)
  have slot: "cc_msg_table (rs_conn rs) ! unat i = Some mc" using get_message_slot [OF i] by simp
  have l: "length (cc_msg_table (rs_conn rs)) = MAX_MESSAGES" using wf by (simp add: rs_wf_def cc_wf_def)
  have "(\<exists>m. cc_msg_table (rs_conn rs') ! k = Some m \<and> mc_state m = ACTIVE \<and> mc_buffer m = UserBuf b)
      \<longleftrightarrow> (\<exists>m. cc_msg_table (rs_conn rs) ! k = Some m \<and> mc_state m = ACTIVE \<and> mc_buffer m = UserBuf b)"
    if "k < MAX_MESSAGES" for k
    using that l slot by (cases "k = unat i") (auto simp: u update_message_def)
  then show ?thesis unfolding exposed_def by blast
qed

lemma handle_datagram_safe:
  assumes wf: "rs_wf rs"
  shows "\<exists>rs'. handle_datagram rs bytes = Some rs' \<and> rs_wf rs'
    \<and> (\<forall>b. length (rs_mem rs' b) = length (rs_mem rs b) \<and> exposed rs' b = exposed rs b
          \<and> (\<not> exposed rs b \<longrightarrow> rs_mem rs' b = rs_mem rs b))"
proof (cases "parse_datagram bytes")
  case None
  then show ?thesis using wf by (simp add: handle_datagram_def)
next
  case (Some x)
  obtain h pl where x: "x = (h, pl)" by (cases x)
  then obtain rs' where rs': "process_packet rs h pl = Some rs'" "rs_wf rs'"
    "rs' = rs \<or> (\<exists>mc. get_message (rs_conn rs) (ucast (h_msg_id h)) = Some mc \<and> accepts mc h
        \<and> touches_only (ucast (h_msg_id h)) mc rs rs')"
    using process_packet_safe [OF wf parse_length] Some by blast
  have "\<forall>b. length (rs_mem rs' b) = length (rs_mem rs b) \<and> exposed rs' b = exposed rs b
      \<and> (\<not> exposed rs b \<longrightarrow> rs_mem rs' b = rs_mem rs b)"
    using rs'(3)
  proof
    assume "\<exists>mc. get_message (rs_conn rs) (ucast (h_msg_id h)) = Some mc \<and> accepts mc h
        \<and> touches_only (ucast (h_msg_id h)) mc rs rs'"
    then obtain mc where mc: "get_message (rs_conn rs) (ucast (h_msg_id h)) = Some mc" "accepts mc h"
      "touches_only (ucast (h_msg_id h)) mc rs rs'" by blast
    have "mc_state mc = ACTIVE" using mc(2) by (cases "mc_state mc") (auto simp: accepts_def)
    then have "mc_buffer mc = UserBuf b \<Longrightarrow> exposed rs b" for b
      using get_message_slot [OF mc(1)] by (auto simp: exposed_def)
    then show ?thesis
      using mc(3) touches_only_exposed [OF wf mc(3,1)] by (auto simp: touches_only_def)
  qed simp
  then show ?thesis using rs' Some x by (simp add: handle_datagram_def)
qed

lemma receiver_loop_safe:
  "rs_wf rs \<Longrightarrow> \<exists>rs'. receiver_loop rs evs = Some rs' \<and> rs_wf rs'
    \<and> (\<forall>b. length (rs_mem rs' b) = length (rs_mem rs b) \<and> exposed rs' b = exposed rs b
          \<and> (\<not> exposed rs b \<longrightarrow> rs_mem rs' b = rs_mem rs b))"
proof (induction rs evs rule: receiver_loop.induct)
  case (5 rs bytes evs)
  obtain r1 where r1: "handle_datagram rs bytes = Some r1" "rs_wf r1"
    "\<forall>b. length (rs_mem r1 b) = length (rs_mem rs b) \<and> exposed r1 b = exposed rs b
        \<and> (\<not> exposed rs b \<longrightarrow> rs_mem r1 b = rs_mem rs b)"
    using handle_datagram_safe [OF "5.prems"] by blast
  from "5.IH" [OF r1(1,2)] r1 show ?case by simp
qed auto

section \<open>What a slot promises\<close>

text \<open>
  The specification of a slot with an active message, written without the code's operations: the packets
  it has got and the bytes of its buffer.  A packet of its generation that it has not got yet puts its
  bytes at packet number times packet size, cut off at the end of the buffer, and is remembered unless
  its number is beyond the message; any other packet leaves the slot as it is.
\<close>

record SlotView =
  sv_generation :: u32
  sv_packet :: nat
  sv_packets :: nat
  sv_got :: "nat set"
  sv_bytes :: "u8 list"

definition view_receive :: "SDRPacketHeader \<Rightarrow> u8 list \<Rightarrow> SlotView \<Rightarrow> SlotView" where
  "view_receive h pl v =
     (let p = unat (h_packet_offset h); off = p * sv_packet v in
      if h_transfer_id h \<noteq> sv_generation v \<or> p \<in> sv_got v then v
      else v\<lparr>sv_got := (if p < sv_packets v then insert p (sv_got v) else sv_got v),
             sv_bytes := map (\<lambda>j. if off \<le> j \<and> j < off + length pl then pl ! (j - off) else sv_bytes v ! j)
               [0..<length (sv_bytes v)]\<rparr>)"

text \<open>
  A datagram concerns slot \<open>i\<close> if it holds the 32 bytes of a header with the magic number and the header
  names the slot.  Of a datagram the first 65528 bytes are read; the payload is what the header
  announces, or what there is of it.
\<close>

definition view_datagram :: "nat \<Rightarrow> u8 list \<Rightarrow> SlotView \<Rightarrow> SlotView" where
  "view_datagram i bytes v =
     (let h = to_host_order (header_of_image (take 32 bytes)) in
      if length bytes < 32 \<or> h_magic h \<noteq> 0x5344 \<or> unat (h_msg_id h) \<noteq> i then v
      else view_receive h (take (unat (h_payload_len h)) (drop 32 (take 65528 bytes))) v)"

text \<open>The datagrams that a worker takes from its socket: those before it is stopped or its socket fails.\<close>

definition heard :: "UdpEvent list \<Rightarrow> u8 list list" where
  "heard evs = concat (map (\<lambda>e. case e of Datagram bytes \<Rightarrow> [bytes] | _ \<Rightarrow> [])
     (takeWhile (\<lambda>e. e \<noteq> StopSeen \<and> e \<noteq> UdpFailed) evs))"

text \<open>What a slot of the table shows of itself, if its message is active and has a buffer and a bitmap.\<close>

definition message_view :: "(nat \<Rightarrow> u8 list) \<Rightarrow> MessageContext \<Rightarrow> SlotView option" where
  "message_view mem mc =
     (case (mc_state mc, mc_buffer mc, mc_backend mc) of
        (ACTIVE, UserBuf b, Some bk) \<Rightarrow>
          Some \<lparr> sv_generation = mc_generation mc, sv_packet = effective_mtu mc,
            sv_packets = unat (bb_total_packets bk), sv_got = received bk,
            sv_bytes = take (unat (mc_buffer_size mc)) (mem b) \<rparr>
      | _ \<Rightarrow> None)"

definition slot_view :: "RecvState \<Rightarrow> nat \<Rightarrow> SlotView option" where
  "slot_view rs i = Option.bind (cc_msg_table (rs_conn rs) ! i) (message_view (rs_mem rs))"

text \<open>No two active messages share a buffer.\<close>

definition active_buffer :: "RecvState \<Rightarrow> nat \<Rightarrow> nat option" where
  "active_buffer rs i =
     Option.bind (cc_msg_table (rs_conn rs) ! i)
       (\<lambda>mc. case (mc_state mc, mc_buffer mc) of (ACTIVE, UserBuf b) \<Rightarrow> Some b | _ \<Rightarrow> None)"

definition buffers_apart :: "RecvState \<Rightarrow> bool" where
  "buffers_apart rs \<longleftrightarrow> (\<forall>i<MAX_MESSAGES. \<forall>j<MAX_MESSAGES. i \<noteq> j \<longrightarrow> active_buffer rs i \<noteq> None \<longrightarrow>
     active_buffer rs i \<noteq> active_buffer rs j)"

lemma heard_simps:
  "heard [] = []" "heard (StopSeen # evs) = []" "heard (UdpFailed # evs) = []" "heard (UdpRetry # evs) = heard evs"
  "heard (Datagram bytes # evs) = bytes # heard evs"
  by (simp_all add: heard_def)

lemma view_datagram_parsed:
  "view_datagram i bytes v =
     (case parse_datagram bytes of
        None \<Rightarrow> v
      | Some (h, pl) \<Rightarrow> if unat (h_msg_id h) = i then view_receive h pl v else v)"
proof -
  let ?h = "to_host_order (header_of_image (take 32 bytes))" and ?rb = "take 65528 bytes"
  have cut: "take (min (length rb - 32) k) (drop 32 rb) = take k (drop 32 rb)" for k and rb :: "u8 list"
    by (simp add: min_def)
  have width: "max_packet_size = 65528" "header_size = 32" by (simp_all add: max_packet_size_def header_size_def)
  have "parse_datagram bytes = (if length bytes < 32 \<or> h_magic ?h \<noteq> 0x5344 then None
      else Some (?h, take (unat (h_payload_len ?h)) (drop 32 ?rb)))"
    unfolding parse_datagram_def Let_def width header_is_valid_def HDR_MAGIC_VALUE_def cut by (simp add: min_def)
  then show ?thesis by (simp add: view_datagram_def Let_def)
qed

lemma overwrite_view:
  assumes "n \<le> length m" and "off < n"
  shows "take n (take off m @ take (n - off) pl @ drop (off + length (take (n - off) pl)) m)
    = map (\<lambda>j. if off \<le> j \<and> j < off + length pl then pl ! (j - off) else take n m ! j) [0..<length (take n m)]"
proof (rule nth_equalityI)
  let ?w = "take (n - off) pl"
  let ?new = "take off m @ ?w @ drop (off + length ?w) m"
  have w: "off + length ?w \<le> n" using assms by simp
  then show len: "length (take n ?new) = length (map (\<lambda>j. if off \<le> j \<and> j < off + length pl then pl ! (j - off)
      else take n m ! j) [0..<length (take n m)])" using assms by simp
  fix j assume "j < length (take n ?new)"
  then have j: "j < n" using len assms by simp
  have "?new ! j = (if off \<le> j \<and> j < off + length ?w then ?w ! (j - off) else m ! j)"
    using assms w j by (auto simp: nth_append)
  then show "take n ?new ! j = map (\<lambda>j. if off \<le> j \<and> j < off + length pl then pl ! (j - off)
      else take n m ! j) [0..<length (take n m)] ! j"
    unfolding nth_take [OF j] using j assms by auto
qed

lemma view_unchanged:
  assumes "n \<le> off"
  shows "map (\<lambda>j. if off \<le> j \<and> j < off + length pl then pl ! (j - off) else take n m ! j) [0..<length (take n m)] = take n m"
  by (rule nth_equalityI) (use assms in auto)

text \<open>An accepted packet that is new: the memory and the bitmap after it.\<close>

lemma accepted_view:
  assumes ok: "msg_ok (rs_mem rs) mc" and v: "message_view (rs_mem rs) mc = Some v" and n: "length pl < 2 ^ 16"
    and new: "h_transfer_id h = sv_generation v" "unat (h_packet_offset h) \<notin> sv_got v"
    and w: "write_packet_to_buffer rs mc (ucast (h_packet_offset h)) pl = Some (rs\<lparr>rs_mem := mem'\<rparr>)"
    and bk: "mc_backend mc = Some bk" "mark_received (ucast (h_packet_offset h)) bk = Some bk'"
  shows "message_view mem' (mc\<lparr>mc_backend := Some bk'\<rparr>) = Some (view_receive h pl v)"
proof -
  obtain b where act: "mc_state mc = ACTIVE" and b: "mc_buffer mc = UserBuf b"
    and v': "v = \<lparr> sv_generation = mc_generation mc, sv_packet = effective_mtu mc,
            sv_packets = unat (bb_total_packets bk), sv_got = received bk,
            sv_bytes = take (unat (mc_buffer_size mc)) (rs_mem rs b) \<rparr>"
    using v bk(1) by (auto simp: message_view_def split: MessageState.splits BufRef.splits)
  have size: "unat (mc_buffer_size mc) \<le> length (rs_mem rs b)" and len: "length pl + unat (mc_buffer_size mc) < 2 ^ 64"
    and wf: "bb_wf bk" using ok act b bk(1) n by (auto simp: msg_ok_def)
  obtain b1 where b1: "mark_received (ucast (h_packet_offset h)) bk = Some b1" "bb_frame b1 = bb_frame bk"
    "received b1 = received bk \<union> (if ucast (h_packet_offset h) < bb_total_packets bk then {unat (ucast (h_packet_offset h) :: u32)} else {})"
    using mark_received_eq [OF wf] by metis
  have p: "unat (ucast (h_packet_offset h) :: u32) = unat (h_packet_offset h)" by (simp add: unat_ucast_up)
  have got: "received bk' = (if unat (h_packet_offset h) < unat (bb_total_packets bk)
      then insert (unat (h_packet_offset h)) (received bk) else received bk)" "bb_total_packets bk' = bb_total_packets bk"
    using b1 bk(2) p by (auto simp: word_less_nat_alt bb_frame_def)
  let ?off = "unat (h_packet_offset h) * effective_mtu mc" and ?n = "unat (mc_buffer_size mc)" and ?m = "rs_mem rs b"
  note w' = w [unfolded write_user_buffer [OF b size len] p Let_def]
  have "take ?n (mem' b) = map (\<lambda>j. if ?off \<le> j \<and> j < ?off + length pl then pl ! (j - ?off) else take ?n ?m ! j)
      [0..<length (take ?n ?m)]"
  proof (cases "?n \<le> ?off")
    case True
    then have "rs_mem rs = mem'" using w' by (cases rs) simp
    then show ?thesis unfolding view_unchanged [OF True] by simp
  next
    case False
    then have "mem' b = take ?off ?m @ take (?n - ?off) pl @ drop (?off + length (take (?n - ?off) pl)) ?m"
      using w' by (cases rs) auto
    then show ?thesis using overwrite_view [OF size, of ?off pl] False by simp
  qed
  then show ?thesis using new by (simp add: message_view_def act b got v' view_receive_def Let_def effective_mtu_def)
qed

text \<open>A packet that the guards turn away.\<close>

lemma dropped_view:
  assumes ok: "msg_ok (rs_mem rs) mc" and v: "message_view (rs_mem rs) mc = Some v"
    and drop: "\<not> (accepts mc h \<and> already_received mc (ucast (h_packet_offset h)) \<noteq> Some True)"
  shows "view_receive h pl v = v"
proof -
  obtain b bk where v': "mc_state mc = ACTIVE" "mc_buffer mc = UserBuf b" "mc_backend mc = Some bk"
    "sv_generation v = mc_generation mc" "sv_got v = received bk"
    using v by (auto simp: message_view_def split: MessageState.splits BufRef.splits option.splits)
  have "already_received mc (ucast (h_packet_offset h)) = Some (unat (h_packet_offset h) \<in> received bk)"
    using ok v'(1,3) by (simp add: already_received_def is_packet_received_eq msg_ok_def unat_ucast_up)
  then show ?thesis using drop v' by (auto simp: accepts_def view_receive_def)
qed

text \<open>A packet that they let pass, whether the slot shows itself or not.\<close>

lemma passed_view:
  assumes ok: "msg_ok (rs_mem rs) mc" and n: "length pl < 2 ^ 16" and pass: "accepts mc h"
    and new: "already_received mc (ucast (h_packet_offset h)) = Some False"
    and w: "write_packet_to_buffer rs mc (ucast (h_packet_offset h)) pl = Some (rs\<lparr>rs_mem := mem'\<rparr>)"
    and bk: "bk = Option.bind (mc_backend mc) (mark_received (ucast (h_packet_offset h)))"
  shows "message_view mem' (mc\<lparr>mc_backend := bk\<rparr>) = map_option (view_receive h pl) (message_view (rs_mem rs) mc)"
proof -
  have act: "mc_state mc = ACTIVE" and gen: "mc_generation mc = h_transfer_id h"
    using pass by (cases "mc_state mc"; simp add: accepts_def)+
  show ?thesis
  proof (cases "message_view (rs_mem rs) mc")
    case None
    then show ?thesis using act bk by (auto simp: message_view_def split: option.splits BufRef.splits)
  next
    case (Some v)
    then obtain b0 where b0: "mc_backend mc = Some b0" "sv_generation v = mc_generation mc" "sv_got v = received b0"
      by (auto simp: message_view_def split: MessageState.splits BufRef.splits option.splits)
    have wf: "bb_wf b0" using ok act b0(1) by (simp add: msg_ok_def)
    obtain b1 where b1: "mark_received (ucast (h_packet_offset h)) b0 = Some b1" using mark_received_eq [OF wf] by metis
    have "unat (h_packet_offset h) \<notin> received b0"
      using new wf by (simp add: already_received_def b0(1) is_packet_received_eq unat_ucast_up)
    then show ?thesis using accepted_view [OF ok Some n _ _ w b0(1) b1] gen b0 Some bk b1 by simp
  qed
qed

text \<open>A change of one message's buffer and bitmap, seen from all slots.\<close>

lemma one_slot_changed:
  assumes wf: "rs_wf rs" and apart: "buffers_apart rs" and k: "unat k < MAX_MESSAGES"
    and mc: "cc_msg_table (rs_conn rs) ! unat k = Some mc" "mc_state mc = ACTIVE"
    and mem: "\<forall>b. mc_buffer mc \<noteq> UserBuf b \<longrightarrow> mem' b = rs_mem rs b"
    and rs': "rs' = rs\<lparr>rs_mem := mem', rs_conn := update_message (rs_conn rs) k (\<lambda>mc. mc\<lparr>mc_backend := bk\<rparr>)\<rparr>"
  shows "buffers_apart rs'"
    and "i < MAX_MESSAGES \<Longrightarrow> slot_view rs' i = (if i = unat k then message_view mem' (mc\<lparr>mc_backend := bk\<rparr>) else slot_view rs i)"
proof -
  have "unat k < length (cc_msg_table (rs_conn rs))" using wf k by (simp add: rs_wf_def cc_wf_def)
  then have tab: "cc_msg_table (rs_conn rs') ! i = (if i = unat k then Some (mc\<lparr>mc_backend := bk\<rparr>) else cc_msg_table (rs_conn rs) ! i)" for i
    using mc(1) by (simp add: rs' update_message_def)
  have mem': "rs_mem rs' = mem'" by (simp add: rs')
  have "active_buffer rs' i = active_buffer rs i" for i
    by (cases "i = unat k") (simp_all add: active_buffer_def tab mc)
  then show "buffers_apart rs'" using apart by (simp add: buffers_apart_def)
  have "slot_view rs' i = slot_view rs i" if i: "i < MAX_MESSAGES" "i \<noteq> unat k" for i
  proof (cases "active_buffer rs i")
    case None
    then show ?thesis
      using i by (auto simp: slot_view_def tab mem' active_buffer_def message_view_def
          split: option.splits MessageState.splits BufRef.splits Option.bind_splits)
  next
    case (Some b)
    then have "mc_buffer mc \<noteq> UserBuf b"
      using apart i k mc by (force simp: buffers_apart_def active_buffer_def)
    then have "mem' b = rs_mem rs b" using mem by blast
    then show ?thesis
      using i Some by (auto simp: slot_view_def tab mem' active_buffer_def message_view_def
          split: option.splits MessageState.splits BufRef.splits Option.bind_splits)
  qed
  then show "slot_view rs' i = (if i = unat k then message_view mem' (mc\<lparr>mc_backend := bk\<rparr>) else slot_view rs i)"
    if "i < MAX_MESSAGES" using that by (cases "i = unat k") (simp_all add: slot_view_def tab mem')
qed

lemma record_view:
  assumes g: "get_message (rs_conn rs) i = Some mc" and bb: "\<And>b. mc_backend mc = Some b \<Longrightarrow> bb_wf b"
  shows "\<exists>bk. record_packet rs i p
      = Some (rs\<lparr>rs_conn := update_message (rs_conn rs) i (\<lambda>mc. mc\<lparr>mc_backend := bk\<rparr>)\<rparr>)
    \<and> (\<forall>b. bk = Some b \<longrightarrow> bb_wf b) \<and> bk = Option.bind (mc_backend mc) (mark_received p)"
proof (cases "mc_backend mc")
  case None
  have "update_message (rs_conn rs) i (\<lambda>mc. mc\<lparr>mc_backend := None\<rparr>) = rs_conn rs"
    by (rule update_same [of _ _ mc]) (use None get_message_slot [OF g] in auto)
  then show ?thesis by (intro exI [of _ None]) (simp add: record_packet_def g None)
next
  case (Some b)
  obtain b' where "mark_received p b = Some b'" "bb_wf b'"
    using mark_received_eq [OF bb [OF Some]] by metis
  then show ?thesis by (intro exI [of _ "Some b'"]) (auto simp: record_packet_def g Some mark_received_def)
qed

text \<open>One packet.\<close>

lemma process_packet_view:
  assumes wf: "rs_wf rs" and apart: "buffers_apart rs" and n: "length pl < 2 ^ 16"
  shows "\<exists>rs'. process_packet rs h pl = Some rs' \<and> rs_wf rs' \<and> buffers_apart rs'
    \<and> (\<forall>i<MAX_MESSAGES. slot_view rs' i
          = (if unat (h_msg_id h) = i then map_option (view_receive h pl) (slot_view rs i) else slot_view rs i))"
proof -
  let ?i = "ucast (h_msg_id h) :: u32" and ?k = "unat (h_msg_id h)" and ?p = "ucast (h_packet_offset h) :: u32"
  have k: "?k < MAX_MESSAGES" "unat ?i = ?k"
    using unat_width(2) [of "h_msg_id h"] by (simp_all add: MAX_MESSAGES_def)
  have same: ?thesis if "process_packet rs h pl = Some rs" "map_option (view_receive h pl) (slot_view rs ?k) = slot_view rs ?k"
    using that wf apart by (intro exI [of _ rs]) simp
  show ?thesis
  proof (cases "get_message (rs_conn rs) ?i")
    case None
    then have "slot_view rs ?k = None"
      using k by (auto simp: get_message_def slot_view_def message_view_def split: option.splits if_splits)
    then show ?thesis using None by (intro same) (simp_all add: process_packet_def)
  next
    case (Some mc)
    then have tab: "cc_msg_table (rs_conn rs) ! ?k = Some mc" using get_message_slot [OF Some] k by simp
    have view: "slot_view rs ?k = message_view (rs_mem rs) mc" by (simp add: slot_view_def tab)
    have ok: "msg_ok (rs_mem rs) mc" using wf tab k by (auto simp: rs_wf_def)
    show ?thesis
    proof (cases "accepts mc h \<and> already_received mc ?p \<noteq> Some True")
      case False
      then have "process_packet rs h pl = Some rs" by (auto simp: process_packet_def Some)
      then show ?thesis using dropped_view [OF ok _ False] by (intro same) (cases "message_view (rs_mem rs) mc"; simp add: view)+
    next
      case True
      have acc: "accepts mc h" and act: "mc_state mc = ACTIVE"
        using True by (cases "mc_state mc"; simp add: accepts_def)+
      have bb: "\<And>b. mc_backend mc = Some b \<Longrightarrow> bb_wf b" using ok act by (simp add: msg_ok_def)
      have new: "already_received mc ?p = Some False"
        using True bb is_packet_received_eq by (cases "mc_backend mc") (auto simp: already_received_def)
      obtain mem' where w: "write_packet_to_buffer rs mc ?p pl = Some (rs\<lparr>rs_mem := mem'\<rparr>)"
        "\<forall>b. length (mem' b) = length (rs_mem rs b)" "\<forall>b. mc_buffer mc \<noteq> UserBuf b \<longrightarrow> mem' b = rs_mem rs b"
        using write_ok [OF ok act n] by blast
      obtain bk where r: "record_packet (rs\<lparr>rs_mem := mem'\<rparr>) ?i ?p
          = Some (rs\<lparr>rs_mem := mem', rs_conn := update_message (rs_conn rs) ?i (\<lambda>mc. mc\<lparr>mc_backend := bk\<rparr>)\<rparr>)"
        "\<forall>b. bk = Some b \<longrightarrow> bb_wf b" "bk = Option.bind (mc_backend mc) (mark_received ?p)"
        using record_view [of "rs\<lparr>rs_mem := mem'\<rparr>" ?i mc ?p] Some bb by auto
      let ?rs' = "rs\<lparr>rs_mem := mem', rs_conn := update_message (rs_conn rs) ?i (\<lambda>mc. mc\<lparr>mc_backend := bk\<rparr>)\<rparr>"
      have run: "process_packet rs h pl = Some ?rs'" using Some acc new w(1) r(1) by (simp add: process_packet_def)
      note slots = one_slot_changed [where k = ?i and bk = bk, unfolded k(2), OF wf apart k(1) tab act w(3) HOL.refl]
      have "slot_view ?rs' i = (if ?k = i then map_option (view_receive h pl) (slot_view rs i) else slot_view rs i)"
        if "i < MAX_MESSAGES" for i
        unfolding slots(2) [OF that] passed_view [OF ok n acc new w(1) r(3)] using view by auto
      then show ?thesis
        using run slots(1) touches_only_wf [OF wf Some HOL.refl w(2) r(2)] by (intro exI [of _ ?rs']) simp
    qed
  qed
qed

lemma receiver_loop_view:
  "rs_wf rs \<Longrightarrow> buffers_apart rs \<Longrightarrow> \<exists>rs'. receiver_loop rs evs = Some rs'
    \<and> (\<forall>i<MAX_MESSAGES. slot_view rs' i = map_option (fold (view_datagram i) (heard evs)) (slot_view rs i))"
proof (induction rs evs rule: receiver_loop.induct)
  case (5 rs bytes evs)
  show ?case
  proof (cases "parse_datagram bytes")
    case None
    then have "handle_datagram rs bytes = Some rs" by (simp add: handle_datagram_def)
    then show ?thesis using "5.IH" [of rs] "5.prems" None by (simp add: heard_simps view_datagram_parsed)
  next
    case (Some x)
    obtain h pl where x: "x = (h, pl)" by (cases x)
    obtain r1 where r1: "process_packet rs h pl = Some r1" "rs_wf r1" "buffers_apart r1"
      "\<forall>i<MAX_MESSAGES. slot_view r1 i
          = (if unat (h_msg_id h) = i then map_option (view_receive h pl) (slot_view rs i) else slot_view rs i)"
      using process_packet_view [OF "5.prems" parse_length] Some x by blast
    have h: "handle_datagram rs bytes = Some r1" by (simp add: handle_datagram_def Some x r1(1))
    have "slot_view r1 i = map_option (view_datagram i bytes) (slot_view rs i)" if "i < MAX_MESSAGES" for i
      using r1(4) that by (cases "slot_view rs i") (simp_all add: view_datagram_parsed Some x)
    then show ?thesis using "5.IH" [OF h r1(2,3)] by (simp add: h heard_simps option.map_comp comp_def)
  qed
qed (simp_all add: heard_simps option.map_id0)

section \<open>The steps of a worker\<close>

text \<open>
  \<open>process_packet\<close> runs while other threads may complete the message.  The mutex of the table covers
  the lookup only; after it the worker reads the context through its pointer: once for the guards
  and the duplicate test, once for the place of the packet, once more for the buffer pointer of the
  \<open>memcpy\<close>, and then for the bitmap.
\<close>

datatype WorkerPc = WLookup SDRPacketHeader "u8 list" | WGuard SDRPacketHeader "u8 list"
  | WPlace SDRPacketHeader "u8 list" | WCopy SDRPacketHeader "u8 list" u64
  | WRecord SDRPacketHeader | WDone

definition pointee :: "RecvState \<Rightarrow> SDRPacketHeader \<Rightarrow> MessageContext option" where
  "pointee rs h = cc_msg_table (rs_conn rs) ! unat (h_msg_id h)"

fun worker_step :: "WorkerPc \<Rightarrow> RecvState \<Rightarrow> (WorkerPc \<times> RecvState) option" where
  "worker_step (WLookup h pl) rs =
     (case get_message (rs_conn rs) (ucast (h_msg_id h)) of
        None \<Rightarrow> Some (WDone, rs) | Some _ \<Rightarrow> Some (WGuard h pl, rs))"
| "worker_step (WGuard h pl) rs =
     (case pointee rs h of
        None \<Rightarrow> None
      | Some mc \<Rightarrow>
          (if \<not> accepts mc h then Some (WDone, rs)
           else case already_received mc (ucast (h_packet_offset h)) of
               None \<Rightarrow> None
             | Some True \<Rightarrow> Some (WDone, rs)
             | Some False \<Rightarrow> Some (WPlace h pl, rs)))"
| "worker_step (WPlace h pl) rs =
     (case pointee rs h of
        None \<Rightarrow> None
      | Some mc \<Rightarrow>
          (if mc_buffer mc = NullPtr then Some (WRecord h, rs)
           else case packet_place mc (ucast (h_packet_offset h)) (of_nat (length pl)) of
               None \<Rightarrow> Some (WRecord h, rs)
             | Some (off, len) \<Rightarrow> Some (WCopy h (take (unat len) pl) off, rs)))"
| "worker_step (WCopy h bytes off) rs =
     (case pointee rs h of
        None \<Rightarrow> None
      | Some mc \<Rightarrow> map_option (Pair (WRecord h)) (buffer_write rs (mc_buffer mc) (unat off) bytes))"
| "worker_step (WRecord h) rs =
     map_option (Pair WDone) (record_packet rs (ucast (h_msg_id h)) (ucast (h_packet_offset h)))"
| "worker_step WDone rs = Some (WDone, rs)"

primrec worker_steps :: "nat \<Rightarrow> WorkerPc \<times> RecvState \<Rightarrow> (WorkerPc \<times> RecvState) option" where
  "worker_steps 0 s = Some s"
| "worker_steps (Suc n) s = Option.bind (worker_step (fst s) (snd s)) (worker_steps n)"

lemma worker_steps_done [simp]: "worker_steps n (WDone, rs) = Some (WDone, rs)"
  by (induction n) simp_all

lemma worker_steps_add:
  "worker_steps (m + n) s = Option.bind (worker_steps m s) (worker_steps n)"
  by (induction m arbitrary: s) (auto split: Option.bind_splits)

lemma pointee_lookup:
  "get_message (rs_conn rs) (ucast (h_msg_id h)) = Some mc \<Longrightarrow> pointee rs h = Some mc"
  using get_message_slot [of "rs_conn rs" "ucast (h_msg_id h)" mc] by (simp add: pointee_def)

lemma buffer_write_table:
  "buffer_write rs buf off bytes = Some rs' \<Longrightarrow> cc_msg_table (rs_conn rs') = cc_msg_table (rs_conn rs)"
  by (auto simp: buffer_write_def split: BufRef.splits)

lemma worker_run_record:
  assumes "get_message (rs_conn rs) (ucast (h_msg_id h)) = Some mc"
  shows "worker_steps 3 (WPlace h pl, rs) = map_option (Pair WDone)
    (Option.bind (write_packet_to_buffer rs mc (ucast (h_packet_offset h)) pl)
      (\<lambda>rs'. record_packet rs' (ucast (h_msg_id h)) (ucast (h_packet_offset h))))"
proof -
  have p: "pointee rs h = Some mc" using pointee_lookup [OF assms] .
  have one: "worker_steps (Suc n) (WRecord h, rs') = map_option (Pair WDone)
      (record_packet rs' (ucast (h_msg_id h)) (ucast (h_packet_offset h)))" for n rs'
    by (cases "record_packet rs' (ucast (h_msg_id h)) (ucast (h_packet_offset h))") simp_all
  show ?thesis
  proof (cases "mc_buffer mc = NullPtr \<or> packet_place mc (ucast (h_packet_offset h)) (of_nat (length pl)) = None")
    case True
    then have "worker_step (WPlace h pl) rs = Some (WRecord h, rs)"
      and "write_packet_to_buffer rs mc (ucast (h_packet_offset h)) pl = Some rs"
      by (auto simp: p write_packet_to_buffer_def)
    then show ?thesis using one [of 1 rs] by (simp add: numeral_3_eq_3)
  next
    case False
    then obtain off len where place: "packet_place mc (ucast (h_packet_offset h)) (of_nat (length pl)) = Some (off, len)"
      and nn: "mc_buffer mc \<noteq> NullPtr" by auto
    let ?w = "buffer_write rs (mc_buffer mc) (unat off) (take (unat len) pl)"
    have a: "worker_step (WPlace h pl) rs = Some (WCopy h (take (unat len) pl) off, rs)"
      by (simp add: p place nn)
    have b: "worker_step (WCopy h (take (unat len) pl) off) rs = map_option (Pair (WRecord h)) ?w"
      by (simp add: p)
    have c: "write_packet_to_buffer rs mc (ucast (h_packet_offset h)) pl = ?w"
      by (simp add: write_packet_to_buffer_def place nn)
    show ?thesis
      unfolding c numeral_3_eq_3 using a b one [of 0] by (cases ?w) simp_all
  qed
qed

text \<open>Undisturbed, the steps are \<open>process_packet\<close>.\<close>

lemma worker_refines:
  "worker_steps 5 (WLookup h pl, rs) = map_option (Pair WDone) (process_packet rs h pl)"
proof (cases "get_message (rs_conn rs) (ucast (h_msg_id h))")
  case None
  then show ?thesis by (simp add: process_packet_def eval_nat_numeral)
next
  case (Some mc)
  have p: "pointee rs h = Some mc" using pointee_lookup [OF Some] .
  have split: "worker_steps 5 (WLookup h pl, rs)
      = Option.bind (worker_step (WGuard h pl) rs) (worker_steps 3)"
    using worker_steps_add [of 2 3 "(WLookup h pl, rs)"] by (simp add: numeral_2_eq_2 Some)
  show ?thesis
  proof (cases "accepts mc h")
    case False
    then show ?thesis unfolding split by (simp add: p Some process_packet_def)
  next
    case True
    show ?thesis
      unfolding split using True worker_run_record [OF Some, of pl]
      by (simp add: p Some process_packet_def split: option.split bool.split)
  qed
qed

section \<open>Properties\<close>

text \<open>C3: The receiver reassembles the sender's data whatever the network does.  Datagrams for the
  message may come in any order, duplicated, with some missing, and mixed with packets of other
  generations of the slot and with offsets beyond the message: handling them never faults, two
  sequences of the same arrivals give the same state, the buffer then holds the sender's bytes at
  every packet that arrived and its old bytes elsewhere, and once every packet of the message has
  arrived it is the sender's data.\<close>

theorem receiver_reassembles:
  assumes "rx_inv T rs" and "\<forall>x\<in>set xs. rx_good T x"
  shows "\<exists>rs'. run_all deliver xs rs = Some rs' \<and> rx_inv T rs'
    \<and> (\<forall>ys. set ys = set xs \<longrightarrow> run_all deliver ys rs = Some rs')
    \<and> rs_mem rs' (t_buffer T) = overlay T (rx_received T rs \<union> (\<Union>x\<in>set xs. rx_adds T x))
    \<and> ((\<forall>p. p * t_mtu T < length (t_data T) \<longrightarrow> p \<in> rx_received T rs \<union> (\<Union>x\<in>set xs. rx_adds T x))
         \<longrightarrow> rs_mem rs' (t_buffer T) = t_data T)"
proof -
  obtain rs' where rs': "run_all deliver xs rs = Some rs'" "rx_inv T rs'"
    "rx_received T rs' = rx_received T rs \<union> (\<Union>x\<in>set xs. rx_adds T x)"
    using deliver_all [OF assms] by blast
  have mem: "rs_mem rs' (t_buffer T) = overlay T (rx_received T rs \<union> (\<Union>x\<in>set xs. rx_adds T x))"
    using rx_inv_buffer [OF rs'(2)] rs'(3) by simp
  have any: "run_all deliver ys rs = Some rs'" if "set ys = set xs" for ys
    using rx_sink.run_set_cong [OF assms that [symmetric]] rs'(1) by simp
  have "\<forall>p. p * t_mtu T < length (t_data T) \<longrightarrow> p \<in> rx_received T rs \<union> (\<Union>x\<in>set xs. rx_adds T x) \<Longrightarrow>
      rs_mem rs' (t_buffer T) = t_data T"
    unfolding mem by (rule overlay_all)
  with rs'(1,2) mem any show ?thesis by blast
qed

definition demo_target :: Target where
  "demo_target = \<lparr> t_slot = 3, t_generation = 1, t_buffer = 0, t_old = [9, 9, 9, 9, 9],
     t_data = [10, 20, 30, 40, 50], t_mtu = 2 \<rparr>"

definition demo_params :: ConnectionParams where
  "demo_params = zero_params\<lparr>cp_mtu_bytes := 2, cp_packets_per_chunk := 2, cp_transfer_id := 1\<rparr>"

definition demo_state :: RecvState where
  "demo_state = \<lparr> rs_conn = update_message (snd (allocate_message_slot ConnectionContext_new 3 1)) 3
       (setup_message (UserBuf 0) 5 3 2 demo_params), rs_mem = (\<lambda>_. [9, 9, 9, 9, 9]) \<rparr>"

definition demo_packet :: "18 word \<Rightarrow> u8 list \<Rightarrow> SDRPacketHeader \<times> u8 list" where
  "demo_packet p bytes = ((data_header 1 3 0 2 (of_nat (length bytes)))\<lparr>h_packet_offset := p\<rparr>, bytes)"

lemma demo_rx_inv: "rx_inv demo_target demo_state" "rx_received demo_target demo_state = {}"
proof -
  have slot: "slot_of demo_target = 3" by (simp add: slot_of_def demo_target_def)
  have alloc: "allocate_message_slot ConnectionContext_new (slot_of demo_target) 1
      = (Some (MessageContext_new\<lparr>mc_msg_id := 3, mc_generation := 1, mc_state := ACTIVE,
           mc_params := zero_params\<rparr>),
         snd (allocate_message_slot ConnectionContext_new 3 1))"
    by (simp add: slot allocate_message_slot_def slot_reusable_def ConnectionContext_new_def
        MAX_MESSAGES_def Let_def)
  have sizes: "calculate_bitmap_sizes 5 (cp_mtu_bytes demo_params) (cp_packets_per_chunk demo_params) = (3, 2)"
    by (simp add: calculate_bitmap_sizes_def demo_params_def Let_def)
  note posted = posted_rx_inv [OF cc_wf_new alloc _ _ _ _ _ _ _ sizes, where mem = "\<lambda>_. [9, 9, 9, 9, 9]"]
  have st: "demo_state = \<lparr>rs_conn = update_message (snd (allocate_message_slot ConnectionContext_new 3 1))
      (slot_of demo_target) (setup_message (UserBuf (t_buffer demo_target)) 5 3 2 demo_params),
      rs_mem = (\<lambda>_. [9, 9, 9, 9, 9])\<rparr>"
    unfolding demo_state_def slot by (simp add: demo_target_def)
  show "rx_inv demo_target demo_state" "rx_received demo_target demo_state = {}"
    unfolding st by (rule posted; simp add: demo_target_def demo_params_def)+
qed

lemma demo_packets_good:
  "\<forall>x\<in>set [demo_packet 2 [50], demo_packet 0 [10, 20], demo_packet 2 [50], demo_packet 1 [30, 40],
     demo_packet 7 [1, 1]]. rx_good demo_target x"
  by (simp add: rx_good_def demo_packet_def demo_target_def slice_def data_header_def)

theorem receiver_reassembles_witness:
  "\<exists>rs'. run_all deliver [demo_packet 2 [50], demo_packet 0 [10, 20], demo_packet 2 [50],
      demo_packet 1 [30, 40], demo_packet 7 [1, 1]] demo_state = Some rs'
    \<and> rs_mem rs' 0 = [10, 20, 30, 40, 50]"
proof -
  have "\<forall>p. p * t_mtu demo_target < length (t_data demo_target) \<longrightarrow> p \<in> rx_received demo_target demo_state
      \<union> (\<Union>x\<in>set [demo_packet 2 [50], demo_packet 0 [10, 20], demo_packet 2 [50], demo_packet 1 [30, 40],
          demo_packet 7 [1, 1]]. rx_adds demo_target x)"
  proof (intro allI impI)
    fix p assume "p * t_mtu demo_target < length (t_data demo_target)"
    then have "p = 0 \<or> p = 1 \<or> p = 2" by (simp add: demo_target_def) linarith
    then show "p \<in> rx_received demo_target demo_state
      \<union> (\<Union>x\<in>set [demo_packet 2 [50], demo_packet 0 [10, 20], demo_packet 2 [50], demo_packet 1 [30, 40],
          demo_packet 7 [1, 1]]. rx_adds demo_target x)"
      by (auto simp: rx_adds_def demo_packet_def demo_target_def data_header_def)
  qed
  then show ?thesis
    using receiver_reassembles [OF demo_rx_inv(1) demo_packets_good]
    by (auto simp: demo_target_def)
qed

text \<open>A datagram for the slot of \<open>demo_state\<close>.\<close>

definition demo_datagram :: "u32 \<Rightarrow> u32 \<Rightarrow> u8 list \<Rightarrow> u8 list" where
  "demo_datagram t p pl = header_image (to_network_order (data_header t 3 p 2 (of_nat (length pl)))) @ pl"

lemma demo_datagram_parsed:
  assumes "length pl \<le> 100"
  shows "parse_datagram (demo_datagram t p pl) = Some (data_header t 3 p 2 (of_nat (length pl)), pl)"
proof -
  let ?h = "data_header t 3 p 2 (of_nat (length pl))"
  have "unat (of_nat (length pl) :: u64) = length pl" by (rule unat_of_nat_small) (use assms in simp)
  then have n: "unat (h_payload_len ?h) = length pl" using assms by (simp add: data_header_def unat_ucast_mod)
  have len: "length (header_image (to_network_order ?h) @ pl) \<le> max_packet_size"
    using assms by (simp add: max_packet_size_def header_size_def MAX_PAYLOAD_SIZE_def)
  have "header_is_valid ?h" by (simp add: header_is_valid_def data_header_def)
  then show ?thesis
    unfolding parse_datagram_def demo_datagram_def Let_def take_all [OF len]
    using n by simp
qed

lemma demo_slots: "i < MAX_MESSAGES \<Longrightarrow> i \<noteq> 3 \<Longrightarrow> cc_msg_table (rs_conn demo_state) ! i = None"
  by (simp add: demo_state_def update_message_def allocate_message_slot_def slot_reusable_def
      ConnectionContext_new_def MAX_MESSAGES_def Let_def nth_list_update)

lemma demo_state_ready:
  "rs_wf demo_state" "buffers_apart demo_state" "\<not> exposed demo_state 3"
  "slot_view demo_state 3 = Some \<lparr> sv_generation = 1, sv_packet = 2, sv_packets = 3, sv_got = {}, sv_bytes = [9, 9, 9, 9, 9] \<rparr>"
proof -
  have t: "unat (t_slot demo_target) = 3" "length (t_data demo_target) = 5" "t_generation demo_target = 1"
    "t_buffer demo_target = 0" "t_mtu demo_target = 2" by (simp_all add: demo_target_def)
  obtain mc b where m: "cc_wf (rs_conn demo_state)" "cc_msg_table (rs_conn demo_state) ! 3 = Some mc"
    "mc_generation mc = 1" "mc_state mc = ACTIVE" "mc_buffer mc = UserBuf 0" "unat (mc_buffer_size mc) = 5"
    "effective_mtu mc = 2" "mc_backend mc = Some b" "bb_wf b"
    "\<forall>p. p < unat (bb_total_packets b) \<longleftrightarrow> p * 2 < 5" "rx_received demo_target demo_state = received b"
    by (rule rx_invE [OF demo_rx_inv(1), unfolded t]) (rule that, assumption+)
  have mem: "rs_mem demo_state = (\<lambda>_. [9, 9, 9, 9, 9])" by (simp add: demo_state_def)
  have "\<not> 3 < unat (bb_total_packets b)" "2 < unat (bb_total_packets b)" using m(10) by simp_all
  then have packets: "unat (bb_total_packets b) = 3" by linarith
  have ok: "msg_ok (rs_mem demo_state) mc" using m(4-9) by (simp add: msg_ok_def mem)
  have "msg_ok (rs_mem demo_state) c" if "i < MAX_MESSAGES" "cc_msg_table (rs_conn demo_state) ! i = Some c" for i c
    using that demo_slots [of i] m(2) ok by (cases "i = 3") simp_all
  then show "rs_wf demo_state" using m(1) by (simp add: rs_wf_def)
  have "active_buffer demo_state i = None" if "i < MAX_MESSAGES" "i \<noteq> 3" for i
    using demo_slots [OF that] by (simp add: active_buffer_def)
  then show "buffers_apart demo_state" unfolding buffers_apart_def by metis
  have "mc_buffer c = UserBuf 0" if "i < MAX_MESSAGES" "cc_msg_table (rs_conn demo_state) ! i = Some c" for i c
    using that demo_slots [of i] m(2,5) by (cases "i = 3") simp_all
  then show "\<not> exposed demo_state 3" unfolding exposed_def by fastforce
  have "received b = {}" using m(11) demo_rx_inv(2) by simp
  then show "slot_view demo_state 3 = Some \<lparr> sv_generation = 1, sv_packet = 2, sv_packets = 3, sv_got = {},
      sv_bytes = [9, 9, 9, 9, 9] \<rparr>"
    using m(2-8) packets by (simp add: slot_view_def message_view_def mem)
qed

text \<open>C6: No datagram can make the receiver write outside the buffers it was given.  From a state with
  the memory conditions, and whatever the sockets present, the loop of a worker runs without a fault;
  it keeps the conditions, changes no buffer's length, and changes no buffer but those of active
  messages.\<close>

theorem receiver_memory_safe:
  assumes "rs_wf rs"
  shows "\<exists>rs'. receiver_loop rs evs = Some rs' \<and> rs_wf rs'
    \<and> (\<forall>b. length (rs_mem rs' b) = length (rs_mem rs b)
          \<and> (\<not> exposed rs b \<longrightarrow> rs_mem rs' b = rs_mem rs b))"
  using receiver_loop_safe [OF assms, of evs] by blast

theorem receiver_memory_safe_witness:
  "\<exists>rs'. receiver_loop demo_state
        [UdpRetry, Datagram [83, 68, 0], Datagram (demo_datagram 1 2 [50]), Datagram (replicate 70000 255), UdpFailed] = Some rs'
    \<and> rs_wf rs' \<and> rs_mem rs' 3 = [9, 9, 9, 9, 9] \<and> length (rs_mem rs' 0) = 5"
proof -
  have "rs_mem demo_state = (\<lambda>_. [9, 9, 9, 9, 9])" by (simp add: demo_state_def)
  then show ?thesis
    using receiver_memory_safe [OF demo_state_ready(1), of "[UdpRetry, Datagram [83, 68, 0],
        Datagram (demo_datagram 1 2 [50]), Datagram (replicate 70000 255), UdpFailed]"] demo_state_ready(3)
    by auto
qed

text \<open>The guards of \<open>process_packet\<close>.  A datagram whose slot is empty, whose generation is not the
  slot's, whose message is not active, or whose packet has been received, changes nothing.\<close>

theorem process_packet_drops:
  assumes "case get_message (rs_conn rs) (ucast (h_msg_id h)) of
      None \<Rightarrow> True
    | Some mc \<Rightarrow> mc_generation mc \<noteq> h_transfer_id h \<or> mc_state mc \<noteq> ACTIVE
        \<or> (\<exists>b. mc_backend mc = Some b \<and> bb_wf b \<and> unat (h_packet_offset h) \<in> received b)"
  shows "process_packet rs h pl = Some rs"
proof (cases "get_message (rs_conn rs) (ucast (h_msg_id h))")
  case None
  then show ?thesis by (simp add: process_packet_def)
next
  case (Some mc)
  show ?thesis
  proof (cases "accepts mc h")
    case False
    then show ?thesis by (simp add: process_packet_def Some)
  next
    case True
    then have "mc_state mc = ACTIVE" "mc_generation mc = h_transfer_id h"
      by (cases "mc_state mc"; simp add: accepts_def)+
    then obtain b where "mc_backend mc = Some b" "bb_wf b" "unat (h_packet_offset h) \<in> received b"
      using assms by (auto simp: Some)
    then have "already_received mc (ucast (h_packet_offset h)) = Some True"
      by (simp add: already_received_def is_packet_received_eq)
    then show ?thesis by (simp add: process_packet_def Some True)
  qed
qed

theorem process_packet_drops_witness:
  "process_packet demo_state (data_header 7 3 0 2 1) [5] = Some demo_state"
proof (rule process_packet_drops)
  obtain mc where "get_message (rs_conn demo_state) (slot_of demo_target) = Some mc" "mc_generation mc = 1"
    by (rule rx_invE [OF demo_rx_inv(1)]) (simp add: demo_target_def)
  then show "case get_message (rs_conn demo_state) (ucast (h_msg_id (data_header 7 3 0 2 1))) of
      None \<Rightarrow> True
    | Some mc \<Rightarrow> mc_generation mc \<noteq> h_transfer_id (data_header 7 3 0 2 1) \<or> mc_state mc \<noteq> ACTIVE
        \<or> (\<exists>b. mc_backend mc = Some b \<and> bb_wf b
            \<and> unat (h_packet_offset (data_header 7 3 0 2 1)) \<in> received b)"
    by (simp add: slot_of_def demo_target_def)
qed

text \<open>C16: A worker implements the specification of the slots.  From a state with the memory conditions and no
  buffer shared by two active messages, and whatever its socket presents, the worker's loop does not
  fault, and every slot with an active message, a buffer and a bitmap ends as the specification says of the
  datagrams that the worker took: each one that has a header with the magic number naming the slot is
  received by it (\<open>view_receive\<close>), all others pass it by; the other slots are not turned into such slots.  So a
  packet of another generation or received before changes nothing, any other one writes exactly its own
  bytes, cut off at the end of the buffer, and is remembered if its number is below that of the message's packets.\<close>

theorem receiver_loop_refines:
  assumes "rs_wf rs" and "buffers_apart rs"
  shows "\<exists>rs'. receiver_loop rs evs = Some rs'
    \<and> (\<forall>i<MAX_MESSAGES. slot_view rs' i = map_option (fold (view_datagram i) (heard evs)) (slot_view rs i))"
  by (rule receiver_loop_view [OF assms])

text \<open>A packet, one of another generation, a duplicate with other bytes, and one after the stop.\<close>

theorem receiver_loop_refines_witness:
  "\<exists>rs'. receiver_loop demo_state [UdpRetry, Datagram (demo_datagram 1 2 [50]), Datagram (demo_datagram 7 0 [1, 1]),
      Datagram (demo_datagram 1 2 [60]), StopSeen, Datagram (demo_datagram 1 0 [10, 20])] = Some rs'
    \<and> slot_view rs' 3 = Some \<lparr> sv_generation = 1, sv_packet = 2, sv_packets = 3, sv_got = {2}, sv_bytes = [9, 9, 9, 9, 50] \<rparr>"
proof -
  have "3 < MAX_MESSAGES" by (simp add: MAX_MESSAGES_def)
  then show ?thesis
    using receiver_loop_refines [OF demo_state_ready(1,2), of "[UdpRetry, Datagram (demo_datagram 1 2 [50]),
        Datagram (demo_datagram 7 0 [1, 1]), Datagram (demo_datagram 1 2 [60]), StopSeen, Datagram (demo_datagram 1 0 [10, 20])]"]
    by (auto simp: heard_simps view_datagram_parsed demo_datagram_parsed view_receive_def demo_state_ready(4) data_header_def
        Let_def upt_rec)
qed

text \<open>C12: Completing a message while a worker is between its checks and its copy overruns the null sink.
  For a new packet of an active message, other than a first packet of one byte, the first three steps
  reach the copy; if the message is completed at that moment the copy goes to the one-byte sink with
  the offset of the user's buffer and is out of bounds.  Completed before the guards, the same packet
  is dropped.\<close>

theorem completion_race_overruns_sink:
  assumes inv: "rx_inv T rs" and id: "h_msg_id h = t_slot T" "h_transfer_id h = t_generation T"
    and p: "unat (h_packet_offset h) * t_mtu T < length (t_data T)"
      "unat (h_packet_offset h) \<notin> rx_received T rs"
    and pl: "length pl < 2 ^ 16"
      "1 < unat (h_packet_offset h) * t_mtu T
           + min (length pl) (length (t_data T) - unat (h_packet_offset h) * t_mtu T)"
  shows "\<exists>bytes off. worker_steps 3 (WLookup h pl, rs) = Some (WCopy h bytes off, rs)
    \<and> worker_step (WCopy h bytes off) (rs\<lparr>rs_conn := complete_message (rs_conn rs) (slot_of T)\<rparr>) = None
    \<and> worker_steps 2 (WLookup h pl, rs\<lparr>rs_conn := complete_message (rs_conn rs) (slot_of T)\<rparr>)
        = Some (WDone, rs\<lparr>rs_conn := complete_message (rs_conn rs) (slot_of T)\<rparr>)"
proof -
  let ?p = "unat (h_packet_offset h)" and ?L = "length (t_data T)" and ?m = "t_mtu T"
  let ?dead = "rs\<lparr>rs_conn := complete_message (rs_conn rs) (slot_of T)\<rparr>"
  obtain mc b where i: "cc_wf (rs_conn rs)" "unat (t_slot T) < length (cc_msg_table (rs_conn rs))"
    "?L + 2 ^ 16 \<le> 2 ^ 64" "cc_msg_table (rs_conn rs) ! unat (t_slot T) = Some mc"
    "get_message (rs_conn rs) (slot_of T) = Some mc" "mc_generation mc = t_generation T"
    "mc_state mc = ACTIVE" "mc_buffer mc = UserBuf (t_buffer T)" "unat (mc_buffer_size mc) = ?L"
    "effective_mtu mc = ?m" "mc_backend mc = Some b" "bb_wf b" "rx_received T rs = received b"
    by (rule rx_invE [OF inv]) blast
  have slot: "ucast (h_msg_id h) = slot_of T" by (simp add: id slot_of_def)
  have ptr: "pointee rs h = Some mc" using i(4) by (simp add: pointee_def id)
  have acc: "accepts mc h" "already_received mc (ucast (h_packet_offset h)) = Some False"
    using i p id is_packet_received_eq [OF i(12), of "ucast (h_packet_offset h)"]
    by (simp_all add: accepts_def already_received_def)
  let ?off = "of_nat (?p * ?m) :: u64" and ?len = "min (length pl) (?L - ?p * ?m)"
  have place: "packet_place mc (ucast (h_packet_offset h)) (of_nat (length pl)) = Some (?off, of_nat ?len)"
    using packet_place_eq [of "length pl" mc "ucast (h_packet_offset h)"] i(3,9,10) pl(1) p(1)
    by (simp del: of_nat_mult)
  have off: "unat ?off = ?p * ?m" using p(1) i(3) by (intro unat_of_nat_small) simp
  have len: "unat (of_nat ?len :: u64) = ?len" using i(3) by (intro unat_of_nat_small) simp
  have reach: "worker_steps 3 (WLookup h pl, rs) = Some (WCopy h (take ?len pl) ?off, rs)"
    using i(5,8) by (simp add: numeral_3_eq_3 slot ptr acc place len del: of_nat_mult of_nat_min)
  have max: "unat (slot_of T) < MAX_MESSAGES" by simp
  have deadmc: "pointee ?dead h = Some (mc\<lparr>mc_state := DEAD, mc_buffer := NullSink\<rparr>)"
    using i(2,4) max by (simp add: pointee_def complete_message_def id not_le [symmetric])
  have sink: "length (cc_null_sink (rs_conn ?dead)) = 1"
    using cc_wf_complete [OF i(1)] by (simp add: cc_wf_def)
  have "length (cc_null_sink (rs_conn ?dead)) < unat ?off + length (take ?len pl)"
    unfolding sink off using pl(2) by simp
  then have "mem_write (cc_null_sink (rs_conn ?dead)) (unat ?off) (take ?len pl) = None"
    by (rule mem_write_overrun)
  then have fault: "worker_step (WCopy h (take ?len pl) ?off) ?dead = None"
    unfolding worker_step.simps deadmc by (simp add: buffer_write_def del: of_nat_mult)
  have "get_message (rs_conn ?dead) (slot_of T) = Some (mc\<lparr>mc_state := DEAD, mc_buffer := NullSink\<rparr>)"
    using deadmc max by (simp add: get_message_def pointee_def id not_le [symmetric])
  then have "worker_steps 2 (WLookup h pl, ?dead) = Some (WDone, ?dead)"
    using deadmc by (simp add: numeral_2_eq_2 slot accepts_def)
  with reach fault show ?thesis by blast
qed

theorem completion_race_overruns_sink_witness:
  "\<exists>bytes off. worker_steps 3 (WLookup (fst (demo_packet 1 [])) [30, 40], demo_state)
        = Some (WCopy (fst (demo_packet 1 [])) bytes off, demo_state)
    \<and> worker_step (WCopy (fst (demo_packet 1 [])) bytes off)
        (demo_state\<lparr>rs_conn := complete_message (rs_conn demo_state) (slot_of demo_target)\<rparr>) = None
    \<and> worker_steps 2 (WLookup (fst (demo_packet 1 [])) [30, 40],
          demo_state\<lparr>rs_conn := complete_message (rs_conn demo_state) (slot_of demo_target)\<rparr>)
        = Some (WDone, demo_state\<lparr>rs_conn := complete_message (rs_conn demo_state) (slot_of demo_target)\<rparr>)"
  by (rule completion_race_overruns_sink [OF demo_rx_inv(1)])
    (simp_all add: demo_rx_inv(2), simp_all add: demo_packet_def demo_target_def)

definition channel_opens :: "ChannelSys \<Rightarrow> bool" where
  "channel_opens c \<longleftrightarrow> chs_socket c \<ge> 0 \<and> chs_reuseaddr c \<ge> 0 \<and> chs_bind c \<ge> 0"

definition opened_worker :: "(u16 \<Rightarrow> ChannelSys) \<Rightarrow> u16 \<Rightarrow> nat \<Rightarrow> Worker" where
  "opened_worker sys base_port k =
     \<lparr> w_udp_socket_fd = chs_socket (sys (of_nat k)), w_udp_port = base_port + of_nat k \<rparr>"

lemma open_channels_outcome:
  assumes "blank = \<lparr> w_udp_socket_fd = - 1, w_udp_port = 0 \<rparr>"
  shows "case for_exit 0 n (open_channel sys base_port) (replicate (unat n) blank) of
      Inr ws \<Rightarrow> (\<forall>j<unat n. channel_opens (sys (of_nat j)))
        \<and> ws = map (opened_worker sys base_port) [0..<unat n]
    | Inl (ws, closed) \<Rightarrow> \<exists>j<unat n. (\<forall>i<j. channel_opens (sys (of_nat i)))
        \<and> \<not> channel_opens (sys (of_nat j))
        \<and> ws = map (opened_worker sys base_port) [0..<j] @ replicate (unat n - j) blank
        \<and> closed = filter (\<lambda>fd. fd \<ge> 0) [chs_socket (sys (of_nat j))]"
proof -
  let ?P = "\<lambda>k ws. (\<forall>i<k. channel_opens (sys (of_nat i)))
      \<and> ws = map (opened_worker sys base_port) [0..<k] @ replicate (unat n - k) blank"
  let ?Q = "\<lambda>(ws, closed). \<exists>j<unat n. ?P j ws \<and> \<not> channel_opens (sys (of_nat j))
      \<and> closed = filter (\<lambda>fd. fd \<ge> 0) [chs_socket (sys (of_nat j))]"
  have "case for_exit 0 n (open_channel sys base_port) (replicate (unat n) blank) of
      Inr ws \<Rightarrow> ?P (unat n) ws | Inl e \<Rightarrow> ?Q e"
  proof (rule for_exit_rule [where P = ?P and Q = ?Q])
    show "?P (unat (0 :: u16)) (replicate (unat n) blank)" by simp
    show "0 \<le> n" by simp
  next
    fix k ws ws' assume k: "k < unat n" and P: "?P k ws"
      and r: "open_channel sys base_port (of_nat k) ws = Inr ws'"
    have uk: "unat (of_nat k :: u16) = k" using k by (rule unat_of_nat_below)
    have open_k: "channel_opens (sys (of_nat k))"
      and ws': "ws' = ws[k := opened_worker sys base_port k]"
      using r by (auto simp: open_channel_def Let_def uk channel_opens_def opened_worker_def split: if_splits)
    have "unat n - k = Suc (unat n - Suc k)" using k by simp
    then have "ws' = map (opened_worker sys base_port) [0..<k] @ opened_worker sys base_port k
        # replicate (unat n - Suc k) blank"
      using P by (simp add: ws' list_update_append)
    with open_k P show "?P (Suc k) ws'" by (auto simp: less_Suc_eq)
  next
    fix k ws e assume k: "k < unat n" and P: "?P k ws"
      and r: "open_channel sys base_port (of_nat k) ws = Inl e"
    have "\<not> channel_opens (sys (of_nat k))
        \<and> e = (ws, filter (\<lambda>fd. fd \<ge> 0) [chs_socket (sys (of_nat k))])"
      using r by (auto simp: open_channel_def Let_def channel_opens_def split: if_splits)
    with k P show "?Q e" by blast
  qed
  then show ?thesis by (auto split: sum.splits)
qed

text \<open>C23: Opening the channels is all or nothing.  If every channel opens, the receiver runs one worker
  per channel (at least one), on consecutive ports and the sockets obtained.  Otherwise it does not
  run, keeps no worker, and has closed exactly the sockets it had opened up to the first channel that
  failed.\<close>

theorem receiver_start_all_or_nothing:
  assumes "\<not> ur_is_running r"
  shows "let n = unat (max 1 num) in case ur_start r cc base num sys of (ok, r', cc', closed) \<Rightarrow>
    (if \<forall>j<n. channel_opens (sys (of_nat j))
     then ok \<and> ur_is_running r' \<and> closed = [] \<and> 0 < n
       \<and> ur_workers r' = map (opened_worker sys base) [0..<n]
       \<and> cc_udp_socket_fd cc' = chs_socket (sys 0) \<and> cc_msg_table cc' = cc_msg_table cc
     else \<not> ok \<and> \<not> ur_is_running r' \<and> ur_workers r' = [] \<and> cc' = cc
       \<and> (\<exists>j<n. (\<forall>i<j. channel_opens (sys (of_nat i))) \<and> \<not> channel_opens (sys (of_nat j))
            \<and> set closed = {chs_socket (sys (of_nat i)) |i. i \<le> j} \<inter> {0..}))"
proof -
  let ?n = "max 1 num" and ?blank = "\<lparr> w_udp_socket_fd = - 1, w_udp_port = 0 \<rparr>"
  let ?loop = "for_exit 0 ?n (open_channel sys base) (replicate (unat ?n) ?blank)"
  have pos: "0 < unat ?n" by (auto simp: unat_gt_0 max_def)
  note outcome = open_channels_outcome [of ?blank ?n sys base, OF HOL.refl]
  show ?thesis
  proof (cases ?loop)
    case (Inr ws)
    then have all: "\<forall>j<unat ?n. channel_opens (sys (of_nat j))"
      and ws: "ws = map (opened_worker sys base) [0..<unat ?n]" using outcome by auto
    have "ws \<noteq> []" "w_udp_socket_fd (ws ! 0) = chs_socket (sys 0)"
      using pos by (auto simp: ws opened_worker_def)
    then show ?thesis using assms Inr all ws pos by (simp add: ur_start_def Let_def)
  next
    case (Inl e)
    obtain ws closed where e: "e = (ws, closed)" by (cases e)
    then obtain j where j: "j < unat ?n" "\<forall>i<j. channel_opens (sys (of_nat i))"
      "\<not> channel_opens (sys (of_nat j))"
      "ws = map (opened_worker sys base) [0..<j] @ replicate (unat ?n - j) ?blank"
      "closed = filter (\<lambda>fd. fd \<ge> 0) [chs_socket (sys (of_nat j))]"
      using outcome Inl by auto
    have fail: "\<not> (\<forall>j<unat ?n. channel_opens (sys (of_nat j)))" using j by blast
    have "{..j} = insert j {..<j}" by auto
    then have idx: "{chs_socket (sys (of_nat i)) |i. i \<le> j}
        = insert (chs_socket (sys (of_nat j))) ((\<lambda>i. chs_socket (sys (of_nat i))) ` {..<j})"
      by (auto simp: le_less)
    have "set (closed @ filter (\<lambda>fd. fd \<ge> 0) (map w_udp_socket_fd ws))
        = {chs_socket (sys (of_nat i)) |i. i \<le> j} \<inter> {0..}"
      unfolding idx j(4,5) using j(2) by (auto simp: opened_worker_def channel_opens_def)
    then show ?thesis
      using assms Inl e fail j(1-3) by (auto simp: ur_start_def ur_stop_def Let_def)
  qed
qed

theorem receiver_start_all_or_nothing_witness:
  "\<exists>r' closed. ur_start UDPReceiver_new ConnectionContext_new 9000 2
      (\<lambda>k. \<lparr>chs_socket = 4 + int (unat k), chs_reuseaddr = 0, chs_rcvbuf = - 1,
            chs_bind = (if k = 1 then - 1 else 0)\<rparr>) = (False, r', ConnectionContext_new, closed)
    \<and> \<not> ur_is_running r' \<and> ur_workers r' = [] \<and> 5 \<in> set closed"
proof -
  let ?sys = "\<lambda>k :: u16. \<lparr>chs_socket = 4 + int (unat k), chs_reuseaddr = 0, chs_rcvbuf = - 1,
      chs_bind = (if k = 1 then - 1 else 0)\<rparr>"
  obtain ok r' cc' closed where u: "ur_start UDPReceiver_new ConnectionContext_new 9000 2 ?sys = (ok, r', cc', closed)"
    by (rule prod_cases4)
  have opens: "channel_opens (?sys (of_nat j)) \<longleftrightarrow> (of_nat j :: u16) \<noteq> 1" for j
    by (simp add: channel_opens_def)
  have two: "unat (max 1 2 :: u16) = 2" by simp
  have "\<not> (\<forall>j<2. channel_opens (?sys (of_nat j)))" unfolding opens by (intro notI) (drule spec [of _ 1], simp)
  then have failed: "\<not> ok \<and> \<not> ur_is_running r' \<and> ur_workers r' = [] \<and> cc' = ConnectionContext_new
      \<and> (\<exists>j<2. (\<forall>i<j. channel_opens (?sys (of_nat i))) \<and> \<not> channel_opens (?sys (of_nat j))
           \<and> set closed = {chs_socket (?sys (of_nat i)) |i. i \<le> j} \<inter> {0..})"
    using receiver_start_all_or_nothing [where r = UDPReceiver_new and num = 2 and cc = ConnectionContext_new
        and base = 9000 and sys = ?sys]
    unfolding Let_def u prod.case two by (simp only: UDPReceiver_new_def UDPReceiver.simps if_False simp_thms)
  have five: "5 \<in> {chs_socket (?sys (of_nat i)) |i. i \<le> j} \<inter> {0..}"
    if "\<not> channel_opens (?sys (of_nat j))" "j < 2" for j
  proof -
    have "j = 1" using that opens [of j] by (cases j) auto
    then show ?thesis by (auto intro!: exI [of _ 1])
  qed
  obtain j where j: "j < 2" "\<not> channel_opens (?sys (of_nat j))"
    and closed: "set closed = {chs_socket (?sys (of_nat i)) |i. i \<le> j} \<inter> {0..}" using failed by blast
  have "5 \<in> set closed" unfolding closed by (rule five [OF j(2,1)])
  with u failed show ?thesis by (intro exI [of _ r'] exI [of _ closed]) simp
qed

end
