(* ===== verification/Sender.thy ===== *)
theory Sender
  imports Receiver
begin

text \<open>
  Cutting a buffer into datagrams, as the one-shot send (\<open>sdr_send_post\<close>), the streaming send
  (\<open>sdr_send_stream_continue\<close>) of \<open>src/sdr_api.cpp\<close> and the retransmissions of the reliability layers
  do it, and the interface between such a source of datagrams and the receiver.
\<close>

section \<open>One datagram\<close>

text \<open>
  \<open>create_data_packet\<close>, the chunk number, network order, and the bytes given to \<open>sendto\<close>.  \<open>None\<close> is
  the fault of reading outside the buffer, \<open>Some None\<close> a packet that could not be made.
\<close>

definition make_datagram ::
    "u32 \<Rightarrow> u32 \<Rightarrow> u32 \<Rightarrow> u16 \<Rightarrow> u8 list \<Rightarrow> u64 \<Rightarrow> u8 list option option" where
  "make_datagram transfer_id msg_id packet_offset ppc from len =
     map_option (map_option (\<lambda>p. packet_image (finish_packet p)))
       (create_data_packet transfer_id msg_id packet_offset ppc from len)"

text \<open>The datagram of packet \<open>p\<close> of a buffer.\<close>

definition data_datagram :: "u32 \<Rightarrow> u32 \<Rightarrow> u16 \<Rightarrow> nat \<Rightarrow> u8 list \<Rightarrow> nat \<Rightarrow> u8 list" where
  "data_datagram t m ppc mtu data p =
     packet_image (finish_packet
       \<lparr> header = data_header t m (of_nat p) ppc (of_nat (length (slice data mtu p))),
         payload = slice data mtu p \<rparr>)"

lemma make_datagram_slice:
  assumes "len = of_nat (length (slice data mtu p))" and "0 < mtu" and "mtu \<le> 65496"
    and "p * mtu < length data"
  shows "make_datagram t m (of_nat p) ppc (drop (p * mtu) data) len = Some (Some (data_datagram t m ppc mtu data p))"
proof -
  have l: "length (slice data mtu p) \<le> mtu" by (simp add: slice_def)
  then have u: "unat len = length (slice data mtu p)"
    using assms(1,3) by (simp add: unat_of_nat_small)
  then have a: "len \<le> MAX_PAYLOAD_SIZE" "unat len \<le> length (drop (p * mtu) data)"
    using l assms(3) by (simp_all add: word_le_nat_alt slice_def)
  have "take (unat len) (drop (p * mtu) data) = slice data mtu p"
    unfolding u by (simp add: slice_def min_def)
  then have c: "create_data_packet t m (of_nat p) ppc (drop (p * mtu) data) len
      = Some (Some \<lparr>header = data_header t m (of_nat p) ppc len, payload = slice data mtu p\<rparr>)"
    using create_data_packet_ok [OF a] by simp
  show ?thesis
    unfolding make_datagram_def c data_datagram_def assms(1) [symmetric] by simp
qed

section \<open>Sources and the receiver\<close>

text \<open>
  What the receiver relies on: the datagram of a packet is parsed to the packet's slice of the data
  under the target's slot and generation, as long as its offset fits the header field.
\<close>

locale slice_source =
  fixes dgram :: "nat \<Rightarrow> u8 list"
    and T :: Target
  assumes parses: "0 < t_mtu T \<Longrightarrow> t_mtu T \<le> 65496 \<Longrightarrow> p < 2 ^ 18 \<Longrightarrow> p * t_mtu T < length (t_data T) \<Longrightarrow>
      \<exists>h. parse_datagram (dgram p) = Some (h, slice (t_data T) (t_mtu T) p) \<and> h_msg_id h = t_slot T
        \<and> h_transfer_id h = t_generation T \<and> unat (h_packet_offset h) = p"
begin

lemma handled:
  assumes inv: "rx_inv T rs" and "t_mtu T \<le> 65496" and "p < 2 ^ 18" and "p * t_mtu T < length (t_data T)"
  shows "\<exists>rs'. handle_datagram rs (dgram p) = Some rs' \<and> rx_inv T rs' \<and> rx_frame T rs' = rx_frame T rs
    \<and> rx_received T rs' = insert p (rx_received T rs)"
proof -
  have "0 < t_mtu T" using inv by (simp add: rx_inv_def)
  then obtain h where h: "parse_datagram (dgram p) = Some (h, slice (t_data T) (t_mtu T) p)"
    "h_msg_id h = t_slot T" "h_transfer_id h = t_generation T" "unat (h_packet_offset h) = p"
    using parses assms(2-4) by blast
  have "length (slice (t_data T) (t_mtu T) p) < 2 ^ 16" using assms(2) by (simp add: slice_def)
  then have "rx_good T (h, slice (t_data T) (t_mtu T) p)" using h by (simp add: rx_good_def)
  from deliver_step [OF inv this] show ?thesis
    using h assms(4) by (simp add: handle_datagram_def deliver_def rx_adds_def)
qed

lemma dgram_inj:
  assumes "0 < t_mtu T" and "t_mtu T \<le> 65496" and "p < 2 ^ 18" and "p * t_mtu T < length (t_data T)"
    and "q < 2 ^ 18" and "q * t_mtu T < length (t_data T)" and "dgram p = dgram q"
  shows "p = q"
proof -
  obtain h where h: "parse_datagram (dgram p) = Some (h, slice (t_data T) (t_mtu T) p)"
    "unat (h_packet_offset h) = p" using parses [OF assms(1-4)] by blast
  obtain h' where h': "parse_datagram (dgram q) = Some (h', slice (t_data T) (t_mtu T) q)"
    "unat (h_packet_offset h') = q" using parses [OF assms(1,2,5,6)] by blast
  have "h = h'" using h(1) h'(1) unfolding assms(7) by simp
  with h(2) h'(2) show ?thesis by simp
qed

text \<open>Any selection of the datagrams, in any order and number.\<close>

lemma all_handled:
  assumes "rx_inv T rs" and "t_mtu T \<le> 65496" and "\<forall>p\<in>set ps. p < 2 ^ 18 \<and> p * t_mtu T < length (t_data T)"
  shows "\<exists>rs'. run_all (\<lambda>d rs. handle_datagram rs d) (map dgram ps) rs = Some rs' \<and> rx_inv T rs'
    \<and> rx_frame T rs' = rx_frame T rs \<and> rx_received T rs' = rx_received T rs \<union> set ps"
  using assms(1,3)
proof (induction ps arbitrary: rs)
  case Nil
  then show ?case by simp
next
  case (Cons p ps)
  then have "p < 2 ^ 18" "p * t_mtu T < length (t_data T)" by simp_all
  then obtain r1 where r1: "handle_datagram rs (dgram p) = Some r1" "rx_inv T r1"
    "rx_frame T r1 = rx_frame T rs" "rx_received T r1 = insert p (rx_received T rs)"
    using handled [OF Cons.prems(1) assms(2)] by blast
  with Cons.IH [OF r1(2)] Cons.prems(2) show ?case by auto
qed

text \<open>A list of arrivals taken from the source, and what it takes to have all of the data then.\<close>

lemma arrivals_handled:
  assumes inv: "rx_inv T rs" and mtu: "t_mtu T \<le> 65496"
    and few: "\<forall>p. p * t_mtu T < length (t_data T) \<longrightarrow> p < 2 ^ 18"
    and ds: "set ds \<subseteq> dgram ` {p. p * t_mtu T < length (t_data T)}"
  shows "\<exists>rs'. run_all (\<lambda>d rs. handle_datagram rs d) ds rs = Some rs' \<and> rx_inv T rs'
    \<and> rx_frame T rs' = rx_frame T rs
    \<and> ((\<forall>p. p * t_mtu T < length (t_data T) \<longrightarrow> p \<in> rx_received T rs \<or> dgram p \<in> set ds)
          \<longrightarrow> rs_mem rs' (t_buffer T) = t_data T)"
proof -
  have pos: "0 < t_mtu T" using inv by (simp add: rx_inv_def)
  from ds obtain ps where ps: "ds = map dgram ps" "set ps \<subseteq> {p. p * t_mtu T < length (t_data T)}"
    using list_from_image by blast
  then obtain rs' where rs': "run_all (\<lambda>d rs. handle_datagram rs d) ds rs = Some rs'" "rx_inv T rs'"
    "rx_frame T rs' = rx_frame T rs" "rx_received T rs' = rx_received T rs \<union> set ps"
    using all_handled [OF inv mtu, of ps] few by auto
  have "rs_mem rs' (t_buffer T) = t_data T"
    if all: "\<forall>p. p * t_mtu T < length (t_data T) \<longrightarrow> p \<in> rx_received T rs \<or> dgram p \<in> set ds"
    unfolding rx_inv_buffer [OF rs'(2)]
  proof (rule overlay_all, intro allI impI)
    fix p assume p: "p * t_mtu T < length (t_data T)"
    show "p \<in> rx_received T rs'"
    proof (cases "p \<in> rx_received T rs")
      case False
      with all p ps(1) obtain q where q: "q \<in> set ps" "dgram p = dgram q" by auto
      then have "p = q" using dgram_inj [OF pos mtu] p few ps(2) by auto
      then show ?thesis using q(1) rs'(4) by simp
    qed (simp add: rs'(4))
  qed
  with rs' show ?thesis by blast
qed

end

text \<open>The target that a sender with these parameters addresses.\<close>

definition sender_target :: "u32 \<Rightarrow> u32 \<Rightarrow> nat \<Rightarrow> u8 list \<Rightarrow> nat \<Rightarrow> u8 list \<Rightarrow> Target" where
  "sender_target t m mtu data b old =
     \<lparr> t_slot = ucast m, t_generation = t, t_buffer = b, t_old = old, t_data = data, t_mtu = mtu \<rparr>"

lemma sender_target_simps [simp]:
  "t_slot (sender_target t m mtu data b old) = ucast m"
  "t_generation (sender_target t m mtu data b old) = t"
  "t_buffer (sender_target t m mtu data b old) = b"
  "t_old (sender_target t m mtu data b old) = old"
  "t_data (sender_target t m mtu data b old) = data"
  "t_mtu (sender_target t m mtu data b old) = mtu"
  by (simp_all add: sender_target_def)

interpretation cut_source: slice_source "data_datagram t m ppc mtu data" "sender_target t m mtu data b old"
  for t m ppc mtu data b old
proof unfold_locales
  fix p
  let ?T = "sender_target t m mtu data b old"
  assume mtu: "0 < t_mtu ?T" "t_mtu ?T \<le> 65496" and p: "p < 2 ^ 18" "p * t_mtu ?T < length (t_data ?T)"
  let ?s = "slice data mtu p"
  have l: "length ?s \<le> 65496" using mtu by (simp add: slice_def)
  then have u: "unat (of_nat (length ?s) :: u64) = length ?s" by (simp add: unat_of_nat_small)
  have a: "(of_nat (length ?s) :: u64) \<le> MAX_PAYLOAD_SIZE" "unat (of_nat (length ?s) :: u64) \<le> length ?s"
    using l u by (simp_all add: word_le_nat_alt)
  have "unat (of_nat p :: u32) = p" using p(1) by (intro unat_of_nat_small) simp
  then have off: "unat (ucast (of_nat p :: u32) :: 18 word) = p" using p(1) by (simp add: packet_offset_mod)
  have "create_data_packet t m (of_nat p) ppc ?s (of_nat (length ?s))
      = Some (Some \<lparr>header = data_header t m (of_nat p) ppc (of_nat (length ?s)), payload = ?s\<rparr>)"
    using create_data_packet_ok [OF a, of t m "of_nat p" ppc] u by simp
  from parse_sent [OF a this] show "\<exists>h. parse_datagram (data_datagram t m ppc mtu data p)
      = Some (h, slice (t_data ?T) (t_mtu ?T) p) \<and> h_msg_id h = t_slot ?T
      \<and> h_transfer_id h = t_generation ?T \<and> unat (h_packet_offset h) = p"
    using u off by (auto simp: data_datagram_def)
qed

section \<open>The loop of the one-shot send\<close>

record SendAcc =
  sa_packets_sent :: u64
  sa_packets_failed :: u64
  sa_wire :: "(u16 \<times> u8 list) list"

text \<open>
  \<open>net i\<close> is the result of \<open>sendto\<close> for packet \<open>i\<close>; what is sent goes on the wire with its port.
\<close>

definition send_packet ::
    "ConnectionParams \<Rightarrow> u32 \<Rightarrow> u8 list \<Rightarrow> u64 \<Rightarrow> u16 \<Rightarrow> u16 \<Rightarrow> (u64 \<Rightarrow> int) \<Rightarrow> u64 \<Rightarrow> SendAcc \<Rightarrow> unit + SendAcc" where
  "send_packet params msg_id data len base_port num_channels net i acc =
     (let mtu = (ucast (cp_mtu_bytes params) :: u64);
          packet_offset = (ucast i :: u32);
          remaining = len - i * mtu;
          packet_data_len = min mtu remaining;
          packet_data_len = (if packet_data_len > MAX_PAYLOAD_SIZE then MAX_PAYLOAD_SIZE else packet_data_len)
      in case make_datagram (cp_transfer_id params) msg_id packet_offset (cp_packets_per_chunk params)
                (drop (unat (i * mtu)) data) packet_data_len of
           None \<Rightarrow> Inl ()
         | Some None \<Rightarrow> Inr (acc\<lparr>sa_packets_failed := sa_packets_failed acc + 1\<rparr>)
         | Some (Some bytes) \<Rightarrow>
             (let channel_port = base_port + ucast (i mod ucast num_channels) in
              if net i > 0
              then Inr (acc\<lparr>sa_packets_sent := sa_packets_sent acc + 1,
                           sa_wire := sa_wire acc @ [(channel_port, bytes)]\<rparr>)
              else Inr (acc\<lparr>sa_packets_failed := sa_packets_failed acc + 1\<rparr>)))"

definition send_all_packets ::
    "ConnectionParams \<Rightarrow> u32 \<Rightarrow> u8 list \<Rightarrow> u64 \<Rightarrow> u16 \<Rightarrow> u16 \<Rightarrow> (u64 \<Rightarrow> int) \<Rightarrow> unit + SendAcc" where
  "send_all_packets params msg_id data len base_port num_channels net =
     (let mtu = (ucast (cp_mtu_bytes params) :: u64);
          total_packets = (len + mtu - 1) div mtu
      in for_exit 0 total_packets (send_packet params msg_id data len base_port num_channels net)
           \<lparr> sa_packets_sent = 0, sa_packets_failed = 0, sa_wire = [] \<rparr>)"

definition channel_port :: "u16 \<Rightarrow> u16 \<Rightarrow> nat \<Rightarrow> u16" where
  "channel_port base_port num_channels k = base_port + of_nat (k mod unat num_channels)"

text \<open>What a whole run of the loop has done: the packets that \<open>sendto\<close> took are on the wire.\<close>

definition sent_result :: "ConnectionParams \<Rightarrow> u32 \<Rightarrow> u8 list \<Rightarrow> u16 \<Rightarrow> u16 \<Rightarrow> (u64 \<Rightarrow> int) \<Rightarrow> nat \<Rightarrow> SendAcc" where
  "sent_result params msg_id data base_port num_channels net n =
     (let ok = filter (\<lambda>k. net (of_nat k) > 0) [0..<n]
      in \<lparr> sa_packets_sent = of_nat (length ok), sa_packets_failed = of_nat (n - length ok),
           sa_wire = map (\<lambda>k. (channel_port base_port num_channels k,
             data_datagram (cp_transfer_id params) msg_id (cp_packets_per_chunk params)
               (unat (cp_mtu_bytes params)) data k)) ok \<rparr>)"

lemma ucast_of_nat: "LENGTH('b::len) \<le> LENGTH('a::len) \<Longrightarrow> ucast (of_nat k :: 'a word) = (of_nat k :: 'b word)"
  by (rule bit_word_eqI) (simp add: bit_simps)

text \<open>The length computed for the packet at byte offset \<open>k * mtu\<close> is that of its slice.\<close>

lemma cut_length:
  assumes w: "unat (w :: u64) = mtu" "mtu \<le> 65496" and len: "unat len = length data"
    and off: "unat off = k * mtu" "k * mtu < length data"
  shows "(if min w (len - off) > MAX_PAYLOAD_SIZE then MAX_PAYLOAD_SIZE else min w (len - off))
    = of_nat (length (slice data mtu k))"
proof -
  have rest: "unat (len - off) = length data - k * mtu"
    using off by (subst unat_sub) (simp_all add: len word_le_nat_alt)
  have ls: "length (slice data mtu k) = min mtu (length data - k * mtu)" by (simp add: slice_def min.commute)
  have "unat (min w (len - off)) = length (slice data mtu k)"
    unfolding ls rest [symmetric] by (simp add: min_def word_le_nat_alt w(1))
  then have m: "min w (len - off) = of_nat (length (slice data mtu k))"
    by (metis of_nat_unat ucast_id)
  have "\<not> min w (len - off) > MAX_PAYLOAD_SIZE"
    using w by (simp add: not_less min_le_iff_disj word_le_nat_alt)
  then show ?thesis using m by simp
qed

lemma send_packet_eq:
  assumes mtu: "0 < unat (cp_mtu_bytes params)" "unat (cp_mtu_bytes params) \<le> 65496"
    and len: "unat len = length data" and k: "k * unat (cp_mtu_bytes params) < length data"
  shows "send_packet params msg_id data len base num net (of_nat k) acc =
    Inr (if net (of_nat k) > 0
         then acc\<lparr>sa_packets_sent := sa_packets_sent acc + 1, sa_wire := sa_wire acc @
           [(channel_port base num k, data_datagram (cp_transfer_id params) msg_id
              (cp_packets_per_chunk params) (unat (cp_mtu_bytes params)) data k)]\<rparr>
         else acc\<lparr>sa_packets_failed := sa_packets_failed acc + 1\<rparr>)"
proof -
  let ?mtu = "unat (cp_mtu_bytes params)" and ?w = "ucast (cp_mtu_bytes params) :: u64"
  have L: "length data < 2 ^ 64" using unat_width(6) [of len] by (simp add: len)
  have "k \<le> k * ?mtu" using mtu(1) by simp
  then have kL: "k < 2 ^ 64" using k L by linarith
  then have uk: "unat (of_nat k :: u64) = k" by (intro unat_of_nat_small) simp
  have prod: "unat (of_nat k * ?w) = k * ?mtu"
    unfolding unat_word_ariths(2) uk using k L by (simp add: mod_less)
  have "unat ?w = ?mtu" by simp
  note plen = cut_length [OF this mtu(2) len prod k]
  have port: "ucast (of_nat k mod ucast num :: u64) = (of_nat (k mod unat num) :: u16)"
  proof -
    have "unat (of_nat k mod ucast num :: u64) = k mod unat num" by (simp add: unat_mod uk)
    then have "(of_nat k mod ucast num :: u64) = of_nat (k mod unat num)" by (metis of_nat_unat ucast_id)
    then show ?thesis by (simp add: ucast_of_nat)
  qed
  have off: "ucast (of_nat k :: u64) = (of_nat k :: u32)" by (simp add: ucast_of_nat)
  show ?thesis
    unfolding send_packet_def Let_def plen prod off port
      make_datagram_slice [OF HOL.refl mtu k] channel_port_def by simp
qed

lemma sent_result_Suc:
  "sent_result params msg_id data base num net (Suc k) =
    (let acc = sent_result params msg_id data base num net k in
     if net (of_nat k) > 0
     then acc\<lparr>sa_packets_sent := sa_packets_sent acc + 1, sa_wire := sa_wire acc @
       [(channel_port base num k, data_datagram (cp_transfer_id params) msg_id
          (cp_packets_per_chunk params) (unat (cp_mtu_bytes params)) data k)]\<rparr>
     else acc\<lparr>sa_packets_failed := sa_packets_failed acc + 1\<rparr>)"
proof -
  have "length (filter (\<lambda>k. net (of_nat k) > 0) [0..<k]) \<le> k"
    using length_filter_le [of _ "[0..<k]"] by simp
  then show ?thesis by (simp add: sent_result_def Let_def Suc_diff_le)
qed

lemma send_all_packets_eq:
  assumes mtu: "0 < unat (cp_mtu_bytes params)" "unat (cp_mtu_bytes params) \<le> 65496"
    and len: "unat len = length data" "length data + 65496 \<le> 2 ^ 64"
  defines "n \<equiv> (length data + unat (cp_mtu_bytes params) - 1) div unat (cp_mtu_bytes params)"
  shows "send_all_packets params msg_id data len base num net = Inr (sent_result params msg_id data base num net n)"
    and "\<And>k. k < n \<longleftrightarrow> k * unat (cp_mtu_bytes params) < length data"
proof -
  let ?mtu = "unat (cp_mtu_bytes params)" and ?w = "ucast (cp_mtu_bytes params) :: u64"
  have n_iff: "k < n \<longleftrightarrow> k * ?mtu < length data" for k
    unfolding n_def not_le [symmetric] ceil_div_le_iff [OF mtu(1)] by simp
  then show "\<And>k. k < n \<longleftrightarrow> k * ?mtu < length data" .
  have un: "unat ((len + ?w - 1) div ?w) = n"
    unfolding n_def len(1) [symmetric] using mtu len by (intro unat_ceil_div) auto
  let ?body = "send_packet params msg_id data len base num net"
  let ?P = "\<lambda>k acc. acc = sent_result params msg_id data base num net k"
  have "\<exists>acc. for_exit 0 ((len + ?w - 1) div ?w) ?body \<lparr>sa_packets_sent = 0, sa_packets_failed = 0, sa_wire = []\<rparr>
      = Inr acc \<and> ?P (unat ((len + ?w - 1) div ?w)) acc"
  proof (rule for_exit_total)
    show "?P (unat (0 :: u64)) \<lparr>sa_packets_sent = 0, sa_packets_failed = 0, sa_wire = []\<rparr>"
      by (simp add: sent_result_def)
    show "0 \<le> (len + ?w - 1) div ?w" by simp
  next
    fix k acc assume k: "k < unat ((len + ?w - 1) div ?w)" and P: "?P k acc"
    then have "k * ?mtu < length data" using n_iff un by simp
    from send_packet_eq [OF mtu len(1) this]
    show "\<exists>acc'. ?body (of_nat k) acc = Inr acc' \<and> ?P (Suc k) acc'"
      by (simp add: P sent_result_Suc Let_def)
  qed
  then show "send_all_packets params msg_id data len base num net
      = Inr (sent_result params msg_id data base num net n)"
    by (simp add: send_all_packets_def Let_def un)
qed

end
