(* ===== verification/Api.thy ===== *)
theory Api
  imports Sender
begin

text \<open>
  The public interface of \<open>include/sdr_api.h\<close> and \<open>src/sdr_api.cpp\<close>: contexts and connections, posting
  and completing a receive, the one-shot and the streaming send.  System calls and the bytes arriving
  on the control connection are arguments; what goes out on it, and the datagrams, are results.
\<close>

section \<open>State\<close>

text \<open>
  How a call ends: it returns, it is still waiting when the given events are used up, or it has left
  the defined behaviour (a null or dangling pointer, an access out of bounds, a division by zero).
\<close>

datatype 'a run = Ret 'a | Blocked | Crash

fun run_bind :: "'a run \<Rightarrow> ('a \<Rightarrow> 'b run) \<Rightarrow> 'b run" where
  "run_bind (Ret x) f = f x"
| "run_bind Blocked f = Blocked"
| "run_bind Crash f = Crash"

record SDRContext =
  ctx_device_name :: string
  ctx_next_msg_id :: u32

record SDRConnection =
  sc_connection_ctx :: ConnectionContext
  sc_udp_receiver :: "UDPReceiver option"
  sc_tcp_server :: "TCPControlServer option"
  sc_tcp_client :: "TCPControlClient option"
  sc_is_receiver :: bool

text \<open>The rest of a process: its context, the static counters, the user's buffers.\<close>

record Host =
  hs_ctx :: SDRContext
  hs_next_conn_id :: u32
  hs_receiver_generation_counter :: u32
  hs_mem :: "nat \<Rightarrow> u8 list"

text \<open>\<open>rh_msg_ctx\<close> is the pointer to the message context, as its slot and the generation it has there.\<close>

record SDRRecvHandle =
  rh_msg_id :: u32
  rh_generation :: u32
  rh_msg_ctx :: "u32 \<times> u32"
  rh_user_buffer :: BufRef
  rh_buffer_size :: u64

record SDRSendHandle =
  sh_msg_id :: u32
  sh_generation :: u32
  sh_user_buffer :: "u8 list"
  sh_buffer_size :: u64
  sh_packets_sent :: u64

record SDRStreamHandle =
  st_msg_id :: u32
  st_generation :: u32
  st_user_buffer :: "u8 list"
  st_buffer_size :: u64
  st_total_packets :: u64
  st_packets_sent :: u64
  st_is_active :: bool

section \<open>Contexts and connections\<close>

definition allocate_msg_id :: "SDRContext \<Rightarrow> u32 \<times> SDRContext" where
  "allocate_msg_id ctx =
     (ctx_next_msg_id ctx mod 1024, ctx\<lparr>ctx_next_msg_id := (ctx_next_msg_id ctx + 1) mod 1024\<rparr>)"

definition sdr_ctx_create :: "string option \<Rightarrow> SDRContext" where
  "sdr_ctx_create device_name =
     (let ctx = \<lparr> ctx_device_name = [], ctx_next_msg_id = 0 \<rparr>
      in case device_name of None \<Rightarrow> ctx | Some n \<Rightarrow> ctx\<lparr>ctx_device_name := n\<rparr>)"

definition SDRConnection_new :: SDRConnection where
  "SDRConnection_new = \<lparr> sc_connection_ctx = ConnectionContext_new, sc_udp_receiver = None,
     sc_tcp_server = None, sc_tcp_client = None, sc_is_receiver = False \<rparr>"

text \<open>The context created for a connection: a new id and zeroed parameters.\<close>

definition new_connection_ctx :: "Host \<Rightarrow> ConnectionContext \<times> Host" where
  "new_connection_ctx host =
     (let (conn_id, next_id) = allocate_connection_id (hs_next_conn_id host)
      in (snd (cc_initialize ConnectionContext_new conn_id zero_params), host\<lparr>hs_next_conn_id := next_id\<rparr>))"

text \<open>The last component lists the descriptors closed; a failed connection object is deleted.\<close>

definition sdr_listen :: "Host \<Rightarrow> bool \<Rightarrow> u16 \<Rightarrow> ListenSys \<Rightarrow> SDRConnection option \<times> Host \<times> int list" where
  "sdr_listen host ctx_given tcp_port sys =
     (if \<not> ctx_given then (None, host, [])
      else
        let (ok, srv, closed) = start_listening TCPControlServer_new tcp_port sys in
        if \<not> ok then (None, host, closed @ snd (server_stop srv))
        else
          let (cc, host) = new_connection_ctx host
          in (Some (SDRConnection_new\<lparr>sc_is_receiver := True, sc_tcp_server := Some srv,
                sc_connection_ctx := cc\<rparr>), host, closed))"

definition sdr_connect :: "Host \<Rightarrow> bool \<Rightarrow> bool \<Rightarrow> ConnectSys \<Rightarrow> SDRConnection option \<times> Host \<times> int list" where
  "sdr_connect host ctx_given ip_given sys =
     (if \<not> ctx_given \<or> \<not> ip_given then (None, host, [])
      else
        let (ok, cl, closed) = connect_to_server TCPControlClient_new sys in
        if \<not> ok then (None, host, closed @ snd (client_disconnect cl))
        else
          let (cc, host) = new_connection_ctx host
          in (Some (SDRConnection_new\<lparr>sc_is_receiver := False, sc_tcp_client := Some cl,
                sc_connection_ctx := cc\<rparr>), host, closed))"

text \<open>Everything the connection has open is closed; the object is deleted.\<close>

definition sdr_disconnect :: "SDRConnection option \<Rightarrow> int list" where
  "sdr_disconnect conn =
     (case conn of
        None \<Rightarrow> []
      | Some c \<Rightarrow>
          (case sc_udp_receiver c of None \<Rightarrow> [] | Some r \<Rightarrow> snd (ur_stop r)) @
          (case sc_tcp_server c of
             None \<Rightarrow> []
           | Some srv \<Rightarrow>
               (let (srv, closed) = close_connection srv; (srv, closed') = server_stop srv
                in closed @ closed')) @
          (case sc_tcp_client c of None \<Rightarrow> [] | Some cl \<Rightarrow> snd (client_disconnect cl)))"

definition sdr_set_params :: "SDRConnection \<Rightarrow> bool \<Rightarrow> ConnectionParams option \<Rightarrow> int \<times> SDRConnection" where
  "sdr_set_params conn conn_given params =
     (case params of
        None \<Rightarrow> (- 1, conn)
      | Some p \<Rightarrow>
          (if \<not> conn_given then (- 1, conn)
           else (0, conn\<lparr>sc_connection_ctx := snd (cc_initialize (sc_connection_ctx conn)
                  (cc_connection_id (sc_connection_ctx conn)) p)\<rparr>)))"

section \<open>Posting a receive\<close>

text \<open>\<open>strncpy(dst, src, n)\<close>: the characters of \<open>src\<close>, then zeros up to \<open>n\<close>.\<close>

definition strncpy :: "u8 list \<Rightarrow> u8 list \<Rightarrow> nat \<Rightarrow> u8 list" where
  "strncpy dst src n =
     (let s = takeWhile (\<lambda>c. c \<noteq> 0) (take n src) in s @ replicate (n - length s) 0 @ drop n dst)"

definition set_ip :: "u8 list \<Rightarrow> u8 list \<Rightarrow> u8 list" where
  "set_ip dst src = (strncpy dst src 15)[15 := 0]"

text \<open>The characters of \<open>127.0.0.1\<close>.\<close>

definition loopback :: "u8 list" where
  "loopback = [49, 50, 55, 46, 48, 46, 48, 46, 49, 0]"

definition negotiate :: "ConnectionParams \<Rightarrow> ConnectionParams \<Rightarrow> u64 \<Rightarrow> ConnectionParams" where
  "negotiate params offer len =
     (let params = params\<lparr>cp_total_bytes := (if cp_total_bytes offer \<noteq> 0 then cp_total_bytes offer else len)\<rparr>;
          max_payload = (ucast MAX_PAYLOAD_SIZE :: u32);
          proposed_mtu = (if cp_mtu_bytes params \<noteq> 0 then cp_mtu_bytes params
             else if cp_mtu_bytes offer \<noteq> 0 then cp_mtu_bytes offer else max_payload);
          proposed_mtu = (if proposed_mtu = 0 then max_payload else proposed_mtu);
          params = params\<lparr>cp_mtu_bytes := min proposed_mtu max_payload\<rparr>;
          params = params\<lparr>cp_packets_per_chunk :=
             (if cp_packets_per_chunk params \<noteq> 0 then cp_packets_per_chunk params
              else if cp_packets_per_chunk offer \<noteq> 0 then cp_packets_per_chunk offer else 64)\<rparr>;
          params = params\<lparr>cp_num_channels :=
             (if cp_num_channels offer \<noteq> 0 then cp_num_channels offer
              else if cp_num_channels params \<noteq> 0 then cp_num_channels params else 1)\<rparr>;
          params = params\<lparr>cp_udp_server_port :=
             (if cp_udp_server_port params = 0
              then (if cp_channel_base_port params \<noteq> 0 then cp_channel_base_port params else 9999)
              else cp_udp_server_port params)\<rparr>;
          params = params\<lparr>cp_channel_base_port :=
             (if cp_channel_base_port params \<noteq> 0 then cp_channel_base_port params
              else cp_udp_server_port params)\<rparr>;
          params = params\<lparr>cp_udp_server_ip :=
             (if cp_udp_server_ip params ! 0 = 0
              then (if cp_udp_server_ip offer ! 0 \<noteq> 0
                    then set_ip (cp_udp_server_ip params) (cp_udp_server_ip offer)
                    else set_ip (cp_udp_server_ip params) loopback)
              else cp_udp_server_ip params)\<rparr>
      in params\<lparr>cp_transfer_id := (if cp_transfer_id params = 0 then 1 else cp_transfer_id params)\<rparr>)"

text \<open>The results of the system calls of a receive post, and the indeterminate bytes of its locals.\<close>

record RecvPostSys =
  rps_channels :: "u16 \<Rightarrow> ChannelSys"
  rps_send :: int
  rps_pad :: padding
  rps_locals :: ControlMessage

record RecvPost =
  rp_rc :: int
  rp_host :: Host
  rp_conn :: SDRConnection
  rp_handle :: "SDRRecvHandle option"
  rp_out :: "u8 list"
  rp_closed :: "int list"
  rp_rest :: "NetEvent list"

definition wanted :: "ControlMsgType \<Rightarrow> ControlMessage \<Rightarrow> bool" where
  "wanted t m \<longleftrightarrow> cm_msg_type m = ctl_code t"

text \<open>
  The part after the offer up to the receive handle: the message id, the parameters, the slot and its
  set up.  A failed allocation returns the state without a handle.
\<close>

definition post_message ::
    "Host \<Rightarrow> ConnectionContext \<Rightarrow> BufRef \<Rightarrow> u64 \<Rightarrow> ConnectionParams
      \<Rightarrow> (SDRRecvHandle \<times> ConnectionParams) option \<times> Host \<times> ConnectionContext" where
  "post_message host cc buffer len offer =
     (let (msg_id, ctx) = allocate_msg_id (hs_ctx host);
          params = negotiate (cc_params cc) offer len;
          cc = snd (cc_initialize cc (cc_connection_id cc) params);
          (total_packets, total_chunks) =
            calculate_bitmap_sizes len (cp_mtu_bytes params) (cp_packets_per_chunk params);
          generation = hs_receiver_generation_counter host;
          host = host\<lparr>hs_ctx := ctx, hs_receiver_generation_counter := generation + 1\<rparr>;
          params = params\<lparr>cp_transfer_id := generation\<rparr>
      in case allocate_message_slot cc msg_id generation of
           (None, cc) \<Rightarrow> (None, host, cc)
         | (Some mc, cc) \<Rightarrow>
             (Some (\<lparr> rh_msg_id = msg_id, rh_generation = generation,
                      rh_msg_ctx = (msg_id, mc_generation mc), rh_user_buffer = buffer,
                      rh_buffer_size = len \<rparr>, params),
              host, update_message cc msg_id (setup_message buffer len total_packets total_chunks params)))"

definition cts_message :: "ControlMessage \<Rightarrow> u32 \<Rightarrow> ConnectionParams \<Rightarrow> ControlMessage" where
  "cts_message locals conn_id params =
     locals\<lparr>cm_magic := CTL_MAGIC_VALUE, cm_msg_type := ctl_code CTS, cm_connection_id := conn_id,
            cm_params := params\<rparr>"

text \<open>Starting the channels, sending the CTS and waiting for the ACCEPT.\<close>

definition finish_recv_post ::
    "Host \<Rightarrow> SDRConnection \<Rightarrow> TCPControlServer \<Rightarrow> SDRRecvHandle \<Rightarrow> ConnectionParams \<Rightarrow> NetEvent list
      \<Rightarrow> RecvPostSys \<Rightarrow> RecvPost run" where
  "finish_recv_post host conn srv handle params evs sys =
     (let (started, receiver, cc, closed) =
            (case sc_udp_receiver conn of
               Some r \<Rightarrow> (True, r, sc_connection_ctx conn, [])
             | None \<Rightarrow> ur_start UDPReceiver_new (sc_connection_ctx conn) (cp_channel_base_port params)
                         (cp_num_channels params) (rps_channels sys));
          conn = conn\<lparr>sc_udp_receiver := Some receiver, sc_connection_ctx := cc\<rparr>;
          result = \<lparr> rp_rc = - 1, rp_host = host, rp_conn = conn, rp_handle = Some handle, rp_out = [],
                     rp_closed = closed, rp_rest = evs \<rparr>
      in if \<not> started then Ret result
         else
           let (cts_ok, out) =
             (if client_fd srv \<ge> 0
              then server_send srv (rps_pad sys)
                     (cts_message (rps_locals sys) (cc_connection_id cc) params) (rps_send sys)
              else (True, []))
           in if \<not> cts_ok then Ret (result\<lparr>rp_out := out\<rparr>)
              else case await_msg server_receive server_alive (wanted ACCEPT) srv zero_message evs of
                  None \<Rightarrow> Blocked
                | Some (r, srv', evs') \<Rightarrow>
                    Ret (result\<lparr>rp_rc := (if r = None then - 1 else 0), rp_out := out,
                          rp_conn := conn\<lparr>sc_tcp_server := Some srv'\<rparr>, rp_rest := evs'\<rparr>))"

definition sdr_recv_post ::
    "Host \<Rightarrow> SDRConnection \<Rightarrow> bool \<Rightarrow> BufRef \<Rightarrow> u64 \<Rightarrow> bool \<Rightarrow> NetEvent list \<Rightarrow> RecvPostSys \<Rightarrow> RecvPost run" where
  "sdr_recv_post host conn conn_given buffer len handle_given evs sys =
     (let failed = \<lparr> rp_rc = - 1, rp_host = host, rp_conn = conn, rp_handle = None, rp_out = [],
                      rp_closed = [], rp_rest = evs \<rparr> in
      if \<not> conn_given \<or> buffer = NullPtr \<or> len = 0 \<or> \<not> handle_given then Ret failed
      else if \<not> sc_is_receiver conn then Ret failed
      else case sc_tcp_server conn of
          None \<Rightarrow> Crash
        | Some srv \<Rightarrow>
            (case await_msg server_receive server_alive (wanted OFFER) srv zero_message evs of
               None \<Rightarrow> Blocked
             | Some (None, srv', evs') \<Rightarrow>
                 Ret (failed\<lparr>rp_conn := conn\<lparr>sc_tcp_server := Some srv'\<rparr>, rp_rest := evs'\<rparr>)
             | Some (Some offer, srv', evs') \<Rightarrow>
                 (let conn = conn\<lparr>sc_tcp_server := Some srv'\<rparr> in
                  case post_message host (sc_connection_ctx conn) buffer len (cm_params offer) of
                    (None, host', cc') \<Rightarrow>
                      Ret (failed\<lparr>rp_host := host', rp_conn := conn\<lparr>sc_connection_ctx := cc'\<rparr>,
                                  rp_rest := evs'\<rparr>)
                  | (Some (handle, params), host', cc') \<Rightarrow>
                      finish_recv_post host' (conn\<lparr>sc_connection_ctx := cc'\<rparr>) srv' handle params evs' sys)))"

section \<open>Observing and completing a receive\<close>

text \<open>Following the handle's pointer: \<open>None\<close> when the context it pointed to is gone.\<close>

definition deref_ctx :: "SDRConnection \<Rightarrow> SDRRecvHandle \<Rightarrow> MessageContext option" where
  "deref_ctx conn handle =
     (let (slot, gen) = rh_msg_ctx handle in
      case cc_msg_table (sc_connection_ctx conn) ! unat slot of
        None \<Rightarrow> None
      | Some mc \<Rightarrow> (if mc_generation mc = gen then Some mc else None))"

text \<open>The answer is the return code, the words the pointer shows, and the length in bytes.\<close>

definition sdr_recv_bitmap_get ::
    "SDRConnection \<Rightarrow> SDRRecvHandle option \<Rightarrow> bool \<Rightarrow> bool \<Rightarrow> (int \<times> u64 list \<times> u64) run" where
  "sdr_recv_bitmap_get conn handle bitmap_given len_given =
     (case handle of
        None \<Rightarrow> Ret (- 1, [], 0)
      | Some h \<Rightarrow>
          (if \<not> bitmap_given \<or> \<not> len_given then Ret (- 1, [], 0)
           else case deref_ctx conn h of
               None \<Rightarrow> Crash
             | Some mc \<Rightarrow>
                 (case mc_frontend mc of
                    None \<Rightarrow> Ret (- 1, [], 0)
                  | Some f \<Rightarrow> Ret (0, chunk_bitmap f, ucast (fb_num_words f) * 8))))"

record RecvComplete =
  rc_rc :: int
  rc_conn :: SDRConnection
  rc_out :: "u8 list"

definition completion_message :: "ControlMessage \<Rightarrow> bool \<Rightarrow> u32 \<Rightarrow> ControlMessage" where
  "completion_message locals is_complete conn_id =
     locals\<lparr>cm_magic := CTL_MAGIC_VALUE,
            cm_msg_type := ctl_code (if is_complete then COMPLETE_ACK else INCOMPLETE_NACK),
            cm_connection_id := conn_id, cm_params := zero_params\<rparr>"

text \<open>Whether the transfer counts as complete.\<close>

definition transfer_complete :: "MessageContext \<Rightarrow> bool run" where
  "transfer_complete mc =
     (if mc_state mc = COMPLETED then Ret True
      else case mc_frontend mc of
          None \<Rightarrow> Ret False
        | Some f \<Rightarrow>
            (case get_total_chunks_completed f of
               None \<Rightarrow> Crash
             | Some chunks_received \<Rightarrow>
                 (let total_chunks = (ucast (mc_total_chunks mc) :: u32)
                  in Ret (total_chunks > 0 \<and> chunks_received \<ge> total_chunks))))"

text \<open>
  \<open>conn\<close> is the connection stored in the handle, which every handle has.  \<open>sent\<close>, \<open>pad\<close> and \<open>locals\<close>
  are the result of \<open>send\<close> and the indeterminate bytes.
\<close>

definition sdr_recv_complete ::
    "SDRConnection \<Rightarrow> SDRRecvHandle option \<Rightarrow> int \<Rightarrow> padding \<Rightarrow> ControlMessage \<Rightarrow> RecvComplete run" where
  "sdr_recv_complete conn handle sent pad locals =
     (case handle of
        None \<Rightarrow> Ret \<lparr> rc_rc = - 1, rc_conn = conn, rc_out = [] \<rparr>
      | Some h \<Rightarrow>
          (case deref_ctx conn h of
             None \<Rightarrow> Crash
           | Some mc \<Rightarrow>
               run_bind (transfer_complete (mc\<lparr>mc_frontend := map_option stop_polling (mc_frontend mc)\<rparr>))
                 (\<lambda>is_complete.
                    let cc = update_message (sc_connection_ctx conn) (fst (rh_msg_ctx h))
                               (\<lambda>mc. mc\<lparr>mc_frontend := map_option stop_polling (mc_frontend mc)\<rparr>);
                        cc = complete_message cc (rh_msg_id h);
                        out = (case sc_tcp_server conn of
                                 None \<Rightarrow> []
                               | Some srv \<Rightarrow>
                                   (if sc_is_receiver conn
                                    then snd (server_send srv pad (completion_message locals is_complete
                                           (cc_connection_id cc)) sent)
                                    else []))
                    in Ret \<lparr> rc_rc = 0, rc_conn = conn\<lparr>sc_connection_ctx := cc\<rparr>, rc_out = out \<rparr>)))"

section \<open>The one-shot send\<close>

text \<open>Results of the system calls: the sends of OFFER and ACCEPT, the UDP socket, \<open>inet_pton\<close>, \<open>sendto\<close>.\<close>

record SendPostSys =
  sps_offer :: int
  sps_accept :: int
  sps_socket :: int
  sps_inet_pton :: "u8 list \<Rightarrow> int"
  sps_sendto :: "u64 \<Rightarrow> int"
  sps_pad :: padding

record SendPost =
  sp_rc :: int
  sp_host :: Host
  sp_conn :: SDRConnection
  sp_handle :: "SDRSendHandle option"
  sp_out :: "u8 list"
  sp_wire :: "(u16 \<times> u8 list) list"
  sp_rest :: "NetEvent list"

definition desired_params :: "ConnectionParams \<Rightarrow> u64 \<Rightarrow> ConnectionParams" where
  "desired_params params len =
     (let d = params\<lparr>cp_total_bytes := len\<rparr>;
          d = (if cp_mtu_bytes d = 0 then d\<lparr>cp_mtu_bytes := ucast MAX_PAYLOAD_SIZE\<rparr> else d);
          d = (if cp_packets_per_chunk d = 0 then d\<lparr>cp_packets_per_chunk := 32\<rparr> else d);
          d = (if cp_num_channels d = 0 then d\<lparr>cp_num_channels := 1\<rparr> else d)
      in d\<lparr>cp_udp_server_port := 0, cp_udp_server_ip := replicate (length (cp_udp_server_ip d)) 0\<rparr>)"

definition offer_message :: "ConnectionContext \<Rightarrow> u64 \<Rightarrow> ControlMessage" where
  "offer_message cc len =
     zero_message\<lparr>cm_magic := CTL_MAGIC_VALUE, cm_msg_type := ctl_code OFFER,
       cm_connection_id := cc_connection_id cc, cm_params := desired_params (cc_params cc) len\<rparr>"

definition accept_message :: "ControlMessage \<Rightarrow> ControlMessage" where
  "accept_message cts =
     zero_message\<lparr>cm_magic := CTL_MAGIC_VALUE, cm_msg_type := ctl_code ACCEPT,
       cm_connection_id := cm_connection_id cts, cm_params := cm_params cts\<rparr>"

text \<open>
  From the received CTS on.  After a failure of \<open>socket\<close> or \<open>inet_pton\<close> the handle object is deleted
  although \<open>*handle\<close> has been assigned; no handle is returned then.
\<close>

definition send_after_cts ::
    "Host \<Rightarrow> SDRConnection \<Rightarrow> TCPControlClient \<Rightarrow> u8 list \<Rightarrow> u64 \<Rightarrow> ControlMessage \<Rightarrow> u8 list \<Rightarrow> NetEvent list
      \<Rightarrow> SendPostSys \<Rightarrow> SendPost run" where
  "send_after_cts host conn cl data len cts out evs sys =
     (let cc = snd (cc_initialize (sc_connection_ctx conn) (cm_connection_id cts) (cm_params cts));
          (_, cl, out2) = client_send cl (sps_pad sys) (accept_message cts) (sps_accept sys);
          conn = conn\<lparr>sc_connection_ctx := cc, sc_tcp_client := Some cl\<rparr>;
          result = \<lparr> sp_rc = - 1, sp_host = host, sp_conn = conn, sp_handle = None, sp_out = out @ out2,
                     sp_wire = [], sp_rest = evs \<rparr>
      in if cp_mtu_bytes (cm_params cts) = 0 then Ret result
         else if cp_packets_per_chunk (cm_params cts) = 0 then Ret result
         else
           let (msg_id, ctx) = allocate_msg_id (hs_ctx host);
               result = result\<lparr>sp_host := host\<lparr>hs_ctx := ctx\<rparr>\<rparr>;
               handle = \<lparr> sh_msg_id = msg_id, sh_generation = cp_transfer_id (cm_params cts),
                          sh_user_buffer = data, sh_buffer_size = len, sh_packets_sent = 0 \<rparr>;
               params = (if cp_udp_server_ip (cm_params cts) ! 0 = 0
                 then (cm_params cts)\<lparr>cp_udp_server_ip := set_ip (cp_udp_server_ip (cm_params cts)) loopback\<rparr>
                 else cm_params cts)
           in if sps_socket sys < 0 then Ret result
              else if sps_inet_pton sys (cp_udp_server_ip params) \<le> 0 then Ret result
              else
                let num_channels = (if cp_num_channels params = 0 then 1 else cp_num_channels params);
                    base_port = (if cp_channel_base_port params = 0 then cp_udp_server_port params
                                 else cp_channel_base_port params)
                in if cc_auto_send_data cc
                   then (case send_all_packets params msg_id data len base_port num_channels (sps_sendto sys) of
                           Inl _ \<Rightarrow> Crash
                         | Inr acc \<Rightarrow>
                             Ret (result\<lparr>sp_rc := 0, sp_wire := sa_wire acc,
                               sp_handle := Some (handle\<lparr>sh_packets_sent := sa_packets_sent acc\<rparr>)\<rparr>))
                   else Ret (result\<lparr>sp_rc := 0, sp_handle := Some handle\<rparr>))"

text \<open>\<open>data\<close> is the user's buffer, \<open>None\<close> a null pointer.\<close>

definition sdr_send_post ::
    "Host \<Rightarrow> SDRConnection \<Rightarrow> bool \<Rightarrow> u8 list option \<Rightarrow> u64 \<Rightarrow> bool \<Rightarrow> NetEvent list \<Rightarrow> SendPostSys
      \<Rightarrow> SendPost run" where
  "sdr_send_post host conn conn_given data len handle_given evs sys =
     (let failed = \<lparr> sp_rc = - 1, sp_host = host, sp_conn = conn, sp_handle = None, sp_out = [],
                      sp_wire = [], sp_rest = evs \<rparr> in
      case data of
        None \<Rightarrow> Ret failed
      | Some bytes \<Rightarrow>
          if \<not> conn_given \<or> len = 0 \<or> \<not> handle_given then Ret failed
          else if sc_is_receiver conn then Ret failed
          else case sc_tcp_client conn of
              None \<Rightarrow> Ret failed
            | Some cl \<Rightarrow>
                (if \<not> is_connected cl then Ret failed
                 else
                   let (ok, cl, out) = client_send cl (sps_pad sys)
                          (offer_message (sc_connection_ctx conn) len) (sps_offer sys);
                       conn = conn\<lparr>sc_tcp_client := Some cl\<rparr>
                   in if \<not> ok then Ret (failed\<lparr>sp_conn := conn, sp_out := out\<rparr>)
                      else case await_msg client_receive is_connected (wanted CTS) cl zero_message evs of
                          None \<Rightarrow> Blocked
                        | Some (None, cl', evs') \<Rightarrow>
                            Ret (failed\<lparr>sp_conn := conn\<lparr>sc_tcp_client := Some cl'\<rparr>, sp_out := out,
                                         sp_rest := evs'\<rparr>)
                        | Some (Some cts, cl', evs') \<Rightarrow>
                            send_after_cts host conn cl' bytes len cts out evs' sys))"

definition is_completion :: "ControlMessage \<Rightarrow> bool" where
  "is_completion m \<longleftrightarrow> wanted COMPLETE_ACK m \<or> wanted INCOMPLETE_NACK m"

text \<open>The result, the client and the events left.\<close>

definition sdr_send_poll ::
    "bool \<Rightarrow> TCPControlClient option \<Rightarrow> NetEvent list \<Rightarrow> (int \<times> TCPControlClient option \<times> NetEvent list) run" where
  "sdr_send_poll handle_given client evs =
     (if \<not> handle_given then Ret (- 1, client, evs)
      else case client of
          None \<Rightarrow> Ret (0, client, evs)
        | Some cl \<Rightarrow>
            (if \<not> is_connected cl then Ret (0, client, evs)
             else case await_msg client_receive is_connected is_completion cl zero_message evs of
                 None \<Rightarrow> Blocked
               | Some (None, cl', evs') \<Rightarrow> Ret (- 1, Some cl', evs')
               | Some (Some m, cl', evs') \<Rightarrow>
                   Ret (if wanted COMPLETE_ACK m then 0 else - 1, Some cl', evs')))"

section \<open>The streaming send\<close>

record StreamStart =
  ss_rc :: int
  ss_host :: Host
  ss_conn :: SDRConnection
  ss_handle :: "SDRStreamHandle option"
  ss_rest :: "NetEvent list"

definition sdr_send_stream_start ::
    "Host \<Rightarrow> SDRConnection \<Rightarrow> bool \<Rightarrow> u8 list option \<Rightarrow> u64 \<Rightarrow> u32 \<Rightarrow> bool \<Rightarrow> ControlMessage \<Rightarrow> NetEvent list
      \<Rightarrow> StreamStart run" where
  "sdr_send_stream_start host conn conn_given data len initial_offset handle_given locals evs =
     (let failed = \<lparr> ss_rc = - 1, ss_host = host, ss_conn = conn, ss_handle = None, ss_rest = evs \<rparr> in
      case data of
        None \<Rightarrow> Ret failed
      | Some bytes \<Rightarrow>
          if \<not> conn_given \<or> \<not> handle_given then Ret failed
          else if sc_is_receiver conn then Ret failed
          else case sc_tcp_client conn of
              None \<Rightarrow> Ret failed
            | Some cl \<Rightarrow>
                (if \<not> is_connected cl then Ret failed
                 else case client_receive cl locals evs of
                     None \<Rightarrow> Blocked
                   | Some (ok, cts, cl', evs') \<Rightarrow>
                       (let conn = conn\<lparr>sc_tcp_client := Some cl'\<rparr>;
                            failed = failed\<lparr>ss_conn := conn, ss_rest := evs'\<rparr> in
                        if \<not> ok then Ret failed
                        else if \<not> wanted CTS cts then Ret failed
                        else
                          let conn = conn\<lparr>sc_connection_ctx := snd (cc_initialize (sc_connection_ctx conn)
                                 (cm_connection_id cts) (cm_params cts))\<rparr>;
                              (msg_id, ctx) = allocate_msg_id (hs_ctx host);
                              mtu = (ucast (cp_mtu_bytes (cm_params cts)) :: u64)
                          in if mtu = 0 then Crash
                             else Ret \<lparr> ss_rc = 0, ss_host = host\<lparr>hs_ctx := ctx\<rparr>, ss_conn = conn,
                               ss_handle = Some \<lparr> st_msg_id = msg_id,
                                 st_generation = cp_transfer_id (cm_params cts), st_user_buffer = bytes,
                                 st_buffer_size = len, st_total_packets = (len + mtu - 1) div mtu,
                                 st_packets_sent = 0, st_is_active = True \<rparr>,
                               ss_rest = evs' \<rparr>)))"

text \<open>
  One turn of the loop of \<open>sdr_send_stream_continue\<close>: the byte offset \<open>i * mtu_bytes\<close> is computed in 32
  bits.  \<open>Inl (Some x)\<close> leaves the loop, \<open>Inl None\<close> is a fault.
\<close>

definition stream_packet ::
    "ConnectionParams \<Rightarrow> SDRStreamHandle \<Rightarrow> u16 \<Rightarrow> u16 \<Rightarrow> (u32 \<Rightarrow> int) \<Rightarrow> u32
      \<Rightarrow> u64 \<times> (u16 \<times> u8 list) list \<Rightarrow> (u64 \<times> (u16 \<times> u8 list) list) option + u64 \<times> (u16 \<times> u8 list) list" where
  "stream_packet params handle base_port num_channels net i acc =
     (if \<not> (ucast i < st_total_packets handle) then Inl (Some acc)
      else
        let byte_offset = i * cp_mtu_bytes params;
            packet_data_len = min (ucast (cp_mtu_bytes params)) (st_buffer_size handle - ucast byte_offset)
        in case make_datagram (cp_transfer_id params) (st_msg_id handle) i (cp_packets_per_chunk params)
                  (drop (unat byte_offset) (st_user_buffer handle)) packet_data_len of
             None \<Rightarrow> Inl None
           | Some None \<Rightarrow> Inr acc
           | Some (Some bytes) \<Rightarrow>
               (let port = base_port + ucast (i mod ucast num_channels) in
                if net i > 0 then Inr (fst acc + 1, snd acc @ [(port, bytes)]) else Inr acc))"

definition sdr_send_stream_continue ::
    "ConnectionContext \<Rightarrow> SDRStreamHandle option \<Rightarrow> u32 \<Rightarrow> u64 \<Rightarrow> int \<Rightarrow> (u8 list \<Rightarrow> int) \<Rightarrow> (u32 \<Rightarrow> int)
      \<Rightarrow> (int \<times> SDRStreamHandle option \<times> (u16 \<times> u8 list) list) run" where
  "sdr_send_stream_continue cc handle offset len socket_result inet_pton_result net =
     (case handle of
        None \<Rightarrow> Ret (- 1, None, [])
      | Some h \<Rightarrow>
          (if \<not> st_is_active h then Ret (- 1, Some h, [])
           else
             let params = cc_params cc; mtu = cp_mtu_bytes params in
             if mtu = 0 then Crash
             else
               let start_packet = offset div mtu;
                   end_packet = (ucast ((ucast offset + len + ucast mtu - 1) div ucast mtu :: u64) :: u32);
                   num_channels = (if cp_num_channels params = 0 then 1 else cp_num_channels params);
                   base_port = (if cp_channel_base_port params = 0 then cp_udp_server_port params
                                else cp_channel_base_port params)
               in if socket_result < 0 then Ret (- 1, Some h, [])
                  else if inet_pton_result (cp_udp_server_ip params) \<le> 0 then Ret (- 1, Some h, [])
                  else case for_exit start_packet end_packet
                         (stream_packet params h base_port num_channels net) (st_packets_sent h, []) of
                      Inl None \<Rightarrow> Crash
                    | Inl (Some (n, wire)) \<Rightarrow> Ret (0, Some (h\<lparr>st_packets_sent := n\<rparr>), wire)
                    | Inr (n, wire) \<Rightarrow> Ret (0, Some (h\<lparr>st_packets_sent := n\<rparr>), wire)))"

definition sdr_send_stream_end :: "SDRStreamHandle option \<Rightarrow> int" where
  "sdr_send_stream_end handle = (case handle of None \<Rightarrow> - 1 | Some h \<Rightarrow> 0)"

section \<open>Negotiation\<close>

lemma strncpy_length: "length dst = 16 \<Longrightarrow> length (set_ip dst src) = 16"
  using length_takeWhile_le [of "\<lambda>c. c \<noteq> 0" "take 15 src"] by (simp add: set_ip_def strncpy_def Let_def)

lemma strncpy_first:
  assumes "length dst = 16" and "src \<noteq> []" and "src ! 0 \<noteq> 0"
  shows "set_ip dst src ! 0 = src ! 0" and "set_ip dst src ! 15 = 0"
proof -
  obtain c cs where src: "src = c # cs" "c \<noteq> 0" using assms(2,3) by (cases src) auto
  have l: "length (strncpy dst src 15) = 16"
    using assms(1) length_takeWhile_le [of "\<lambda>c. c \<noteq> 0" "take 15 src"] by (simp add: strncpy_def Let_def)
  then show "set_ip dst src ! 15 = 0" by (simp add: set_ip_def)
  have "strncpy dst src 15 ! 0 = c" by (simp add: strncpy_def src Let_def eval_nat_numeral)
  then show "set_ip dst src ! 0 = src ! 0" by (simp add: set_ip_def src)
qed

lemma wf_params_nonempty: "wf_params p \<Longrightarrow> cp_udp_server_ip p \<noteq> []"
  by (auto simp: wf_params_def)

text \<open>Every field of the outcome.\<close>

lemma negotiate_fields:
  fixes params offer len
  defines "r \<equiv> negotiate params offer len"
  shows "cp_total_bytes r = (if cp_total_bytes offer \<noteq> 0 then cp_total_bytes offer else len)"
    and "cp_mtu_bytes r = min (if cp_mtu_bytes params \<noteq> 0 then cp_mtu_bytes params
        else if cp_mtu_bytes offer \<noteq> 0 then cp_mtu_bytes offer else 65496) 65496"
    and "cp_packets_per_chunk r = (if cp_packets_per_chunk params \<noteq> 0 then cp_packets_per_chunk params
        else if cp_packets_per_chunk offer \<noteq> 0 then cp_packets_per_chunk offer else 64)"
    and "cp_num_channels r = (if cp_num_channels offer \<noteq> 0 then cp_num_channels offer
        else if cp_num_channels params \<noteq> 0 then cp_num_channels params else 1)"
    and "cp_udp_server_port r = (if cp_udp_server_port params \<noteq> 0 then cp_udp_server_port params
        else if cp_channel_base_port params \<noteq> 0 then cp_channel_base_port params else 9999)"
    and "cp_channel_base_port r = (if cp_channel_base_port params \<noteq> 0 then cp_channel_base_port params
        else if cp_udp_server_port params \<noteq> 0 then cp_udp_server_port params else 9999)"
    and "cp_udp_server_ip r = (if cp_udp_server_ip params ! 0 \<noteq> 0 then cp_udp_server_ip params
        else set_ip (cp_udp_server_ip params)
          (if cp_udp_server_ip offer ! 0 \<noteq> 0 then cp_udp_server_ip offer else loopback))"
    and "cp_transfer_id r = (if cp_transfer_id params \<noteq> 0 then cp_transfer_id params else 1)"
  by (simp_all add: r_def negotiate_def Let_def)

lemma negotiate_wf: "wf_params params \<Longrightarrow> wf_params (negotiate params offer len)"
  by (simp add: wf_params_def negotiate_fields strncpy_length)

section \<open>Posting\<close>

lemma post_message_eq:
  fixes offer :: ConnectionParams and len :: u64
  assumes cc: "cc_wf cc" and ok: "slot_reusable (cc_msg_table cc ! unat (ctx_next_msg_id (hs_ctx host) mod 1024))
      (hs_receiver_generation_counter host)"
  defines "i \<equiv> ctx_next_msg_id (hs_ctx host) mod 1024"
    and "gen \<equiv> hs_receiver_generation_counter host"
    and "params \<equiv> negotiate (cc_params cc) offer len"
  shows "\<exists>mc cc1 tp tc. allocate_message_slot (snd (cc_initialize cc (cc_connection_id cc) params)) i gen = (Some mc, cc1)
    \<and> mc_generation mc = cc_generation_counters cc ! unat i
    \<and> calculate_bitmap_sizes len (cp_mtu_bytes params) (cp_packets_per_chunk params) = (tp, tc)
    \<and> post_message host cc buffer len offer =
        (Some (\<lparr> rh_msg_id = i, rh_generation = gen, rh_msg_ctx = (i, cc_generation_counters cc ! unat i),
                 rh_user_buffer = buffer, rh_buffer_size = len \<rparr>, params\<lparr>cp_transfer_id := gen\<rparr>),
         host\<lparr>hs_ctx := (hs_ctx host)\<lparr>ctx_next_msg_id := (ctx_next_msg_id (hs_ctx host) + 1) mod 1024\<rparr>,
              hs_receiver_generation_counter := gen + 1\<rparr>,
         update_message cc1 i (setup_message buffer len tp tc (params\<lparr>cp_transfer_id := gen\<rparr>)))"
proof -
  let ?cc = "snd (cc_initialize cc (cc_connection_id cc) params)"
  have t: "cc_msg_table ?cc = cc_msg_table cc" "cc_generation_counters ?cc = cc_generation_counters cc"
    by (simp_all add: cc_initialize_def)
  have wf: "cc_wf ?cc" using cc by (rule cc_wf_initialize)
  have i: "unat i < MAX_MESSAGES" by (simp add: i_def MAX_MESSAGES_def unat_mod)
  have re: "slot_reusable (cc_msg_table ?cc ! unat i) gen" using ok by (simp add: t i_def gen_def)
  obtain mc cc1 where a: "allocate_message_slot ?cc i gen = (Some mc, cc1)"
    "mc_generation mc = cc_generation_counters cc ! unat i"
    using allocate_slot [OF wf i re] unfolding t by metis
  obtain tp tc where sz: "calculate_bitmap_sizes len (cp_mtu_bytes params) (cp_packets_per_chunk params) = (tp, tc)"
    by (cases "calculate_bitmap_sizes len (cp_mtu_bytes params) (cp_packets_per_chunk params)")
  show ?thesis
    using a sz by (simp add: post_message_def allocate_msg_id_def Let_def i_def gen_def params_def)
qed

section \<open>The handshake\<close>

definition slot_free :: "Host \<Rightarrow> ConnectionContext \<Rightarrow> bool" where
  "slot_free host cc \<longleftrightarrow> slot_reusable (cc_msg_table cc ! unat (ctx_next_msg_id (hs_ctx host) mod 1024))
     (hs_receiver_generation_counter host)"

text \<open>
  A receiver that can post: connected, with a free slot, channels running or able to open, and a
  control connection that takes the CTS.
\<close>

definition receiver_ready :: "Host \<Rightarrow> SDRConnection \<Rightarrow> BufRef \<Rightarrow> u64 \<Rightarrow> RecvPostSys \<Rightarrow> bool" where
  "receiver_ready host conn buffer len sys \<longleftrightarrow> sc_is_receiver conn
     \<and> (\<exists>srv. sc_tcp_server conn = Some srv \<and> server_alive srv)
     \<and> cc_wf (sc_connection_ctx conn) \<and> wf_params (cc_params (sc_connection_ctx conn))
     \<and> slot_free host (sc_connection_ctx conn) \<and> buffer \<noteq> NullPtr \<and> len \<noteq> 0
     \<and> (sc_udp_receiver conn = None \<longrightarrow> (\<forall>k. channel_opens (rps_channels sys k)))
     \<and> rps_send sys = int message_size \<and> wf_message (rps_locals sys)"

text \<open>A sender that can send: connected, and its system calls succeed.\<close>

definition sender_ready :: "SDRConnection \<Rightarrow> u8 list \<Rightarrow> u64 \<Rightarrow> SendPostSys \<Rightarrow> bool" where
  "sender_ready conn data len sys \<longleftrightarrow> \<not> sc_is_receiver conn
     \<and> (\<exists>cl. sc_tcp_client conn = Some cl \<and> is_connected cl)
     \<and> wf_params (cc_params (sc_connection_ctx conn)) \<and> cc_auto_send_data (sc_connection_ctx conn)
     \<and> len \<noteq> 0 \<and> unat len = length data \<and> length data + 65496 \<le> 2 ^ 64
     \<and> sps_offer sys = int message_size \<and> sps_accept sys = int message_size \<and> sps_socket sys \<ge> 0
     \<and> (\<forall>ip. sps_inet_pton sys ip > 0)"

text \<open>The CTS a post answers an offer with.\<close>

definition cts_of :: "Host \<Rightarrow> SDRConnection \<Rightarrow> u64 \<Rightarrow> RecvPostSys \<Rightarrow> ConnectionParams \<Rightarrow> ControlMessage" where
  "cts_of host conn len sys offer =
     cts_message (rps_locals sys) (cc_connection_id (sc_connection_ctx conn))
       ((negotiate (cc_params (sc_connection_ctx conn)) offer len)
          \<lparr>cp_transfer_id := hs_receiver_generation_counter host\<rparr>)"

lemma cts_of_simps [simp]:
  "cm_params (cts_of host conn len sys offer) = (negotiate (cc_params (sc_connection_ctx conn)) offer len)
     \<lparr>cp_transfer_id := hs_receiver_generation_counter host\<rparr>"
  "cm_connection_id (cts_of host conn len sys offer) = cc_connection_id (sc_connection_ctx conn)"
  by (simp_all add: cts_of_def cts_message_def)

lemma offer_valid: "wf_params (cc_params cc) \<Longrightarrow> valid_message (offer_message cc len) \<and> wanted OFFER (offer_message cc len)"
  by (simp add: offer_message_def valid_message_def wf_message_def zero_message_def desired_params_def
      wf_params_def wanted_def Let_def)

lemma accept_valid: "wf_params (cm_params m) \<Longrightarrow> valid_message (accept_message m) \<and> wanted ACCEPT (accept_message m)"
  by (simp add: accept_message_def valid_message_def wf_message_def zero_message_def wanted_def)

lemma cts_valid:
  assumes "wf_message (rps_locals sys)" and "wf_params (cc_params (sc_connection_ctx conn))"
  shows "valid_message (cts_of host conn len sys offer)" and "wanted CTS (cts_of host conn len sys offer)"
  using assms negotiate_wf [OF assms(2), of offer len]
  by (simp_all add: cts_of_def cts_message_def valid_message_def wf_message_def wf_params_def wanted_def)

lemma server_send_whole:
  "server_alive srv \<Longrightarrow> wf_message m \<Longrightarrow> server_send srv pad m (int message_size) = (True, message_image pad m)"
  by (simp add: server_alive_def server_send_def serialize_def)

lemma client_send_whole:
  "is_connected cl \<Longrightarrow> wf_message m \<Longrightarrow> client_send cl pad m (int message_size) = (True, cl, message_image pad m)"
  by (simp add: client_send_def serialize_def)

lemma channels_start:
  assumes "\<forall>k. channel_opens (sys k)"
  shows "\<exists>r fd. ur_start UDPReceiver_new cc base num sys = (True, r, cc\<lparr>cc_udp_socket_fd := fd\<rparr>, [])"
proof -
  let ?n = "max 1 num" and ?blank = "\<lparr> w_udp_socket_fd = - 1, w_udp_port = 0 \<rparr>"
  obtain ws where ws: "for_exit 0 ?n (open_channel sys base) (replicate (unat ?n) ?blank) = Inr ws"
    "ws = map (opened_worker sys base) [0..<unat ?n]"
    using open_channels_outcome [of ?blank ?n sys base, OF HOL.refl] assms
    by (cases "for_exit 0 ?n (open_channel sys base) (replicate (unat ?n) ?blank)") auto
  have "0 < unat ?n" by (auto simp: unat_gt_0 max_def)
  then have "ws \<noteq> []" by (simp add: ws(2))
  then show ?thesis by (auto simp: ur_start_def UDPReceiver_new_def Let_def ws(1))
qed

lemma await_single:
  assumes "server_alive srv" and "valid_message m" and "wanted t m"
  shows "await_msg server_receive server_alive (wanted t) srv m0 (EvData (message_image pad m) # evs)
    = Some (Some m, srv, evs)"
  using server_channel.await_found [of srv "[]" "wanted t" m m0 pad evs] assms by simp

lemma finish_recv_post_ok:
  assumes srv: "server_alive srv" "sc_tcp_server conn = Some srv"
    and ch: "sc_udp_receiver conn = None \<longrightarrow> (\<forall>k. channel_opens (rps_channels sys k))"
    and cts: "wf_message (cts_message (rps_locals sys) (cc_connection_id (sc_connection_ctx conn)) params)"
      "rps_send sys = int message_size"
    and acc: "valid_message m" "wanted ACCEPT m"
  shows "\<exists>r fd. finish_recv_post host conn srv handle params (EvData (message_image pad m) # evs) sys
    = Ret \<lparr> rp_rc = 0, rp_host = host,
            rp_conn = conn\<lparr>sc_udp_receiver := Some r,
              sc_connection_ctx := (sc_connection_ctx conn)\<lparr>cc_udp_socket_fd := fd\<rparr>\<rparr>,
            rp_handle = Some handle,
            rp_out = message_image (rps_pad sys)
              (cts_message (rps_locals sys) (cc_connection_id (sc_connection_ctx conn)) params),
            rp_closed = [], rp_rest = evs \<rparr>"
proof -
  obtain r fd where st: "(case sc_udp_receiver conn of
        Some r \<Rightarrow> (True, r, sc_connection_ctx conn, [])
      | None \<Rightarrow> ur_start UDPReceiver_new (sc_connection_ctx conn) (cp_channel_base_port params)
                  (cp_num_channels params) (rps_channels sys))
      = (True, r, (sc_connection_ctx conn)\<lparr>cc_udp_socket_fd := fd\<rparr>, [])"
  proof (cases "sc_udp_receiver conn")
    case None
    then show thesis
      using channels_start [of "rps_channels sys"] ch that by fastforce
  next
    case (Some r)
    then show thesis
      by (intro that [of r "cc_udp_socket_fd (sc_connection_ctx conn)"]) simp
  qed
  have fd: "client_fd srv \<ge> 0" using srv(1) by (simp add: server_alive_def)
  have keep: "conn\<lparr>sc_udp_receiver := Some r, sc_connection_ctx := c, sc_tcp_server := Some srv\<rparr>
      = conn\<lparr>sc_udp_receiver := Some r, sc_connection_ctx := c\<rparr>" for c
    using srv(2) by (cases conn) simp
  show ?thesis
    unfolding finish_recv_post_def Let_def st
    using server_send_whole [OF srv(1) cts(1), of "rps_pad sys"] cts(2) fd await_single [OF srv(1) acc] keep
    by (intro exI [of _ r] exI [of _ fd]) simp
qed

lemma conn_same_server:
  "sc_tcp_server conn = Some srv \<Longrightarrow> conn\<lparr>sc_tcp_server := Some srv\<rparr> = conn"
  by (cases conn) simp

text \<open>A successful post, given the offer and then the acceptance.\<close>

lemma recv_post_ok:
  assumes ready: "receiver_ready host conn buffer len sys"
    and off: "valid_message offer" "wanted OFFER offer" and acc: "valid_message m" "wanted ACCEPT m"
  defines "i \<equiv> ctx_next_msg_id (hs_ctx host) mod 1024"
    and "gen \<equiv> hs_receiver_generation_counter host"
    and "params \<equiv> negotiate (cc_params (sc_connection_ctx conn)) (cm_params offer) len"
  shows "\<exists>mc cc1 tp tc fd RP.
      sdr_recv_post host conn True buffer len True
        (EvData (message_image p1 offer) # EvData (message_image p2 m) # evs) sys = Ret RP
    \<and> rp_rc RP = 0 \<and> rp_rest RP = evs
    \<and> rp_out RP = message_image (rps_pad sys) (cts_of host conn len sys (cm_params offer))
    \<and> rp_handle RP = Some \<lparr> rh_msg_id = i, rh_generation = gen,
        rh_msg_ctx = (i, cc_generation_counters (sc_connection_ctx conn) ! unat i),
        rh_user_buffer = buffer, rh_buffer_size = len \<rparr>
    \<and> rp_host RP = host\<lparr>hs_ctx := (hs_ctx host)\<lparr>ctx_next_msg_id := (ctx_next_msg_id (hs_ctx host) + 1) mod 1024\<rparr>,
        hs_receiver_generation_counter := gen + 1\<rparr>
    \<and> allocate_message_slot (snd (cc_initialize (sc_connection_ctx conn)
        (cc_connection_id (sc_connection_ctx conn)) params)) i gen = (Some mc, cc1)
    \<and> mc_generation mc = cc_generation_counters (sc_connection_ctx conn) ! unat i
    \<and> calculate_bitmap_sizes len (cp_mtu_bytes params) (cp_packets_per_chunk params) = (tp, tc)
    \<and> sc_connection_ctx (rp_conn RP) = (update_message cc1 i
        (setup_message buffer len tp tc (params\<lparr>cp_transfer_id := gen\<rparr>)))\<lparr>cc_udp_socket_fd := fd\<rparr>
    \<and> sc_is_receiver (rp_conn RP) \<and> sc_tcp_server (rp_conn RP) = sc_tcp_server conn
    \<and> cc_connection_id (sc_connection_ctx (rp_conn RP)) = cc_connection_id (sc_connection_ctx conn)"
proof -
  let ?cc = "sc_connection_ctx conn"
  obtain srv where srv: "sc_tcp_server conn = Some srv" "server_alive srv"
    and r: "sc_is_receiver conn" "cc_wf ?cc" "wf_params (cc_params ?cc)" "slot_free host ?cc"
      "buffer \<noteq> NullPtr" "len \<noteq> 0" "rps_send sys = int message_size" "wf_message (rps_locals sys)"
    and ch: "sc_udp_receiver conn = None \<longrightarrow> (\<forall>k. channel_opens (rps_channels sys k))"
    using ready by (auto simp: receiver_ready_def)
  obtain mc cc1 tp tc where p:
    "allocate_message_slot (snd (cc_initialize ?cc (cc_connection_id ?cc) params)) i gen = (Some mc, cc1)"
    "mc_generation mc = cc_generation_counters ?cc ! unat i"
    "calculate_bitmap_sizes len (cp_mtu_bytes params) (cp_packets_per_chunk params) = (tp, tc)"
    "post_message host ?cc buffer len (cm_params offer) =
        (Some (\<lparr> rh_msg_id = i, rh_generation = gen, rh_msg_ctx = (i, cc_generation_counters ?cc ! unat i),
                 rh_user_buffer = buffer, rh_buffer_size = len \<rparr>, params\<lparr>cp_transfer_id := gen\<rparr>),
         host\<lparr>hs_ctx := (hs_ctx host)\<lparr>ctx_next_msg_id := (ctx_next_msg_id (hs_ctx host) + 1) mod 1024\<rparr>,
              hs_receiver_generation_counter := gen + 1\<rparr>,
         update_message cc1 i (setup_message buffer len tp tc (params\<lparr>cp_transfer_id := gen\<rparr>)))"
    using post_message_eq [OF r(2) r(4) [unfolded slot_free_def], of "cm_params offer" len buffer]
    unfolding i_def gen_def params_def by blast
  let ?cc2 = "update_message cc1 i (setup_message buffer len tp tc (params\<lparr>cp_transfer_id := gen\<rparr>))"
  let ?conn = "conn\<lparr>sc_connection_ctx := ?cc2\<rparr>"
  have "cc_connection_id cc1 = cc_connection_id ?cc"
    using p(1) by (auto simp: allocate_message_slot_def cc_initialize_def Let_def split: if_splits)
  then have cid: "cc_connection_id (sc_connection_ctx ?conn) = cc_connection_id ?cc"
    by (simp add: update_message_def)
  have ctsm: "cts_message (rps_locals sys) (cc_connection_id (sc_connection_ctx ?conn)) (params\<lparr>cp_transfer_id := gen\<rparr>)
      = cts_of host conn len sys (cm_params offer)"
    unfolding cid by (simp add: cts_of_def params_def gen_def)
  have wf: "wf_message (cts_of host conn len sys (cm_params offer))"
    using cts_valid(1) [OF r(8,3)] by (simp add: valid_message_def)
  have "sc_tcp_server ?conn = Some srv" "sc_udp_receiver ?conn = sc_udp_receiver conn" using srv(1) by simp_all
  then obtain rc fd where fin: "finish_recv_post (host\<lparr>hs_ctx := (hs_ctx host)
        \<lparr>ctx_next_msg_id := (ctx_next_msg_id (hs_ctx host) + 1) mod 1024\<rparr>, hs_receiver_generation_counter := gen + 1\<rparr>)
      ?conn srv \<lparr> rh_msg_id = i, rh_generation = gen, rh_msg_ctx = (i, cc_generation_counters ?cc ! unat i),
         rh_user_buffer = buffer, rh_buffer_size = len \<rparr> (params\<lparr>cp_transfer_id := gen\<rparr>)
      (EvData (message_image p2 m) # evs) sys
    = Ret \<lparr> rp_rc = 0, rp_host = host\<lparr>hs_ctx := (hs_ctx host)
        \<lparr>ctx_next_msg_id := (ctx_next_msg_id (hs_ctx host) + 1) mod 1024\<rparr>, hs_receiver_generation_counter := gen + 1\<rparr>,
      rp_conn = ?conn\<lparr>sc_udp_receiver := Some rc, sc_connection_ctx := ?cc2\<lparr>cc_udp_socket_fd := fd\<rparr>\<rparr>,
      rp_handle = Some \<lparr> rh_msg_id = i, rh_generation = gen, rh_msg_ctx = (i, cc_generation_counters ?cc ! unat i),
         rh_user_buffer = buffer, rh_buffer_size = len \<rparr>,
      rp_out = message_image (rps_pad sys) (cts_of host conn len sys (cm_params offer)),
      rp_closed = [], rp_rest = evs \<rparr>"
    using finish_recv_post_ok [OF srv(2), of ?conn sys "params\<lparr>cp_transfer_id := gen\<rparr>" m] ch wf r(7) acc
    unfolding ctsm by fastforce
  let ?evs = "EvData (message_image p1 offer) # EvData (message_image p2 m) # evs"
  have "sdr_recv_post host conn True buffer len True ?evs sys = finish_recv_post (host\<lparr>hs_ctx := (hs_ctx host)
        \<lparr>ctx_next_msg_id := (ctx_next_msg_id (hs_ctx host) + 1) mod 1024\<rparr>, hs_receiver_generation_counter := gen + 1\<rparr>)
      ?conn srv \<lparr> rh_msg_id = i, rh_generation = gen, rh_msg_ctx = (i, cc_generation_counters ?cc ! unat i),
         rh_user_buffer = buffer, rh_buffer_size = len \<rparr> (params\<lparr>cp_transfer_id := gen\<rparr>)
      (EvData (message_image p2 m) # evs) sys"
    unfolding sdr_recv_post_def srv(1) option.case Let_def await_single [OF srv(2) off] prod.case
      conn_same_server [OF srv(1)] p(4) using r(1,5,6) by simp
  note post = this [unfolded fin]
  show ?thesis
    by (rule exI [of _ mc], rule exI [of _ cc1], rule exI [of _ tp], rule exI [of _ tc], rule exI [of _ fd],
        rule exI, rule conjI, rule post) (use cid in \<open>simp add: p(1-3) r(1)\<close>)
qed

lemma await_cts:
  assumes "is_connected cl" and "valid_message m" and "wanted t m"
  shows "await_msg client_receive is_connected (wanted t) cl m0 (EvData (message_image pad m) # evs)
    = Some (Some m, cl, evs)"
  using client_channel.await_found [of cl "[]" "wanted t" m m0 pad evs] assms by simp

definition packet_count :: "nat \<Rightarrow> nat \<Rightarrow> nat" where
  "packet_count len mtu = (len + mtu - 1) div mtu"

lemma packet_count_iff: "0 < mtu \<Longrightarrow> k < packet_count n mtu \<longleftrightarrow> k * mtu < n"
  unfolding packet_count_def using ceil_div_le_iff [of mtu n k] by (metis not_le)

text \<open>A successful send, given the CTS.\<close>

lemma send_post_ok:
  fixes host :: Host
  assumes ready: "sender_ready conn data len sys" and cts: "valid_message cts" "wanted CTS cts"
    and mtu: "0 < unat (cp_mtu_bytes (cm_params cts))" "unat (cp_mtu_bytes (cm_params cts)) \<le> 65496"
    and ppc: "cp_packets_per_chunk (cm_params cts) \<noteq> 0"
  defines "i \<equiv> ctx_next_msg_id (hs_ctx host) mod 1024"
    and "p \<equiv> cm_params cts"
  shows "\<exists>SP base num. sdr_send_post host conn True (Some data) len True (EvData (message_image pd cts) # evs) sys
      = Ret SP \<and> sp_rc SP = 0 \<and> sp_rest SP = evs
    \<and> sp_out SP = message_image (sps_pad sys) (offer_message (sc_connection_ctx conn) len)
        @ message_image (sps_pad sys) (accept_message cts)
    \<and> cc_params (sc_connection_ctx (sp_conn SP)) = cm_params cts
    \<and> (\<exists>h. sp_handle SP = Some h \<and> sh_msg_id h = i \<and> sh_generation h = cp_transfer_id p)
    \<and> sp_wire SP = map (\<lambda>k. (channel_port base num k, data_datagram (cp_transfer_id p) i
          (cp_packets_per_chunk p) (unat (cp_mtu_bytes p)) data k))
        (filter (\<lambda>k. sps_sendto sys (of_nat k) > 0) [0..<packet_count (length data) (unat (cp_mtu_bytes p))])
    \<and> sc_tcp_client (sp_conn SP) = sc_tcp_client conn"
proof -
  let ?cc = "sc_connection_ctx conn"
  obtain cl where cl: "sc_tcp_client conn = Some cl" "is_connected cl"
    and r: "\<not> sc_is_receiver conn" "wf_params (cc_params ?cc)" "cc_auto_send_data ?cc" "len \<noteq> 0"
      "unat len = length data" "length data + 65496 \<le> 2 ^ 64" "sps_offer sys = int message_size"
      "sps_accept sys = int message_size" "sps_socket sys \<ge> 0" "\<forall>ip. sps_inet_pton sys ip > 0"
    using ready by (auto simp: sender_ready_def)
  have offer: "client_send cl (sps_pad sys) (offer_message ?cc len) (sps_offer sys)
      = (True, cl, message_image (sps_pad sys) (offer_message ?cc len))"
    unfolding r(7) using client_send_whole [OF cl(2)] offer_valid [OF r(2)] by (simp add: valid_message_def)
  have wfp: "wf_params (cm_params cts)" using cts(1) by (simp add: valid_message_def wf_message_def)
  have accept: "client_send cl (sps_pad sys) (accept_message cts) (sps_accept sys)
      = (True, cl, message_image (sps_pad sys) (accept_message cts))"
    unfolding r(8) using client_send_whole [OF cl(2)] accept_valid [OF wfp] by (simp add: valid_message_def)
  have same: "conn\<lparr>sc_tcp_client := Some cl\<rparr> = conn" using cl(1) by (cases conn) simp
  let ?params = "if cp_udp_server_ip p ! 0 = 0 then p\<lparr>cp_udp_server_ip := set_ip (cp_udp_server_ip p) loopback\<rparr> else p"
  let ?num = "if cp_num_channels ?params = 0 then 1 else cp_num_channels ?params"
  let ?base = "if cp_channel_base_port ?params = 0 then cp_udp_server_port ?params else cp_channel_base_port ?params"
  let ?n = "packet_count (length data) (unat (cp_mtu_bytes p))"
  have fields: "cp_mtu_bytes ?params = cp_mtu_bytes p" "cp_transfer_id ?params = cp_transfer_id p"
    "cp_packets_per_chunk ?params = cp_packets_per_chunk p" by simp_all
  have m: "0 < unat (cp_mtu_bytes ?params)" "unat (cp_mtu_bytes ?params) \<le> 65496"
    using mtu by (simp_all add: p_def)
  have loop: "send_all_packets ?params i data len ?base ?num (sps_sendto sys)
      = Inr (sent_result ?params i data ?base ?num (sps_sendto sys) ?n)"
    using send_all_packets_eq(1) [OF m r(5,6)] unfolding packet_count_def fields .
  have nz: "cp_mtu_bytes (cm_params cts) \<noteq> 0" using mtu(1) by auto
  have run: "sdr_send_post host conn True (Some data) len True (EvData (message_image pd cts) # evs) sys
      = send_after_cts host conn cl data len cts (message_image (sps_pad sys) (offer_message ?cc len)) evs sys"
    unfolding sdr_send_post_def Let_def option.case cl(1) offer prod.case same
      await_cts [OF cl(2) cts] using r(1,4) cl(2) by simp
  have auto: "cc_auto_send_data (snd (cc_initialize ?cc (cm_connection_id cts) (cm_params cts)))"
    using r(3) by (simp add: cc_initialize_def)
  have sock: "\<not> sps_socket sys < 0" "\<And>ip. \<not> sps_inet_pton sys ip \<le> 0" using r(9,10) by (simp_all add: not_le)
  have "send_after_cts host conn cl data len cts (message_image (sps_pad sys) (offer_message ?cc len)) evs sys
      = Ret \<lparr> sp_rc = 0, sp_host = host\<lparr>hs_ctx := snd (allocate_msg_id (hs_ctx host))\<rparr>,
          sp_conn = conn\<lparr>sc_connection_ctx := snd (cc_initialize ?cc (cm_connection_id cts) (cm_params cts)),
            sc_tcp_client := Some cl\<rparr>,
          sp_handle = Some \<lparr> sh_msg_id = i, sh_generation = cp_transfer_id p, sh_user_buffer = data,
            sh_buffer_size = len, sh_packets_sent = sa_packets_sent (sent_result ?params i data ?base ?num (sps_sendto sys) ?n) \<rparr>,
          sp_out = message_image (sps_pad sys) (offer_message ?cc len) @ message_image (sps_pad sys) (accept_message cts),
          sp_wire = sa_wire (sent_result ?params i data ?base ?num (sps_sendto sys) ?n), sp_rest = evs \<rparr>"
  proof -
    have alloc: "allocate_msg_id (hs_ctx host) = (i, snd (allocate_msg_id (hs_ctx host)))"
      by (simp add: allocate_msg_id_def i_def)
    show ?thesis
      unfolding send_after_cts_def Let_def accept prod.case p_def [symmetric]
      apply (subst alloc)
      unfolding prod.case loop sum.case
      using nz ppc auto sock by (simp add: p_def)
  qed
  note post = run [unfolded this]
  show ?thesis
    by (rule exI, rule exI [of _ ?base], rule exI [of _ ?num], rule conjI, rule post)
      (simp add: sent_result_def Let_def cc_initialize_def cl(1))
qed

lemma rx_inv_socket:
  "rx_inv T \<lparr>rs_conn = cc\<lparr>cc_udp_socket_fd := fd\<rparr>, rs_mem = mem\<rparr> = rx_inv T \<lparr>rs_conn = cc, rs_mem = mem\<rparr>"
  by (simp add: rx_inv_def cc_wf_def)

text \<open>
  The state in which datagrams arrive after a post is that of a message being received, when the
  slot's generation is the one announced in the CTS.
\<close>

lemma posted_state:
  assumes cc: "cc_wf cc" and alloc: "allocate_message_slot (snd (cc_initialize cc c params)) i gen = (Some mc, cc1)"
    and gen: "mc_generation mc = gen" and i: "unat i < 1024"
    and mtu: "cp_mtu_bytes params \<noteq> 0" and ppc: "cp_packets_per_chunk params \<noteq> 0"
    and len: "unat len = length data" "length data + 2 ^ 33 \<le> 2 ^ 64"
    and sizes: "calculate_bitmap_sizes len (cp_mtu_bytes params) (cp_packets_per_chunk params) = (tp, tc)"
    and few: "packet_count (length data) (unat (cp_mtu_bytes params)) \<le> 2 ^ 18"
    and old: "length (mem b) = length data"
  shows "rx_inv (sender_target gen i (unat (cp_mtu_bytes params)) data b (mem b))
    \<lparr>rs_conn = (update_message cc1 i (setup_message (UserBuf b) len tp tc (params\<lparr>cp_transfer_id := gen\<rparr>)))
        \<lparr>cc_udp_socket_fd := fd\<rparr>, rs_mem = mem\<rparr>"
proof -
  let ?T = "sender_target gen i (unat (cp_mtu_bytes params)) data b (mem b)"
  have slot: "slot_of ?T = i" using ucast_narrow_widen(2) [OF i] by (simp add: slot_of_def)
  have wf: "cc_wf (snd (cc_initialize cc c params))" using cc by (rule cc_wf_initialize)
  have m: "0 < unat (cp_mtu_bytes params)" using mtu by (simp add: unat_gt_0)
  have "unat tp = packet_count (length data) (unat (cp_mtu_bytes params))"
  proof -
    have "tp = (len + ucast (cp_mtu_bytes params) - 1) div ucast (cp_mtu_bytes params)"
      using sizes mtu ppc by (simp add: calculate_bitmap_sizes_def Let_def)
    then show ?thesis
      unfolding packet_count_def len(1) [symmetric]
      using m len unat_width(5) [of "cp_mtu_bytes params"] by (simp add: unat_ceil_div)
  qed
  then have fits: "unat tp + 63 < 2 ^ 32" using few by simp
  have "rx_inv ?T \<lparr>rs_conn = update_message cc1 (slot_of ?T)
      (setup_message (UserBuf (t_buffer ?T)) len tp tc (params\<lparr>cp_transfer_id := gen\<rparr>)), rs_mem = mem\<rparr>"
    by (rule posted_rx_inv(1) [OF wf, of _ gen mc])
      (use alloc slot gen mtu ppc len sizes fits old in simp_all)
  then show ?thesis by (simp add: slot rx_inv_socket)
qed

text \<open>What a lookup finds after a post, and that the next message id is another one.\<close>

lemma posted_lookup:
  assumes "cc_wf cc" and "allocate_message_slot (snd (cc_initialize cc c params)) i gen = (Some mc, cc1)"
    and "unat i < 1024" and "mc_generation mc \<noteq> g"
  shows "\<exists>m. get_message ((update_message cc1 i (setup_message buffer len tp tc params'))\<lparr>cc_udp_socket_fd := fd\<rparr>) i
    = Some m \<and> mc_generation m \<noteq> g"
proof -
  let ?cc = "snd (cc_initialize cc c params)"
  have wf: "cc_wf ?cc" using assms(1) by (rule cc_wf_initialize)
  have i: "unat i < MAX_MESSAGES" "\<not> MAX_MESSAGES \<le> unat i" using assms(3) by (simp_all add: MAX_MESSAGES_def)
  have "slot_reusable (cc_msg_table ?cc ! unat i) gen"
    using assms(2) by (auto simp: allocate_message_slot_def split: if_splits)
  then have a: "mc_state mc = ACTIVE" "cc_msg_table cc1 = (cc_msg_table ?cc)[unat i := Some mc]"
    using allocate_slot [OF wf i(1)] assms(2) by (metis prod.inject option.inject)+
  have "unat i < length (cc_msg_table ?cc)" using wf i by (simp add: cc_wf_def)
  then show ?thesis
    using a i assms(4) by (simp add: get_message_def update_message_def)
qed

lemma next_id_differs: "unat ((x + 1 :: u32) mod 1024) \<noteq> unat (x mod 1024)"
proof -
  have "unat (x + 1) mod 1024 = (unat x + 1) mod 1024"
    by (simp add: unat_word_ariths mod_mod_cancel)
  moreover have "Suc (unat x) mod 1024 \<noteq> unat x mod 1024" by (auto simp: mod_Suc)
  ultimately show ?thesis by (simp add: unat_mod)
qed

text \<open>Both ends of a transfer, each given the control bytes the other one sends.\<close>

definition run_transfer ::
    "Host \<Rightarrow> SDRConnection \<Rightarrow> BufRef \<Rightarrow> u64 \<Rightarrow> RecvPostSys \<Rightarrow> Host \<Rightarrow> SDRConnection \<Rightarrow> u8 list \<Rightarrow> u64 \<Rightarrow> SendPostSys
      \<Rightarrow> RecvPost run \<times> SendPost run" where
  "run_transfer hR cR buffer lenR sysR hS cS data len sysS =
     (let offer = offer_message (sc_connection_ctx cS) len;
          cts = cts_of hR cR lenR sysR (cm_params offer)
      in (sdr_recv_post hR cR True buffer lenR True
            [EvData (message_image (sps_pad sysS) offer),
             EvData (message_image (sps_pad sysS) (accept_message cts))] sysR,
          sdr_send_post hS cS True (Some data) len True
            [EvData (message_image (rps_pad sysR) cts)] sysS))"

text \<open>The parameters both ends work with.\<close>

definition agreed :: "SDRConnection \<Rightarrow> u64 \<Rightarrow> SDRConnection \<Rightarrow> u64 \<Rightarrow> ConnectionParams" where
  "agreed cR lenR cS len =
     negotiate (cc_params (sc_connection_ctx cR)) (desired_params (cc_params (sc_connection_ctx cS)) len) lenR"

lemma agreed_usable:
  "0 < unat (cp_mtu_bytes (agreed cR lenR cS len))" "unat (cp_mtu_bytes (agreed cR lenR cS len)) \<le> 65496"
  "cp_packets_per_chunk (agreed cR lenR cS len) \<noteq> 0" "cp_mtu_bytes (agreed cR lenR cS len) \<noteq> 0"
proof -
  let ?p = "agreed cR lenR cS len"
  have m: "cp_mtu_bytes ?p \<noteq> 0" "cp_mtu_bytes ?p \<le> 65496"
    unfolding agreed_def negotiate_fields by (auto simp: min_def)
  then show "0 < unat (cp_mtu_bytes ?p)" "unat (cp_mtu_bytes ?p) \<le> 65496" "cp_mtu_bytes ?p \<noteq> 0"
    by (simp_all add: unat_gt_0 word_le_nat_alt)
  show "cp_packets_per_chunk ?p \<noteq> 0" unfolding agreed_def negotiate_fields by auto
qed

lemma run_transfer_ok:
  fixes hS :: Host
  assumes R: "receiver_ready hR cR buffer lenR sysR" and S: "sender_ready cS data len sysS"
  defines "i \<equiv> ctx_next_msg_id (hs_ctx hR) mod 1024" and "j \<equiv> ctx_next_msg_id (hs_ctx hS) mod 1024"
    and "gen \<equiv> hs_receiver_generation_counter hR" and "p \<equiv> agreed cR lenR cS len"
  shows "\<exists>RP SP mc cc1 tp tc fd base num. run_transfer hR cR buffer lenR sysR hS cS data len sysS = (Ret RP, Ret SP)
    \<and> rp_rc RP = 0 \<and> sp_rc SP = 0 \<and> rp_rest RP = [] \<and> sp_rest SP = []
    \<and> rp_out RP = message_image (rps_pad sysR) (cts_of hR cR lenR sysR (cm_params (offer_message (sc_connection_ctx cS) len)))
    \<and> sp_out SP = message_image (sps_pad sysS) (offer_message (sc_connection_ctx cS) len)
        @ message_image (sps_pad sysS) (accept_message
            (cts_of hR cR lenR sysR (cm_params (offer_message (sc_connection_ctx cS) len))))
    \<and> cc_params (sc_connection_ctx (sp_conn SP)) = p\<lparr>cp_transfer_id := gen\<rparr>
    \<and> (\<exists>h. rp_handle RP = Some h \<and> rh_msg_id h = i \<and> rh_generation h = gen)
    \<and> (\<exists>h. sp_handle SP = Some h \<and> sh_msg_id h = j \<and> sh_generation h = gen)
    \<and> rp_host RP = hR\<lparr>hs_ctx := (hs_ctx hR)\<lparr>ctx_next_msg_id := (ctx_next_msg_id (hs_ctx hR) + 1) mod 1024\<rparr>,
        hs_receiver_generation_counter := gen + 1\<rparr>
    \<and> allocate_message_slot (snd (cc_initialize (sc_connection_ctx cR)
        (cc_connection_id (sc_connection_ctx cR)) p)) i gen = (Some mc, cc1)
    \<and> mc_generation mc = cc_generation_counters (sc_connection_ctx cR) ! unat i
    \<and> calculate_bitmap_sizes lenR (cp_mtu_bytes p) (cp_packets_per_chunk p) = (tp, tc)
    \<and> sc_connection_ctx (rp_conn RP) = (update_message cc1 i
        (setup_message buffer lenR tp tc (p\<lparr>cp_transfer_id := gen\<rparr>)))\<lparr>cc_udp_socket_fd := fd\<rparr>
    \<and> sp_wire SP = map (\<lambda>k. (channel_port base num k, data_datagram gen j
          (cp_packets_per_chunk p) (unat (cp_mtu_bytes p)) data k))
        (filter (\<lambda>k. sps_sendto sysS (of_nat k) > 0) [0..<packet_count (length data) (unat (cp_mtu_bytes p))])"
proof -
  let ?offer = "offer_message (sc_connection_ctx cS) len"
  let ?cts = "cts_of hR cR lenR sysR (cm_params ?offer)"
  have wfS: "wf_params (cc_params (sc_connection_ctx cS))" using S by (simp add: sender_ready_def)
  have wfR: "wf_message (rps_locals sysR)" "wf_params (cc_params (sc_connection_ctx cR))"
    using R by (auto simp: receiver_ready_def)
  have off: "valid_message ?offer" "wanted OFFER ?offer" using offer_valid [OF wfS] by auto
  have cts: "valid_message ?cts" "wanted CTS ?cts" using cts_valid [OF wfR] by auto
  have ctsp: "cm_params ?cts = p\<lparr>cp_transfer_id := gen\<rparr>"
    by (simp add: p_def agreed_def gen_def offer_message_def)
  have "wf_params (cm_params ?cts)" using cts(1) by (simp add: valid_message_def wf_message_def)
  then have acc: "valid_message (accept_message ?cts)" "wanted ACCEPT (accept_message ?cts)"
    using accept_valid by auto
  note use = agreed_usable [of cR lenR cS len, folded p_def]
  have op: "negotiate (cc_params (sc_connection_ctx cR)) (cm_params ?offer) lenR = p"
    by (simp add: p_def agreed_def offer_message_def)
  obtain mc cc1 tp tc fd RP where rp: "sdr_recv_post hR cR True buffer lenR True
        (EvData (message_image (sps_pad sysS) ?offer) # EvData (message_image (sps_pad sysS) (accept_message ?cts)) # []) sysR = Ret RP"
    "rp_rc RP = 0" "rp_rest RP = []" "rp_out RP = message_image (rps_pad sysR) ?cts"
    "rp_handle RP = Some \<lparr> rh_msg_id = i, rh_generation = gen,
        rh_msg_ctx = (i, cc_generation_counters (sc_connection_ctx cR) ! unat i),
        rh_user_buffer = buffer, rh_buffer_size = lenR \<rparr>"
    "rp_host RP = hR\<lparr>hs_ctx := (hs_ctx hR)\<lparr>ctx_next_msg_id := (ctx_next_msg_id (hs_ctx hR) + 1) mod 1024\<rparr>,
        hs_receiver_generation_counter := gen + 1\<rparr>"
    "allocate_message_slot (snd (cc_initialize (sc_connection_ctx cR)
        (cc_connection_id (sc_connection_ctx cR)) p)) i gen = (Some mc, cc1)"
    "mc_generation mc = cc_generation_counters (sc_connection_ctx cR) ! unat i"
    "calculate_bitmap_sizes lenR (cp_mtu_bytes p) (cp_packets_per_chunk p) = (tp, tc)"
    "sc_connection_ctx (rp_conn RP) = (update_message cc1 i
        (setup_message buffer lenR tp tc (p\<lparr>cp_transfer_id := gen\<rparr>)))\<lparr>cc_udp_socket_fd := fd\<rparr>"
    using recv_post_ok [OF R off acc, of "sps_pad sysS" "sps_pad sysS" "[]"]
    unfolding op i_def [symmetric] gen_def [symmetric] by blast
  obtain SP base num where sp: "sdr_send_post hS cS True (Some data) len True
        (EvData (message_image (rps_pad sysR) ?cts) # []) sysS = Ret SP" "sp_rc SP = 0" "sp_rest SP = []"
    "sp_out SP = message_image (sps_pad sysS) ?offer @ message_image (sps_pad sysS) (accept_message ?cts)"
    "cc_params (sc_connection_ctx (sp_conn SP)) = cm_params ?cts"
    "\<exists>h. sp_handle SP = Some h \<and> sh_msg_id h = j \<and> sh_generation h = cp_transfer_id (cm_params ?cts)"
    "sp_wire SP = map (\<lambda>k. (channel_port base num k, data_datagram (cp_transfer_id (cm_params ?cts)) j
          (cp_packets_per_chunk (cm_params ?cts)) (unat (cp_mtu_bytes (cm_params ?cts))) data k))
        (filter (\<lambda>k. sps_sendto sysS (of_nat k) > 0) [0..<packet_count (length data) (unat (cp_mtu_bytes (cm_params ?cts)))])"
    using send_post_ok [OF S cts, of hS "rps_pad sysR" "[]"] use unfolding j_def [symmetric] ctsp by auto
  have "run_transfer hR cR buffer lenR sysR hS cS data len sysS = (Ret RP, Ret SP)"
    unfolding run_transfer_def Let_def rp(1) sp(1) ..
  then show ?thesis using rp(2-) sp(2-) unfolding ctsp by fastforce
qed

text \<open>A datagram stamped with another generation than its slot's is dropped.\<close>

lemma stale_dropped:
  assumes "get_message (rs_conn rs) i = Some mc" and "mc_generation mc \<noteq> t" and "unat i < 1024"
    and "0 < mtu" and "mtu \<le> 65496" and "p < 2 ^ 18" and "p * mtu < length data"
  shows "handle_datagram rs (data_datagram t i ppc mtu data p) = Some rs"
proof -
  let ?T = "sender_target t i mtu data 0 []"
  obtain h where h: "parse_datagram (data_datagram t i ppc mtu data p) = Some (h, slice data mtu p)"
    "h_msg_id h = ucast i" "h_transfer_id h = t"
    using cut_source.parses [of t i mtu data 0 "[]" p ppc] assms(4-7) by auto
  have "ucast (h_msg_id h) = i" using ucast_narrow_widen(2) [OF assms(3)] h(2) by simp
  then show ?thesis
    using assms(1,2) h by (simp add: handle_datagram_def process_packet_def accepts_def)
qed

section \<open>Completion\<close>

lemma marked_stop [simp]: "marked (stop_polling f) = marked f" "fb_wf (stop_polling f) = fb_wf f"
  by (simp_all add: stop_polling_def)

lemma transfer_complete_eq:
  assumes "mc_frontend mc = Some f" and "fb_wf f"
  shows "transfer_complete mc = Ret (mc_state mc = COMPLETED
    \<or> 0 < unat (ucast (mc_total_chunks mc) :: u32) \<and> unat (ucast (mc_total_chunks mc) :: u32) \<le> card (marked f))"
proof -
  have "card (marked f) < 2 ^ 32"
    using count_marked_eq(2) [OF assms(2)] unat_width(5) [of "fb_total_chunks f"] by simp
  then have "unat (of_nat (card (marked f)) :: u32) = card (marked f)" by (simp add: unat_of_nat_small)
  then show ?thesis
    using assms count_marked_eq(1) [OF assms(2)]
    by (auto simp: transfer_complete_def Let_def word_le_nat_alt unat_gt_0 word_neq_0_conv)
qed

lemma deref_slot:
  "deref_ctx conn h = Some mc \<Longrightarrow> cc_msg_table (sc_connection_ctx conn) ! unat (fst (rh_msg_ctx h)) = Some mc"
  by (auto simp: deref_ctx_def split: prod.splits option.splits if_splits)

text \<open>What completing a receive sends and leaves.\<close>

lemma recv_complete_eq:
  assumes cc: "cc_wf (sc_connection_ctx conn)" and h: "rh_msg_ctx h = (rh_msg_id h, g)" "unat (rh_msg_id h) < 1024"
    and mc: "deref_ctx conn h = Some mc" "mc_frontend mc = Some f" "fb_wf f"
    and srv: "sc_is_receiver conn" "sc_tcp_server conn = Some srv" "server_alive srv"
    and out: "wf_message locals" "sent = int message_size"
  shows "let total = unat (ucast (mc_total_chunks mc) :: u32);
             ok = (mc_state mc = COMPLETED \<or> 0 < total \<and> total \<le> card (marked f)) in
    \<exists>RC. sdr_recv_complete conn (Some h) sent pad locals = Ret RC \<and> rc_rc RC = 0
      \<and> rc_out RC = message_image pad (completion_message locals ok (cc_connection_id (sc_connection_ctx conn)))
      \<and> cc_wf (sc_connection_ctx (rc_conn RC))
      \<and> (\<exists>mc'. get_message (sc_connection_ctx (rc_conn RC)) (rh_msg_id h) = Some mc'
            \<and> mc_state mc' = DEAD \<and> mc_buffer mc' = NullSink \<and> mc_generation mc' = mc_generation mc)"
proof -
  let ?i = "rh_msg_id h" and ?cc = "sc_connection_ctx conn"
  let ?total = "unat (ucast (mc_total_chunks mc) :: u32)"
  let ?ok = "mc_state mc = COMPLETED \<or> 0 < ?total \<and> ?total \<le> card (marked f)"
  let ?stop = "\<lambda>mc. mc\<lparr>mc_frontend := map_option stop_polling (mc_frontend mc)\<rparr>"
  let ?cc1 = "update_message ?cc ?i ?stop"
  let ?msg = "completion_message locals ?ok (cc_connection_id ?cc)"
  have slot: "cc_msg_table ?cc ! unat ?i = Some mc" using deref_slot [OF mc(1)] h(1) by simp
  have l: "unat ?i < length (cc_msg_table ?cc)" "\<not> MAX_MESSAGES \<le> unat ?i"
    using cc h(2) by (simp_all add: cc_wf_def MAX_MESSAGES_def)
  have done_eq: "transfer_complete (?stop mc) = Ret ?ok"
    using transfer_complete_eq [of "?stop mc" "stop_polling f"] mc(2,3) by simp
  have slot1: "cc_msg_table ?cc1 ! unat ?i = Some (?stop mc)" using slot l by (simp add: update_message_def)
  have id1: "cc_connection_id (complete_message ?cc1 ?i) = cc_connection_id ?cc"
    by (simp add: complete_message_def update_message_def split: option.split)
  have wf: "wf_message ?msg"
    using out(1) wf_zero(1) by (simp add: completion_message_def wf_message_def)
  have wf1: "cc_wf ?cc1" using cc_wf_update [OF cc] by simp
  let ?RC = "\<lparr> rc_rc = 0, rc_conn = conn\<lparr>sc_connection_ctx := complete_message ?cc1 ?i\<rparr>,
      rc_out = message_image pad ?msg \<rparr>"
  have run: "sdr_recv_complete conn (Some h) sent pad locals = Ret ?RC"
    using mc(1) srv h(1) server_send_whole [OF srv(3) wf, of pad]
    by (simp add: sdr_recv_complete_def done_eq id1 Let_def out(2))
  have l1: "unat ?i < length (cc_msg_table ?cc1)" using l(1) by (simp add: update_message_def)
  have "get_message (complete_message ?cc1 ?i) ?i = Some ((?stop mc)\<lparr>mc_state := DEAD, mc_buffer := NullSink\<rparr>)"
    using slot1 l1 l(2) by (simp add: complete_message_def get_message_def)
  moreover have "cc_wf (complete_message ?cc1 ?i)" using wf1 by (rule cc_wf_complete)
  ultimately show ?thesis unfolding Let_def by (intro exI [of _ ?RC]) (simp add: run)
qed

section \<open>Properties\<close>

text \<open>C15: Negotiation always yields usable parameters.  Whatever both sides propose, the result has a
  packet size between 1 and the maximum payload, a nonzero chunk size, channel count, port and
  transfer id, and a nonempty address; the receiver's own packet size and chunk size win over the
  offer's, the offered number of channels over the receiver's.\<close>

theorem negotiate_valid:
  assumes "wf_params params" and "wf_params offer"
  shows "let r = negotiate params offer len in
      0 < unat (cp_mtu_bytes r) \<and> unat (cp_mtu_bytes r) \<le> 65496 \<and> cp_packets_per_chunk r \<noteq> 0
    \<and> cp_num_channels r \<noteq> 0 \<and> cp_udp_server_port r \<noteq> 0 \<and> cp_channel_base_port r \<noteq> 0
    \<and> cp_transfer_id r \<noteq> 0 \<and> wf_params r \<and> cp_udp_server_ip r ! 0 \<noteq> 0
    \<and> (cp_mtu_bytes params \<noteq> 0 \<longrightarrow> cp_mtu_bytes r = min (cp_mtu_bytes params) 65496)
    \<and> (cp_packets_per_chunk params \<noteq> 0 \<longrightarrow> cp_packets_per_chunk r = cp_packets_per_chunk params)
    \<and> (cp_num_channels offer \<noteq> 0 \<longrightarrow> cp_num_channels r = cp_num_channels offer)
    \<and> (len \<noteq> 0 \<longrightarrow> cp_total_bytes r \<noteq> 0)"
proof -
  let ?r = "negotiate params offer len"
  have m: "cp_mtu_bytes ?r \<noteq> 0" "cp_mtu_bytes ?r \<le> 65496"
    unfolding negotiate_fields by (auto simp: min_def)
  have "cp_udp_server_ip ?r ! 0 \<noteq> 0"
    using strncpy_first(1) [of "cp_udp_server_ip params"] wf_params_nonempty [OF assms(2)] assms
    by (auto simp: negotiate_fields wf_params_def loopback_def)
  moreover have "unat (cp_mtu_bytes ?r) \<le> 65496" using m(2) by (simp add: word_le_nat_alt)
  moreover have "0 < unat (cp_mtu_bytes ?r)" using m(1) by (simp add: unat_gt_0)
  ultimately show ?thesis
    using negotiate_wf [OF assms(1)] by (simp add: Let_def) (simp add: negotiate_fields)
qed

theorem negotiate_valid_witness:
  "let r = negotiate zero_params (zero_params\<lparr>cp_num_channels := 4\<rparr>) 10 in
      0 < unat (cp_mtu_bytes r) \<and> unat (cp_mtu_bytes r) \<le> 65496 \<and> cp_packets_per_chunk r \<noteq> 0
    \<and> cp_udp_server_port r \<noteq> 0 \<and> cp_channel_base_port r \<noteq> 0
    \<and> cp_transfer_id r \<noteq> 0 \<and> wf_params r \<and> cp_udp_server_ip r ! 0 \<noteq> 0
    \<and> cp_num_channels r = 4 \<and> cp_total_bytes r \<noteq> 0"
proof -
  have wf: "wf_params zero_params" "wf_params (zero_params\<lparr>cp_num_channels := 4\<rparr>)"
    by (simp, simp add: wf_params_def zero_params_def)
  show ?thesis using negotiate_valid [OF wf, of 10] by (simp add: Let_def)
qed

text \<open>C13: What \<open>sdr_send_poll\<close> reports.  On a connected client that skips timeouts and other messages,
  a COMPLETE_ACK is success, an INCOMPLETE_NACK and the loss of the connection are failures, and
  without any of these it goes on waiting.  On a client whose connection is already lost it reports
  success although nothing was acknowledged.\<close>

theorem send_poll_outcomes:
  assumes "is_connected cl" and "\<forall>ev\<in>set skipped. skippable is_completion ev" and "valid_message m"
  shows "(wanted COMPLETE_ACK m \<longrightarrow>
        sdr_send_poll True (Some cl) (skipped @ EvData (message_image pad m) # evs) = Ret (0, Some cl, evs))
    \<and> (wanted INCOMPLETE_NACK m \<longrightarrow>
        sdr_send_poll True (Some cl) (skipped @ EvData (message_image pad m) # evs) = Ret (- 1, Some cl, evs))
    \<and> (\<exists>cl'. sdr_send_poll True (Some cl) (skipped @ EvClosed # evs) = Ret (- 1, Some cl', evs)
          \<and> \<not> is_connected cl' \<and> sdr_send_poll True (Some cl') evs = Ret (0, Some cl', evs))
    \<and> sdr_send_poll True (Some cl) skipped = Blocked"
proof (intro conjI impI)
  assume w: "wanted COMPLETE_ACK m"
  then have "is_completion m" by (simp add: is_completion_def)
  from client_channel.await_found [OF assms this]
  show "sdr_send_poll True (Some cl) (skipped @ EvData (message_image pad m) # evs) = Ret (0, Some cl, evs)"
    using assms(1) w by (simp add: sdr_send_poll_def)
next
  assume w: "wanted INCOMPLETE_NACK m"
  then have "is_completion m" "\<not> wanted COMPLETE_ACK m" by (simp_all add: is_completion_def wanted_def)
  from client_channel.await_found [OF assms this(1)] this(2)
  show "sdr_send_poll True (Some cl) (skipped @ EvData (message_image pad m) # evs) = Ret (- 1, Some cl, evs)"
    using assms(1) by (simp add: sdr_send_poll_def)
next
  obtain cl' where "await_msg client_receive is_connected is_completion cl zero_message (skipped @ EvClosed # evs)
      = Some (None, cl', evs)" "\<not> is_connected cl'"
    using client_channel.await_lost [OF assms(1,2)] by blast
  then show "\<exists>cl'. sdr_send_poll True (Some cl) (skipped @ EvClosed # evs) = Ret (- 1, Some cl', evs)
      \<and> \<not> is_connected cl' \<and> sdr_send_poll True (Some cl') evs = Ret (0, Some cl', evs)"
    using assms(1) by (simp add: sdr_send_poll_def)
next
  show "sdr_send_poll True (Some cl) skipped = Blocked"
    using client_channel.await_waits [OF assms(1,2)] assms(1) by (simp add: sdr_send_poll_def)
qed

theorem send_poll_outcomes_witness:
  "let cl = TCPControlClient_new\<lparr>is_connected := True\<rparr>;
       m = zero_message\<lparr>cm_magic := CTL_MAGIC_VALUE, cm_msg_type := ctl_code COMPLETE_ACK\<rparr>
   in sdr_send_poll True (Some cl) ([EvTimeout] @ EvData (message_image (\<lambda>_. 0) m) # []) = Ret (0, Some cl, [])
    \<and> (\<exists>cl'. sdr_send_poll True (Some cl) ([EvTimeout] @ EvClosed # []) = Ret (- 1, Some cl', [])
          \<and> \<not> is_connected cl' \<and> sdr_send_poll True (Some cl') [] = Ret (0, Some cl', []))
    \<and> sdr_send_poll True (Some cl) [EvTimeout] = Blocked"
proof -
  let ?cl = "TCPControlClient_new\<lparr>is_connected := True\<rparr>"
  let ?m = "zero_message\<lparr>cm_magic := CTL_MAGIC_VALUE, cm_msg_type := ctl_code COMPLETE_ACK\<rparr>"
  have v: "valid_message ?m" "wanted COMPLETE_ACK ?m"
    by (simp_all add: valid_message_def wf_message_def zero_message_def wanted_def)
  have s: "\<forall>ev\<in>set [EvTimeout]. skippable is_completion ev" by (simp add: skippable.intros)
  have c: "is_connected ?cl" by simp
  show ?thesis
    using send_poll_outcomes [OF c s v(1), of "\<lambda>_. 0" "[]"] v(2) unfolding Let_def by blast
qed

text \<open>C11: The handshake of a transfer completes and both ends agree.  When the receiver and the sender
  are ready, each given exactly the control bytes the other sends (OFFER and ACCEPT, respectively
  CTS), both posts return success with all those bytes consumed, the sender works with the
  parameters the receiver negotiated and with the transfer id the receiver put into its handle.\<close>

theorem handshake_completes:
  assumes "receiver_ready hR cR buffer lenR sysR" and "sender_ready cS data len sysS"
  shows "\<exists>RP SP offer cts. run_transfer hR cR buffer lenR sysR hS cS data len sysS = (Ret RP, Ret SP)
    \<and> rp_rc RP = 0 \<and> sp_rc SP = 0 \<and> rp_rest RP = [] \<and> sp_rest SP = []
    \<and> sp_out SP = message_image (sps_pad sysS) offer @ message_image (sps_pad sysS) (accept_message cts)
    \<and> rp_out RP = message_image (rps_pad sysR) cts
    \<and> cc_params (sc_connection_ctx (sp_conn SP)) = cm_params cts
    \<and> (\<exists>rh sh. rp_handle RP = Some rh \<and> sp_handle SP = Some sh
          \<and> rh_generation rh = cp_transfer_id (cm_params cts) \<and> sh_generation sh = rh_generation rh)"
proof -
  let ?offer = "offer_message (sc_connection_ctx cS) len"
  let ?cts = "cts_of hR cR lenR sysR (cm_params ?offer)"
  have ctsp: "cm_params ?cts = (agreed cR lenR cS len)\<lparr>cp_transfer_id := hs_receiver_generation_counter hR\<rparr>"
    by (simp add: agreed_def offer_message_def)
  obtain RP SP where t: "run_transfer hR cR buffer lenR sysR hS cS data len sysS = (Ret RP, Ret SP)"
    "rp_rc RP = 0" "sp_rc SP = 0" "rp_rest RP = []" "sp_rest SP = []"
    "rp_out RP = message_image (rps_pad sysR) ?cts"
    "sp_out SP = message_image (sps_pad sysS) ?offer @ message_image (sps_pad sysS) (accept_message ?cts)"
    "cc_params (sc_connection_ctx (sp_conn SP)) = cm_params ?cts"
    "\<exists>h. rp_handle RP = Some h \<and> rh_generation h = cp_transfer_id (cm_params ?cts)"
    "\<exists>h. sp_handle SP = Some h \<and> sh_generation h = cp_transfer_id (cm_params ?cts)"
    using run_transfer_ok [OF assms, of hS] unfolding ctsp by force
  from t(9,10) have "\<exists>rh sh. rp_handle RP = Some rh \<and> sp_handle SP = Some sh
      \<and> rh_generation rh = cp_transfer_id (cm_params ?cts) \<and> sh_generation sh = rh_generation rh" by auto
  with t(1-8) show ?thesis by blast
qed

definition demo_host :: Host where
  "demo_host = \<lparr> hs_ctx = sdr_ctx_create None, hs_next_conn_id = 1, hs_receiver_generation_counter = 1,
     hs_mem = (\<lambda>_. replicate 5 9) \<rparr>"

definition demo_rconn :: SDRConnection where
  "demo_rconn = SDRConnection_new\<lparr>sc_is_receiver := True,
     sc_tcp_server := Some (TCPControlServer_new\<lparr>client_fd := 5\<rparr>),
     sc_connection_ctx := snd (cc_initialize ConnectionContext_new 1
       (zero_params\<lparr>cp_mtu_bytes := 2, cp_packets_per_chunk := 2\<rparr>))\<rparr>"

definition demo_sconn :: SDRConnection where
  "demo_sconn = SDRConnection_new\<lparr>sc_tcp_client := Some (TCPControlClient_new\<lparr>is_connected := True\<rparr>)\<rparr>"

definition demo_rsys :: RecvPostSys where
  "demo_rsys = \<lparr> rps_channels = (\<lambda>_. \<lparr>chs_socket = 7, chs_reuseaddr = 0, chs_rcvbuf = 0, chs_bind = 0\<rparr>),
     rps_send = 288, rps_pad = (\<lambda>_. 0), rps_locals = zero_message \<rparr>"

definition demo_ssys :: SendPostSys where
  "demo_ssys = \<lparr> sps_offer = 288, sps_accept = 288, sps_socket = 8, sps_inet_pton = (\<lambda>_. 1),
     sps_sendto = (\<lambda>_. 1), sps_pad = (\<lambda>_. 0) \<rparr>"

lemma demo_ready:
  "receiver_ready demo_host demo_rconn (UserBuf 0) 5 demo_rsys"
  "sender_ready demo_sconn [10, 20, 30, 40, 50] 5 demo_ssys"
proof -
  have cc: "cc_wf (sc_connection_ctx demo_rconn)"
    by (simp add: demo_rconn_def) (rule cc_wf_initialize, simp)
  have "cc_msg_table (sc_connection_ctx demo_rconn) ! 0 = None"
    by (simp add: demo_rconn_def cc_initialize_def ConnectionContext_new_def MAX_MESSAGES_def)
  then have free: "slot_free demo_host (sc_connection_ctx demo_rconn)"
    by (simp add: slot_free_def demo_host_def sdr_ctx_create_def slot_reusable_def)
  have p: "wf_params (cc_params (sc_connection_ctx demo_rconn))"
    by (simp add: demo_rconn_def cc_initialize_def wf_params_def zero_params_def)
  show "receiver_ready demo_host demo_rconn (UserBuf 0) 5 demo_rsys"
    using cc free p
    by (simp add: receiver_ready_def demo_rsys_def message_size_def channel_opens_def)
      (simp add: demo_rconn_def server_alive_def)
  show "sender_ready demo_sconn [10, 20, 30, 40, 50] 5 demo_ssys"
    by (simp add: sender_ready_def demo_sconn_def demo_ssys_def SDRConnection_new_def message_size_def
        ConnectionContext_new_def)
qed

theorem handshake_completes_witness:
  "\<exists>RP SP offer cts. run_transfer demo_host demo_rconn (UserBuf 0) 5 demo_rsys
        demo_host demo_sconn [10, 20, 30, 40, 50] 5 demo_ssys = (Ret RP, Ret SP)
    \<and> rp_rc RP = 0 \<and> sp_rc SP = 0 \<and> rp_rest RP = [] \<and> sp_rest SP = []
    \<and> sp_out SP = message_image (sps_pad demo_ssys) offer @ message_image (sps_pad demo_ssys) (accept_message cts)
    \<and> rp_out RP = message_image (rps_pad demo_rsys) cts
    \<and> cc_params (sc_connection_ctx (sp_conn SP)) = cm_params cts
    \<and> (\<exists>rh sh. rp_handle RP = Some rh \<and> sp_handle SP = Some sh
          \<and> rh_generation rh = cp_transfer_id (cm_params cts) \<and> sh_generation sh = rh_generation rh)"
  by (rule handshake_completes [OF demo_ready])

text \<open>C14: Completing a receive tells the truth and closes the slot.  For a handle whose message exists,
  \<open>sdr_recv_complete\<close> returns success, sends COMPLETE_ACK exactly when a layer above has declared the
  message complete or at least as many chunks are marked as the (nonzero, 32-bit) total and
  INCOMPLETE_NACK otherwise, and leaves the slot dead with its buffer redirected to the null
  sink.\<close>

theorem recv_complete_spec:
  assumes cc: "cc_wf (sc_connection_ctx conn)" and h: "rh_msg_ctx h = (rh_msg_id h, g)" "unat (rh_msg_id h) < 1024"
    and mc: "deref_ctx conn h = Some mc" "mc_frontend mc = Some f" "fb_wf f"
    and srv: "sc_is_receiver conn" "sc_tcp_server conn = Some srv" "server_alive srv"
    and out: "wf_message locals" "sent = int message_size"
  shows "let total = unat (ucast (mc_total_chunks mc) :: u32);
             ok = (mc_state mc = COMPLETED \<or> 0 < total \<and> total \<le> card (marked f)) in
    \<exists>RC. sdr_recv_complete conn (Some h) sent pad locals = Ret RC \<and> rc_rc RC = 0
      \<and> rc_out RC = message_image pad (completion_message locals ok (cc_connection_id (sc_connection_ctx conn)))
      \<and> cc_wf (sc_connection_ctx (rc_conn RC))
      \<and> (\<exists>mc'. get_message (sc_connection_ctx (rc_conn RC)) (rh_msg_id h) = Some mc'
            \<and> mc_state mc' = DEAD \<and> mc_buffer mc' = NullSink \<and> mc_generation mc' = mc_generation mc)"
  using recv_complete_eq [OF assms] .

definition demo_posted :: SDRConnection where
  "demo_posted = demo_rconn\<lparr>sc_connection_ctx := rs_conn demo_state\<rparr>"

definition demo_handle :: SDRRecvHandle where
  "demo_handle = \<lparr> rh_msg_id = 3, rh_generation = 1, rh_msg_ctx = (3, 1), rh_user_buffer = UserBuf 0,
     rh_buffer_size = 5 \<rparr>"

lemma demo_posted_ctx:
  "\<exists>mc f. deref_ctx demo_posted demo_handle = Some mc \<and> mc_frontend mc = Some f \<and> fb_wf f
    \<and> marked f = {} \<and> mc_state mc = ACTIVE \<and> mc_total_chunks mc = 2 \<and> fb_total_chunks f = 2
    \<and> (\<exists>bb. mc_backend mc = Some bb \<and> bb_packets_per_chunk bb = 2)"
proof -
  let ?fresh = "MessageContext_new\<lparr>mc_msg_id := 3, mc_generation := 1, mc_state := ACTIVE, mc_params := zero_params\<rparr>"
  let ?mc = "setup_message (UserBuf 0) 5 3 2 demo_params ?fresh"
  let ?f = "FrontendBitmap_new (Some (BackendBitmap_new (ucast (3 :: u64)) (cp_packets_per_chunk demo_params))) (ucast (2 :: u64))"
  have t: "cc_msg_table (snd (allocate_message_slot ConnectionContext_new 3 1))
      = (cc_msg_table ConnectionContext_new)[3 := Some ?fresh]"
    by (simp add: allocate_message_slot_def slot_reusable_def ConnectionContext_new_def MAX_MESSAGES_def Let_def)
  have "length (cc_msg_table ConnectionContext_new) = 1024"
    by (simp add: ConnectionContext_new_def MAX_MESSAGES_def)
  then have "cc_msg_table (rs_conn demo_state) ! 3 = Some ?mc"
    unfolding demo_state_def update_message_def by (simp add: t)
  then have d: "deref_ctx demo_posted demo_handle = Some ?mc"
    by (simp add: deref_ctx_def demo_posted_def demo_handle_def)
  have f: "mc_frontend ?mc = Some (snd (start_polling ?f 100))"
    by (simp add: setup_message_def Let_def)
  have "fb_wf (snd (start_polling ?f 100))" "marked (snd (start_polling ?f 100)) = {}"
    using fb_new_wf [of "ucast (2 :: u64)"] by (simp_all add: start_polling_def)
  moreover have "mc_state ?mc = ACTIVE" "mc_total_chunks ?mc = 2" by (simp_all add: setup_message_def Let_def)
  moreover have "fb_total_chunks (snd (start_polling ?f 100)) = 2"
    by (simp add: start_polling_def FrontendBitmap_new_def Let_def)
  moreover have "\<exists>bb. mc_backend ?mc = Some bb \<and> bb_packets_per_chunk bb = 2"
    by (simp add: setup_message_def Let_def BackendBitmap_new_def demo_params_def)
  ultimately show ?thesis using d f by blast
qed

theorem recv_complete_spec_witness:
  "\<exists>RC. sdr_recv_complete demo_posted (Some demo_handle) 288 (\<lambda>_. 0) zero_message = Ret RC \<and> rc_rc RC = 0
    \<and> rc_out RC = message_image (\<lambda>_. 0) (completion_message zero_message False
         (cc_connection_id (sc_connection_ctx demo_posted)))"
proof -
  obtain mc f where m: "deref_ctx demo_posted demo_handle = Some mc" "mc_frontend mc = Some f" "fb_wf f"
    "marked f = {}" "mc_state mc = ACTIVE" using demo_posted_ctx by blast
  have cc: "cc_wf (sc_connection_ctx demo_posted)"
    using demo_rx_inv(1) by (simp add: demo_posted_def rx_inv_def)
  have h: "rh_msg_ctx demo_handle = (rh_msg_id demo_handle, 1)" "unat (rh_msg_id demo_handle) < 1024"
    by (simp_all add: demo_handle_def)
  have s: "sc_is_receiver demo_posted" "sc_tcp_server demo_posted = Some (TCPControlServer_new\<lparr>client_fd := 5\<rparr>)"
    "server_alive (TCPControlServer_new\<lparr>client_fd := 5\<rparr>)"
    by (simp_all add: demo_posted_def demo_rconn_def server_alive_def)
  have o: "wf_message zero_message" "(288 :: int) = int message_size" by (simp_all add: message_size_def)
  have no: "(mc_state mc = COMPLETED \<or> 0 < unat (ucast (mc_total_chunks mc) :: u32)
      \<and> unat (ucast (mc_total_chunks mc) :: u32) \<le> card (marked f)) = False" using m(4,5) by auto
  show ?thesis
    using recv_complete_spec [OF cc h m(1-3) s o, of "\<lambda>_. 0", unfolded Let_def no] by blast
qed

end
