(* ===== verification/Config_Parser.thy ===== *)
theory Config_Parser
  imports SDR_Prelude
begin

text \<open>
  The configuration reader of \<open>src/config_parser.cpp\<close>: lines \<open>key = value\<close> with comments, kept in a
  map, and typed access with defaults.  \<open>std::getline\<close>, \<open>std::stoul\<close> and the search functions of
  \<open>std::string\<close> are modelled as the standard describes them.
\<close>

section \<open>Strings\<close>

text \<open>Position of the first and the last character for which a test holds; \<open>None\<close> is \<open>npos\<close>.\<close>

fun find_first :: "(char \<Rightarrow> bool) \<Rightarrow> string \<Rightarrow> nat option" where
  "find_first P [] = None"
| "find_first P (c # cs) = (if P c then Some 0 else map_option Suc (find_first P cs))"

fun find_last :: "(char \<Rightarrow> bool) \<Rightarrow> string \<Rightarrow> nat option" where
  "find_last P [] = None"
| "find_last P (c # cs) =
     (case find_last P cs of Some i \<Rightarrow> Some (Suc i) | None \<Rightarrow> (if P c then Some 0 else None))"

definition substr :: "string \<Rightarrow> nat \<Rightarrow> nat \<Rightarrow> string" where
  "substr s pos count = take count (drop pos s)"

definition newline :: char where "newline = CHR 0x0A"

definition blank :: "char \<Rightarrow> bool" where
  "blank c \<longleftrightarrow> c = CHR '' '' \<or> c = CHR 0x09 \<or> c = CHR 0x0D \<or> c = newline"

text \<open>The lines \<open>std::getline\<close> returns one after the other.\<close>

function getlines :: "string \<Rightarrow> string list" where
  "getlines s =
     (if s = [] then []
      else takeWhile (\<lambda>c. c \<noteq> newline) s #
        (case dropWhile (\<lambda>c. c \<noteq> newline) s of [] \<Rightarrow> [] | _ # rest \<Rightarrow> getlines rest))"
  by pat_completeness auto
termination
proof (relation "measure length")
  fix s :: string and c rest
  assume "dropWhile (\<lambda>c. c \<noteq> newline) s = c # rest"
  then show "(rest, s) \<in> measure length"
    using length_dropWhile_le [of "\<lambda>c. c \<noteq> newline" s] by simp
qed simp

declare getlines.simps [simp del]

text \<open>
  \<open>std::stoul\<close> in base 10: white space, an optional sign, digits; \<open>None\<close> stands for the exceptions
  \<open>invalid_argument\<close> (no digits) and \<open>out_of_range\<close>.  A minus sign negates modulo \<open>2^64\<close>; what
  follows the digits is ignored.
\<close>

definition char_code :: "char \<Rightarrow> nat" where
  "char_code c = of_char c"

definition is_space :: "char \<Rightarrow> bool" where
  "is_space c \<longleftrightarrow> c = CHR '' '' \<or> (9 \<le> char_code c \<and> char_code c \<le> 13)"

definition is_digit :: "char \<Rightarrow> bool" where
  "is_digit c \<longleftrightarrow> 48 \<le> char_code c \<and> char_code c \<le> 57"

definition digits_value :: "string \<Rightarrow> nat" where
  "digits_value ds = foldl (\<lambda>n c. 10 * n + (char_code c - 48)) 0 ds"

definition stoul :: "string \<Rightarrow> u64 option" where
  "stoul s =
     (let s1 = dropWhile is_space s;
          neg = (s1 \<noteq> [] \<and> hd s1 = CHR ''-'');
          s2 = (if s1 \<noteq> [] \<and> (hd s1 = CHR ''-'' \<or> hd s1 = CHR ''+'') then tl s1 else s1);
          ds = takeWhile is_digit s2
      in if ds = [] then None
         else if digits_value ds \<ge> 2 ^ 64 then None
         else Some (if neg then - of_nat (digits_value ds) else of_nat (digits_value ds)))"

section \<open>The parser\<close>

record ConfigParser =
  config_map :: "string \<Rightarrow> string option"

definition trim :: "string \<Rightarrow> string" where
  "trim str =
     (case find_first (\<lambda>c. \<not> blank c) str of
        None \<Rightarrow> []
      | Some i \<Rightarrow>
          (case find_last (\<lambda>c. \<not> blank c) str of
             None \<Rightarrow> []
           | Some j \<Rightarrow> substr str i (j - i + 1)))"

definition parse_line :: "ConfigParser \<Rightarrow> string \<Rightarrow> bool \<times> ConfigParser" where
  "parse_line p line =
     (let trimmed = trim line in
      if trimmed = [] \<or> trimmed ! 0 = CHR ''#'' \<or> trimmed ! 0 = CHR '';'' then (True, p)
      else case find_first (\<lambda>c. c = CHR ''='') trimmed of
          None \<Rightarrow> (False, p)
        | Some eq_pos \<Rightarrow>
            (let key = trim (substr trimmed 0 eq_pos);
                 value = trim (drop (eq_pos + 1) trimmed)
             in if key = [] then (False, p)
                else (True, p\<lparr>config_map := (config_map p)(key \<mapsto> value)\<rparr>)))"

text \<open>The content of the file, \<open>None\<close> when it cannot be opened; lines in error are only reported.\<close>

definition load_from_file :: "ConfigParser \<Rightarrow> string option \<Rightarrow> bool \<times> ConfigParser" where
  "load_from_file p file =
     (let p = p\<lparr>config_map := Map.empty\<rparr> in
      case file of
        None \<Rightarrow> (False, p)
      | Some content \<Rightarrow> (True, fold (\<lambda>line p. snd (parse_line p line)) (getlines content) p))"

definition get_uint32 :: "ConfigParser \<Rightarrow> string \<Rightarrow> u32 \<Rightarrow> u32" where
  "get_uint32 p key default_value =
     (case config_map p key of
        None \<Rightarrow> default_value
      | Some v \<Rightarrow> (case stoul v of None \<Rightarrow> default_value | Some n \<Rightarrow> ucast n))"

definition get_string :: "ConfigParser \<Rightarrow> string \<Rightarrow> string \<Rightarrow> string" where
  "get_string p key default_value =
     (case config_map p key of None \<Rightarrow> default_value | Some v \<Rightarrow> v)"

definition has_key :: "ConfigParser \<Rightarrow> string \<Rightarrow> bool" where
  "has_key p key \<longleftrightarrow> config_map p key \<noteq> None"

section \<open>Trimming\<close>

lemma find_first_drop:
  "find_first P s = Some i \<Longrightarrow> drop i s = dropWhile (\<lambda>c. \<not> P c) s \<and> i < length s"
  by (induction s arbitrary: i) (auto split: if_splits)

lemma find_first_none: "find_first P s = None \<longleftrightarrow> (\<forall>c\<in>set s. \<not> P c)"
  by (induction s) auto

lemma find_last_none: "find_last P s = None \<longleftrightarrow> (\<forall>c\<in>set s. \<not> P c)"
  by (induction s) (auto split: option.splits)

lemma find_first_split: "find_first P (u @ c # v) = Some (length u)"
  if "P c" "\<forall>d\<in>set u. \<not> P d"
  using that(2) by (induction u) (auto simp: that(1))

lemma find_last_split: "find_last P (u @ c # v) = Some (length u)"
  if "P c" "\<forall>d\<in>set v. \<not> P d"
proof (induction u)
  case Nil
  then show ?case using that find_last_none [of P v] by (simp split: option.splits)
next
  case (Cons d u)
  then show ?case by simp
qed

text \<open>Trimming removes the blanks at both ends and nothing else.\<close>

lemma trim_append:
  assumes "\<forall>c\<in>set u. blank c" and "\<forall>c\<in>set v. blank c"
    and "s \<noteq> []" and "\<not> blank (hd s)" and "\<not> blank (last s)"
  shows "trim (u @ s @ v) = s"
proof -
  obtain c s' where s: "s = c # s'" "\<not> blank c" using assms(3,4) by (cases s) auto
  obtain t d where t: "s = t @ [d]" "\<not> blank d" using assms(3,5) by (cases s rule: rev_cases) auto
  have a: "find_first (\<lambda>c. \<not> blank c) (u @ s @ v) = Some (length u)"
    using find_first_split [of "\<lambda>c. \<not> blank c" c u "s' @ v"] assms(1) s by simp
  have b: "find_last (\<lambda>c. \<not> blank c) (u @ s @ v) = Some (length (u @ t))"
    using find_last_split [of "\<lambda>c. \<not> blank c" d v "u @ t"] assms(2) t by simp
  have "length t + 1 = length s" by (simp add: t)
  then show ?thesis unfolding trim_def a b by (simp add: substr_def)
qed

lemma blank_chars [simp]: "\<not> blank (CHR ''='')" "blank newline" "newline \<noteq> CHR ''=''"
  by (simp_all add: blank_def newline_def)

lemma trim_blank: "\<forall>c\<in>set u. blank c \<Longrightarrow> trim u = []"
  using find_first_none [of "\<lambda>c. \<not> blank c" u] by (simp add: trim_def)

text \<open>Text without blanks at its ends.\<close>

definition clean :: "string \<Rightarrow> bool" where
  "clean s \<longleftrightarrow> s = [] \<or> \<not> blank (hd s) \<and> \<not> blank (last s)"

lemma trim_clean:
  assumes "clean s" and "\<forall>c\<in>set u. blank c" and "\<forall>c\<in>set v. blank c"
  shows "trim (u @ s @ v) = s"
proof (cases "s = []")
  case True
  then show ?thesis using assms trim_blank [of "u @ v"] by auto
next
  case False
  then show ?thesis using assms by (intro trim_append) (auto simp: clean_def)
qed

section \<open>Lines\<close>

lemma getlines_Nil [simp]: "getlines [] = []"
  by (simp add: getlines.simps)

lemma getlines_line:
  assumes "newline \<notin> set l"
  shows "getlines (l @ newline # rest) = l # getlines rest"
proof -
  have "takeWhile (\<lambda>c. c \<noteq> newline) (l @ newline # rest) = l"
    using assms by (induction l) auto
  moreover have "dropWhile (\<lambda>c. c \<noteq> newline) (l @ newline # rest) = newline # rest"
    using assms by (induction l) auto
  ultimately show ?thesis by (subst getlines.simps) simp
qed

lemma getlines_unlines:
  "\<forall>l\<in>set ls. newline \<notin> set l \<Longrightarrow> getlines (concat (map (\<lambda>l. l @ [newline]) ls)) = ls"
  by (induction ls) (simp_all add: getlines_line)

text \<open>An entry, as \<open>key = value\<close> with blanks around both, and keys that are read back as themselves.\<close>

definition key_ok :: "string \<Rightarrow> bool" where
  "key_ok k \<longleftrightarrow> k \<noteq> [] \<and> clean k \<and> CHR ''='' \<notin> set k \<and> newline \<notin> set k
     \<and> hd k \<noteq> CHR ''#'' \<and> hd k \<noteq> CHR '';''"

definition value_ok :: "string \<Rightarrow> bool" where
  "value_ok v \<longleftrightarrow> clean v \<and> newline \<notin> set v"

definition entry_line :: "string \<Rightarrow> string \<times> string \<Rightarrow> string" where
  "entry_line pad = (\<lambda>(k, v). pad @ k @ pad @ CHR ''='' # pad @ v @ pad)"

lemma trimmed_entry:
  assumes "key_ok k" and "value_ok v" and "\<forall>c\<in>set pad. blank c"
  shows "\<exists>w. trim (entry_line pad (k, v)) = k @ pad @ CHR ''='' # w \<and> trim w = v"
proof (cases "v = []")
  case True
  let ?s = "k @ pad @ [CHR ''='']"
  have "trim (pad @ ?s @ (pad @ pad)) = ?s"
    by (rule trim_append) (use assms in \<open>auto simp: key_ok_def clean_def blank_def newline_def\<close>)
  then show ?thesis
    using True trim_blank [of "[]"] by (intro exI [of _ "[]"]) (simp add: entry_line_def)
next
  case False
  let ?s = "k @ pad @ CHR ''='' # pad @ v"
  have "trim (pad @ ?s @ pad) = ?s"
    by (rule trim_append)
      (use assms False in \<open>auto simp: key_ok_def value_ok_def clean_def\<close>)
  moreover have "trim (pad @ v) = v"
    using trim_clean [of v pad "[]"] assms by (simp add: value_ok_def)
  ultimately show ?thesis by (intro exI [of _ "pad @ v"]) (simp add: entry_line_def)
qed

lemma parse_entry:
  assumes "key_ok k" and "value_ok v" and "\<forall>c\<in>set pad. blank c"
  shows "parse_line p (entry_line pad (k, v)) = (True, p\<lparr>config_map := (config_map p)(k \<mapsto> v)\<rparr>)"
proof -
  obtain w where w: "trim (entry_line pad (k, v)) = k @ pad @ CHR ''='' # w" "trim w = v"
    using trimmed_entry [OF assms] by blast
  have k: "k \<noteq> []" "k ! 0 \<noteq> CHR ''#''" "k ! 0 \<noteq> CHR '';''" "clean k"
    using assms(1) by (auto simp: key_ok_def hd_conv_nth)
  have "find_first (\<lambda>c. c = CHR ''='') ((k @ pad) @ CHR ''='' # w) = Some (length (k @ pad))"
    by (rule find_first_split) (use assms(1,3) blank_chars(1) in \<open>auto simp: key_ok_def\<close>)
  then have eq: "find_first (\<lambda>c. c = CHR ''='') (k @ pad @ CHR ''='' # w) = Some (length k + length pad)"
    by simp
  have "trim (k @ pad) = k" using trim_clean [of k "[]" pad] k(4) assms(3) by simp
  then have key: "trim (substr (k @ pad @ CHR ''='' # w) 0 (length k + length pad)) = k"
    by (simp add: substr_def)
  have val: "trim (drop (length k + length pad + 1) (k @ pad @ CHR ''='' # w)) = v"
    using w(2) by simp
  have nth: "(k @ pad @ CHR ''='' # w) ! 0 = k ! 0" using k(1) by (simp add: nth_append)
  show ?thesis
    unfolding parse_line_def Let_def w(1) eq option.case key val nth using k by simp
qed

lemma parse_entries:
  assumes "\<forall>(k, v)\<in>set kvs. key_ok k \<and> value_ok v" and "\<forall>c\<in>set pad. blank c"
  shows "fold (\<lambda>line p. snd (parse_line p line)) (map (entry_line pad) kvs) p
    = p\<lparr>config_map := config_map p ++ map_of (rev kvs)\<rparr>"
  using assms(1)
proof (induction kvs arbitrary: p)
  case Nil
  then show ?case by simp
next
  case (Cons kv kvs)
  obtain k v where kv: "kv = (k, v)" by (cases kv)
  have "snd (parse_line p (entry_line pad kv)) = p\<lparr>config_map := (config_map p)(k \<mapsto> v)\<rparr>"
    using parse_entry [of k v pad p] Cons.prems assms(2) by (simp add: kv)
  with Cons show ?case by (simp add: kv)
qed

text \<open>Decimal notation.\<close>

fun decimal :: "nat \<Rightarrow> string" where
  "decimal n = (if n < 10 then [char_of (48 + n)] else decimal (n div 10) @ [char_of (48 + n mod 10)])"

declare decimal.simps [simp del]

lemma digit_char: "n < 10 \<Longrightarrow> is_digit (char_of (48 + n)) \<and> char_code (char_of (48 + n)) - 48 = n"
  by (simp add: is_digit_def char_code_def of_char_of)

lemma decimal_digits: "(\<forall>c\<in>set (decimal n). is_digit c) \<and> digits_value (decimal n) = n \<and> decimal n \<noteq> []"
proof (induction n rule: decimal.induct)
  case (1 n)
  have snoc: "digits_value (ds @ [c]) = 10 * digits_value ds + (char_code c - 48)" for ds c
    by (simp add: digits_value_def)
  show ?case
  proof (cases "n < 10")
    case True
    then show ?thesis using digit_char [OF True] by (simp add: decimal.simps digits_value_def)
  next
    case False
    then show ?thesis using 1 digit_char [of "n mod 10"] by (simp add: decimal.simps [of n] snoc)
  qed
qed

lemma stoul_decimal:
  assumes "rest = [] \<or> \<not> is_digit (hd rest)"
  shows "stoul (decimal n @ rest) = (if n < 2 ^ 64 then Some (of_nat n) else None)"
    and "stoul (CHR ''-'' # decimal n @ rest) = (if n < 2 ^ 64 then Some (- of_nat n) else None)"
proof -
  have d: "\<forall>c\<in>set (decimal n). is_digit c" "digits_value (decimal n) = n" "decimal n \<noteq> []"
    using decimal_digits by auto
  obtain c cs where c: "decimal n = c # cs" "is_digit c" using d by (cases "decimal n") auto
  then have s: "\<not> is_space c" "c \<noteq> CHR ''-''" "c \<noteq> CHR ''+''"
    by (auto simp: is_digit_def is_space_def char_code_def)
  have tw: "takeWhile is_digit (decimal n @ rest) = decimal n"
    using d(1) assms by (cases rest) (simp_all add: takeWhile_append takeWhile_eq_all_conv [THEN iffD2])
  have m: "\<not> is_space (CHR ''-'')" by (simp add: is_space_def char_code_def)
  show "stoul (decimal n @ rest) = (if n < 2 ^ 64 then Some (of_nat n) else None)"
    unfolding stoul_def Let_def using tw d s c by (auto simp: not_le)
  show "stoul (CHR ''-'' # decimal n @ rest) = (if n < 2 ^ 64 then Some (- of_nat n) else None)"
    unfolding stoul_def Let_def using tw d m by (auto simp: not_le)
qed

section \<open>Properties\<close>

text \<open>C25: Writing entries and loading them gives the entries back.  Whatever blanks are put around
  keys, values and the equals sign, loading a file of entries forgets the old configuration and maps
  every key to its last value and nothing else; a file that cannot be opened leaves the configuration
  empty and answers false.\<close>

theorem config_roundtrip:
  assumes "\<forall>(k, v)\<in>set kvs. key_ok k \<and> value_ok v" and "\<forall>c\<in>set pad. blank c \<and> c \<noteq> newline"
  shows "load_from_file p (Some (concat (map (\<lambda>kv. entry_line pad kv @ [newline]) kvs)))
      = (True, p\<lparr>config_map := map_of (rev kvs)\<rparr>)
    \<and> load_from_file p None = (False, p\<lparr>config_map := Map.empty\<rparr>)"
proof -
  have "\<forall>l\<in>set (map (entry_line pad) kvs). newline \<notin> set l"
    using assms blank_chars(3) by (fastforce simp: entry_line_def key_ok_def value_ok_def)
  from getlines_unlines [OF this]
  have "getlines (concat (map (\<lambda>kv. entry_line pad kv @ [newline]) kvs)) = map (entry_line pad) kvs"
    by (simp add: comp_def)
  then show ?thesis
    using parse_entries [OF assms(1), of pad "p\<lparr>config_map := Map.empty\<rparr>"] assms(2)
    by (simp add: load_from_file_def Let_def)
qed

theorem config_roundtrip_witness:
  "load_from_file \<lparr>config_map = Map.empty\<rparr> (Some (concat (map (\<lambda>kv. entry_line '' '' kv @ [newline])
        [(''mtu'', ''1400''), (''ip'', ''127.0.0.1''), (''mtu'', '''')])))
      = (True, \<lparr>config_map = Map.empty\<rparr>\<lparr>config_map := map_of (rev
          [(''mtu'', ''1400''), (''ip'', ''127.0.0.1''), (''mtu'', '''')])\<rparr>)
    \<and> load_from_file \<lparr>config_map = Map.empty\<rparr> None
      = (False, \<lparr>config_map = Map.empty\<rparr>\<lparr>config_map := Map.empty\<rparr>)"
  by (rule config_roundtrip)
    (simp_all add: key_ok_def value_ok_def clean_def blank_def newline_def)

text \<open>C26: Numbers are read back modulo \<open>2^32\<close>.  A key configured with a decimal number, followed by
  anything that is not a digit, yields that number if it is below \<open>2^32\<close>, its low 32 bits if it is
  below \<open>2^64\<close>, and the default beyond; a minus sign negates modulo \<open>2^32\<close> instead of being rejected;
  an absent key yields the default.\<close>

theorem get_uint32_decimal:
  assumes "rest = [] \<or> \<not> is_digit (hd rest)"
  shows "(config_map p key = Some (decimal n @ rest) \<longrightarrow>
        get_uint32 p key dflt = (if n < 2 ^ 64 then of_nat n else dflt))
    \<and> (config_map p key = Some (CHR ''-'' # decimal n @ rest) \<longrightarrow>
        get_uint32 p key dflt = (if n < 2 ^ 64 then - of_nat n else dflt))
    \<and> (config_map p key = None \<longrightarrow> get_uint32 p key dflt = dflt \<and> \<not> has_key p key)"
proof -
  have u: "ucast (of_nat n :: u64) = (of_nat n :: u32)" by transfer simp
  have neg: "ucast (- (of_nat n) :: u64) = (- of_nat n :: u32)" by transfer simp
  show ?thesis
    by (simp add: get_uint32_def has_key_def stoul_decimal [OF assms] u neg)
qed

theorem get_uint32_decimal_witness:
  "get_uint32 \<lparr>config_map = [''n'' \<mapsto> ''-2'', ''m'' \<mapsto> ''4294967297 # x'']\<rparr> ''m'' 7 = 1
    \<and> get_uint32 \<lparr>config_map = [''n'' \<mapsto> ''-2'', ''m'' \<mapsto> ''4294967297 # x'']\<rparr> ''n'' 7 = 4294967294"
proof -
  have d: "decimal 4294967297 = ''4294967297''" "decimal 2 = ''2''"
    by (simp_all add: decimal.simps char_of_def bit_0)
  have r: "('' # x'' = []) \<or> \<not> is_digit (hd '' # x'')"
    by (simp add: is_digit_def char_code_def)
  show ?thesis
    using get_uint32_decimal [of "'' # x''" "\<lparr>config_map = [''n'' \<mapsto> ''-2'', ''m'' \<mapsto> ''4294967297 # x'']\<rparr>"
        "''m''" 4294967297 7, OF r]
      get_uint32_decimal [of "[]" "\<lparr>config_map = [''n'' \<mapsto> ''-2'', ''m'' \<mapsto> ''4294967297 # x'']\<rparr>"
        "''n''" 2 7]
    by (simp add: d)
qed

end
