(* ===== verification/Chunk_Marks.thy ===== *)
theory Chunk_Marks
  imports Api
begin

text \<open>
  What the two reliability layers share.  A table with one flag per chunk, into which the bitmap of a
  control message is read by the same two nested loops: the layers differ in the words they accept
  and in where the table lies, and the loops are verified here once, over the table alone.  The gaps
  of a message, and the chunks they cover.
\<close>

section \<open>The table\<close>

definition acked_list :: "bool list \<Rightarrow> nat set" where
  "acked_list l = {c. c < length l \<and> l ! c}"

lemma acked_list_set: "c < length l \<Longrightarrow> acked_list (l[c := True]) = insert c (acked_list l)"
  by (auto simp: acked_list_def nth_list_update)

section \<open>Reading a bitmap\<close>

text \<open>A bit of the bitmap, and the loops; the inner one ends at the last chunk.\<close>

definition mark_bit :: "u32 \<Rightarrow> u64 \<Rightarrow> u32 \<Rightarrow> u32 \<Rightarrow> bool list \<Rightarrow> bool list option + bool list" where
  "mark_bit max_chunks word w b l =
     (let chunk_id = w * 64 + b in
      if chunk_id \<ge> max_chunks then Inl (Some l)
      else if word AND push_bit (unat b) 1 \<noteq> 0
      then (case arr_set l (unat chunk_id) True of None \<Rightarrow> Inl None | Some l \<Rightarrow> Inr l)
      else Inr l)"

definition mark_word :: "u32 \<Rightarrow> ControlMessage \<Rightarrow> u32 \<Rightarrow> bool list \<Rightarrow> bool list option" where
  "mark_word max_chunks msg w l =
     (case arr_get (cm_chunk_bitmap msg) (unat w) of
        None \<Rightarrow> None
      | Some word \<Rightarrow> loop_result (for_exit 0 64 (mark_bit max_chunks word w) l))"

definition mark_bitmap :: "u32 \<Rightarrow> u32 \<Rightarrow> ControlMessage \<Rightarrow> bool list \<Rightarrow> bool list option" where
  "mark_bitmap max_words max_chunks msg l =
     for_while 0 (min (ucast (cm_chunk_bitmap_words msg)) max_words) (\<lambda>_. True) (mark_word max_chunks msg) l"

lemma mark_bits_eq:
  assumes len: "unat max_chunks \<le> length l" and w: "w < 16"
  shows "\<exists>l'. loop_result (for_exit 0 64 (mark_bit max_chunks word (of_nat w)) l) = Some l' \<and> length l' = length l
    \<and> acked_list l' = acked_list l \<union> {c. c < unat max_chunks \<and> c div 64 = w \<and> bit word (c mod 64)}"
proof -
  let ?T = "unat max_chunks"
  let ?A = "\<lambda>j. {c. c < ?T \<and> 64 * w \<le> c \<and> c < 64 * w + j \<and> bit word (c - 64 * w)}"
  let ?P = "\<lambda>j t. length t = length l \<and> acked_list t = acked_list l \<union> ?A j"
  let ?Q = "\<lambda>e. \<exists>t. e = Some t \<and> ?P 64 t"
  have full: "{c. c < ?T \<and> c div 64 = w \<and> bit word (c mod 64)} = ?A 64"
  proof (rule Collect_cong)
    fix c :: nat
    have "64 * (c div 64) + c mod 64 = c" "c mod 64 < 64" by simp_all
    then have "c div 64 = w \<longleftrightarrow> 64 * w \<le> c \<and> c < 64 * w + 64" by linarith
    moreover have "c div 64 = w \<Longrightarrow> c mod 64 = c - 64 * w"
      by (metis minus_mult_div_eq_mod)
    ultimately show "(c < ?T \<and> c div 64 = w \<and> bit word (c mod 64))
        = (c < ?T \<and> 64 * w \<le> c \<and> c < 64 * w + 64 \<and> bit word (c - 64 * w))" by metis
  qed
  have id: "unat (of_nat w * 64 + of_nat k :: u32) = 64 * w + k" if "k < 64" for k
  proof -
    have "(of_nat w * 64 + of_nat k :: u32) = of_nat (64 * w + k)" by simp
    moreover have "64 * w + k < 2 ^ LENGTH(32)" using w that by simp
    ultimately show ?thesis by (metis unat_of_nat_small)
  qed
  have k64: "unat (of_nat k :: u32) = k" if "k < 64" for k using that by (simp add: unat_of_nat_small)
  have step: "mark_bit max_chunks word (of_nat w) (of_nat k) t = (if ?T \<le> 64 * w + k then Inl (Some t)
      else if bit word k then Inr (t[64 * w + k := True]) else Inr t)" if k: "k < 64" and t: "length t = length l" for k t
    using len t by (simp add: mark_bit_def Let_def word_le_nat_alt id [OF k] k64 [OF k] and_bit_mask_eq_0 [OF k])
  have grow: "?A (Suc k) = (if 64 * w + k < ?T \<and> bit word k then insert (64 * w + k) (?A k) else ?A k)" for k
    by (auto simp: less_Suc_eq)
  have "case for_exit 0 64 (mark_bit max_chunks word (of_nat w)) l of Inr t \<Rightarrow> ?P (unat (64 :: u32)) t | Inl e \<Rightarrow> ?Q e"
  proof (rule for_exit_rule)
    show "?P (unat (0 :: u32)) l" by auto
    show "0 \<le> (64 :: u32)" by simp
  next
    fix k t t' assume k: "k < unat (64 :: u32)" and P: "?P k t" and f: "mark_bit max_chunks word (of_nat w) (of_nat k) t = Inr t'"
    have lt: "64 * w + k < ?T" and t': "t' = (if bit word k then t[64 * w + k := True] else t)"
      using f step [of k t] k P by (auto simp: not_le split: if_splits)
    show "?P (Suc k) t'"
      unfolding grow t' using lt P len by (simp add: acked_list_set)
  next
    fix k t e assume k: "k < unat (64 :: u32)" and P: "?P k t" and f: "mark_bit max_chunks word (of_nat w) (of_nat k) t = Inl e"
    have e: "?T \<le> 64 * w + k" "e = Some t"
      using f step [of k t] k P by (auto split: if_splits)
    have "c < ?T \<Longrightarrow> c < 64 * w + k" "c < ?T \<Longrightarrow> c < 64 * w + 64" for c using e(1) k by simp_all
    then have A: "?A k = ?A 64" by (intro Collect_cong conj_cong HOL.refl) simp
    have "?P 64 t" using P unfolding A .
    then show "?Q e" unfolding e(2) by (intro exI [of _ t] conjI [OF HOL.refl])
  qed
  then show ?thesis unfolding full
    by (cases "for_exit 0 64 (mark_bit max_chunks word (of_nat w)) l") auto
qed

lemma mark_bitmap_eq:
  assumes len: "unat max_chunks \<le> length l" and wf: "wf_message msg" and words: "unat max_words \<le> 16"
  defines "n \<equiv> min (unat (cm_chunk_bitmap_words msg)) (unat max_words)"
  shows "\<exists>l'. mark_bitmap max_words max_chunks msg l = Some l' \<and> length l' = length l
    \<and> acked_list l' = acked_list l \<union> bits_of (take n (cm_chunk_bitmap msg)) \<inter> {..<unat max_chunks}"
proof -
  let ?T = "unat max_chunks" and ?bm = "cm_chunk_bitmap msg"
  let ?B = "\<lambda>j. {c. c < ?T \<and> c div 64 < j \<and> bit (?bm ! (c div 64)) (c mod 64)}"
  let ?P = "\<lambda>j t. length t = length l \<and> acked_list t = acked_list l \<union> ?B j"
  have un: "unat (min (ucast (cm_chunk_bitmap_words msg)) max_words) = n"
    by (simp add: n_def min_def word_le_nat_alt)
  have "\<exists>t j. for_while 0 (min (ucast (cm_chunk_bitmap_words msg)) max_words) (\<lambda>_. True) (mark_word max_chunks msg) l = Some t
      \<and> unat (0 :: u32) \<le> j \<and> j \<le> n \<and> ?P j t \<and> (j = n \<or> \<not> True)"
    unfolding un [symmetric]
  proof (rule for_while_total)
    show "?P (unat (0 :: u32)) l" by simp
  next
    fix k t assume k: "k < unat (min (ucast (cm_chunk_bitmap_words msg)) max_words)" and P: "?P k t"
    have k16: "k < 16" using k words by (simp add: un n_def)
    have uk: "unat (of_nat k :: u32) = k" using k16 by (simp add: unat_of_nat_small)
    have bm: "arr_get ?bm k = Some (?bm ! k)" using wf k16 by (simp add: wf_message_def)
    have "?T \<le> length t" using P len by simp
    from mark_bits_eq [OF this k16, of "?bm ! k"] obtain t' where t':
      "loop_result (for_exit 0 64 (mark_bit max_chunks (?bm ! k) (of_nat k)) t) = Some t'" "length t' = length t"
      "acked_list t' = acked_list t \<union> {c. c < ?T \<and> c div 64 = k \<and> bit (?bm ! k) (c mod 64)}" by blast
    have "acked_list t' = acked_list l \<union> ?B (Suc k)"
      using P by (auto simp: t'(3) less_Suc_eq)
    then show "\<exists>t'. mark_word max_chunks msg (of_nat k) t = Some t' \<and> ?P (Suc k) t'"
      using t' P by (auto simp: mark_word_def uk bm)
  qed simp
  moreover have "bits_of (take n ?bm) \<inter> {..<?T} = ?B n"
    using wf words by (auto simp: bits_of_def wf_message_def n_def)
  ultimately show ?thesis by (auto simp: mark_bitmap_def)
qed

text \<open>A table that is too short for a bit of the bitmap is written outside of its bounds.\<close>

lemma mark_bits_inside:
  assumes w: "w < 16" and r: "loop_result (for_exit 0 64 (mark_bit max_chunks word (of_nat w)) l) = Some l'"
  shows "length l' = length l \<and> (\<forall>k < 64. 64 * w + k < unat max_chunks \<and> bit word k \<longrightarrow> 64 * w + k < length l)"
proof -
  let ?T = "unat max_chunks"
  let ?in = "\<lambda>k. 64 * w + k < ?T \<and> bit word k \<longrightarrow> 64 * w + k < length l"
  let ?P = "\<lambda>j t. length t = length l \<and> (\<forall>k < j. ?in k)"
  let ?Q = "\<lambda>e. e = None \<or> (\<exists>t. e = Some t \<and> ?P 64 t)"
  have id: "unat (of_nat w * 64 + of_nat k :: u32) = 64 * w + k" if "k < 64" for k
  proof -
    have "(of_nat w * 64 + of_nat k :: u32) = of_nat (64 * w + k)" by simp
    moreover have "64 * w + k < 2 ^ LENGTH(32)" using w that by simp
    ultimately show ?thesis by (metis unat_of_nat_small)
  qed
  have k64: "unat (of_nat k :: u32) = k" if "k < 64" for k using that by (simp add: unat_of_nat_small)
  have step: "mark_bit max_chunks word (of_nat w) (of_nat k) t = (if ?T \<le> 64 * w + k then Inl (Some t)
      else if bit word k then (if 64 * w + k < length t then Inr (t[64 * w + k := True]) else Inl None) else Inr t)" if k: "k < 64" for k t
    by (simp add: mark_bit_def Let_def word_le_nat_alt id [OF k] k64 [OF k] and_bit_mask_eq_0 [OF k] arr_set_def)
  have "case for_exit 0 64 (mark_bit max_chunks word (of_nat w)) l of Inr t \<Rightarrow> ?P (unat (64 :: u32)) t | Inl e \<Rightarrow> ?Q e"
  proof (rule for_exit_rule)
    show "?P (unat (0 :: u32)) l" by simp
    show "0 \<le> (64 :: u32)" by simp
  next
    fix k t t' assume k: "k < unat (64 :: u32)" and P: "?P k t" and f: "mark_bit max_chunks word (of_nat w) (of_nat k) t = Inr t'"
    then show "?P (Suc k) t'" using step [of k t] by (auto simp: less_Suc_eq split: if_splits)
  next
    fix k t e assume k: "k < unat (64 :: u32)" and P: "?P k t" and f: "mark_bit max_chunks word (of_nat w) (of_nat k) t = Inl e"
    show "?Q e"
    proof (cases "?T \<le> 64 * w + k")
      case True
      then have "?in j" if "j < 64" for j using P that by (cases "j < k") auto
      then show ?thesis using f step [of k t] k P True by auto
    next
      case False
      then show ?thesis using f step [of k t] k by (auto split: if_splits)
    qed
  qed
  then show ?thesis using r by (cases "for_exit 0 64 (mark_bit max_chunks word (of_nat w)) l") auto
qed

lemma mark_bitmap_outside:
  assumes wf: "wf_message msg" and words: "unat max_words \<le> 16"
    and c: "c < unat max_chunks" "length l \<le> c"
      "c \<in> bits_of (take (min (unat (cm_chunk_bitmap_words msg)) (unat max_words)) (cm_chunk_bitmap msg))"
  shows "mark_bitmap max_words max_chunks msg l = None"
proof -
  define n where "n = min (unat (cm_chunk_bitmap_words msg)) (unat max_words)"
  have un: "unat (min (ucast (cm_chunk_bitmap_words msg)) max_words) = n"
    by (simp add: n_def min_def word_le_nat_alt)
  have cb: "c div 64 < n" "bit (cm_chunk_bitmap msg ! (c div 64)) (c mod 64)" "c div 64 < 16"
    using c(3) words by (auto simp: bits_of_def n_def)
  have c64: "64 * (c div 64) + c mod 64 = c" "c mod 64 < 64" by simp_all
  let ?P = "\<lambda>j t. length t = length l \<and> j \<le> c div 64"
  have "case for_exit 0 (min (ucast (cm_chunk_bitmap_words msg)) max_words)
      (\<lambda>i t. if True then case mark_word max_chunks msg i t of None \<Rightarrow> Inl None | Some t' \<Rightarrow> Inr t' else Inl (Some t)) l
    of Inr t \<Rightarrow> ?P (unat (min (ucast (cm_chunk_bitmap_words msg)) max_words)) t | Inl e \<Rightarrow> e = None"
  proof (rule for_exit_rule)
    show "?P (unat (0 :: u32)) l" by simp
  next
    fix k t t' assume k: "k < unat (min (ucast (cm_chunk_bitmap_words msg)) max_words)" and P: "?P k t"
      and f: "(if True then case mark_word max_chunks msg (of_nat k) t of None \<Rightarrow> Inl None | Some t' \<Rightarrow> Inr t' else Inl (Some t)) = Inr t'"
    have k16: "k < 16" using k words by (simp add: un n_def)
    then have uk: "unat (of_nat k :: u32) = k" by (simp add: unat_of_nat_small)
    have "mark_word max_chunks msg (of_nat k) t = Some t'" using f by (auto split: option.splits)
    then have m: "length t' = length t \<and> (\<forall>j < 64. 64 * k + j < unat max_chunks \<and> bit (cm_chunk_bitmap msg ! k) j \<longrightarrow> 64 * k + j < length t)"
      using mark_bits_inside [OF k16] wf k16 by (auto simp: mark_word_def uk wf_message_def split: option.splits)
    have "k \<noteq> c div 64"
    proof
      assume "k = c div 64"
      then have "c < length t" using m [THEN conjunct2, THEN spec, of "c mod 64"] c64 c(1) cb(2) by simp
      then show False using P c(2) by simp
    qed
    then show "?P (Suc k) t'" using P m by simp
  qed (auto split: option.splits)
  then show ?thesis
    using cb(1) unfolding mark_bitmap_def for_while_def un by (auto split: sum.splits)
qed

section \<open>Gaps\<close>

text \<open>The chunks of a list of gaps.\<close>

definition gaps_cover :: "(u16 \<times> u16) list \<Rightarrow> nat set" where
  "gaps_cover gaps = (\<Union>(s, n) \<in> set gaps. {unat s..<unat s + unat n})"

lemma gaps_cover_simps [simp]:
  "gaps_cover [] = {}" "gaps_cover (gaps @ [(s, n)]) = gaps_cover gaps \<union> {unat s..<unat s + unat n}"
  by (auto simp: gaps_cover_def)

text \<open>The gaps a message reports.\<close>

definition msg_gaps :: "ControlMessage \<Rightarrow> (u16 \<times> u16) list" where
  "msg_gaps m = take (unat (cm_num_gaps m)) (zip (cm_gap_start m) (cm_gap_len m))"

section \<open>Loops on a part of a larger state\<close>

text \<open>A loop whose body works on a part of the state that \<open>put\<close> inserts.\<close>


lemma for_exit_part:
  assumes "\<And>i x. h i (put x) = (case f i x of Inl e \<Rightarrow> Inl (map_option put e) | Inr y \<Rightarrow> Inr (put y))"
  shows "loop_result (for_exit i n h (put x)) = map_option put (loop_result (for_exit i n f x))"
proof (induction "unat n - unat i" arbitrary: i x)
  case 0
  then have "\<not> i < n" by (simp add: word_less_nat_alt)
  then show ?case by simp
next
  case (Suc d)
  then have lt: "i < n" by (simp add: word_less_nat_alt)
  then have "d = unat n - unat (i + 1)" using Suc.hyps(2) by (simp add: unat_Suc_less)
  then have IH: "loop_result (for_exit (i + 1) n h (put y)) = map_option put (loop_result (for_exit (i + 1) n f y))" for y
    by (rule Suc.hyps(1))
  show ?case
    by (cases "f i x") (simp_all add: for_exit_step [OF lt] assms IH)
qed

lemma for_while_part:
  assumes "\<And>i x. h i (put x) = map_option put (f i x)"
  shows "for_while i n (\<lambda>_. True) h (put x) = map_option put (for_while i n (\<lambda>_. True) f x)"
  unfolding for_while_def by (rule for_exit_part) (simp add: assms split: option.split)

end
