(* ===== verification/Selective_Repeat.thy ===== *)
theory Selective_Repeat
  imports Chunk_Marks "HOL-Library.Signed_Division"
begin

text \<open>
  The sender of the selective-repeat layer, \<open>reliability/sr.h\<close> and \<open>reliability/sr.cpp\<close>: its window,
  retransmissions and control loop.  Time is the sequence of readings of
  \<open>steady_clock\<close> in nanoseconds; readings, sockets and the address conversion are arguments, and what
  is given to \<open>sendto\<close> is recorded in the state.
\<close>

section \<open>Sender\<close>

record SRConfig =
  cfg_rto_ms :: u32
  cfg_nack_delay_ms :: u32
  cfg_max_inflight_chunks :: u16
  cfg_base_rtt_ms :: u32
  cfg_alpha_ms :: u32

record SRStats =
  stat_acks_sent :: u64
  stat_nacks_sent :: u64
  stat_retransmits :: u64

text \<open>
  The members of the class; the last three fields are not members but the traces: how often the clock
  was read and a socket opened, and the datagrams given to \<open>sendto\<close> with their port.
\<close>

record SRSender =
  srs_cfg :: SRConfig
  srs_stats :: SRStats
  srs_total_chunks :: u32
  srs_mtu_bytes :: u32
  srs_packets_per_chunk :: u16
  srs_ack_base :: u32
  srs_next_chunk_to_send :: u32
  srs_max_inflight :: u16
  srs_chunk_acked :: "bool list"
  srs_last_tx :: "int list"
  srs_last_control_tx :: int
  srs_send_handle :: "SDRSendHandle option"
  srs_conn :: "SDRConnection option"
  srs_readings :: nat
  srs_sockets :: nat
  srs_wire :: "(u16 \<times> u8 list) list"

record SRSys =
  sy_now :: "nat \<Rightarrow> int"
  sy_socket :: "nat \<Rightarrow> int"
  sy_inet_pton :: "u8 list \<Rightarrow> int"

definition SRStats_new :: SRStats where
  "SRStats_new = \<lparr> stat_acks_sent = 0, stat_nacks_sent = 0, stat_retransmits = 0 \<rparr>"

definition SRSender_new :: "SRConfig \<Rightarrow> SRSender" where
  "SRSender_new cfg =
     \<lparr> srs_cfg = cfg, srs_stats = SRStats_new, srs_total_chunks = 0, srs_mtu_bytes = 0,
       srs_packets_per_chunk = 0, srs_ack_base = 0, srs_next_chunk_to_send = 0, srs_max_inflight = 0,
       srs_chunk_acked = [], srs_last_tx = [], srs_last_control_tx = 0, srs_send_handle = None,
       srs_conn = None, srs_readings = 0, srs_sockets = 0, srs_wire = [] \<rparr>"

text \<open>\<open>steady_clock::now()\<close>, and \<open>duration_cast<milliseconds>\<close>, which truncates.\<close>

definition read_clock :: "SRSys \<Rightarrow> SRSender \<Rightarrow> int \<times> SRSender" where
  "read_clock sys s = (sy_now sys (srs_readings s), s\<lparr>srs_readings := srs_readings s + 1\<rparr>)"

definition elapsed_ms :: "int \<Rightarrow> int \<Rightarrow> int" where
  "elapsed_ms now earlier = (now - earlier) sdiv 1000000"

text \<open>One turn of the loop of \<open>send_packets_range\<close>; \<open>Inl (Some s)\<close> is its \<open>break\<close>, \<open>Inl None\<close> a fault.\<close>

definition range_packet ::
    "ConnectionParams \<Rightarrow> SDRSendHandle \<Rightarrow> u32 \<Rightarrow> u32 \<Rightarrow> SRSender \<Rightarrow> SRSender option + SRSender" where
  "range_packet params handle start_packet i s =
     (let packet_offset = start_packet + i;
          data_offset = ucast packet_offset * ucast (srs_mtu_bytes s)
      in if data_offset \<ge> sh_buffer_size handle then Inl (Some s)
         else
           let remaining = sh_buffer_size handle - data_offset;
               packet_data_len = min (ucast (srs_mtu_bytes s)) remaining;
               packet_data_len = (if packet_data_len > MAX_PAYLOAD_SIZE then MAX_PAYLOAD_SIZE
                                  else packet_data_len)
           in case make_datagram (cp_transfer_id params) (sh_msg_id handle) packet_offset
                     (srs_packets_per_chunk s) (drop (unat data_offset) (sh_user_buffer handle))
                     packet_data_len of
                None \<Rightarrow> Inl None
              | Some None \<Rightarrow> Inr s
              | Some (Some bytes) \<Rightarrow> Inr (s\<lparr>srs_wire := srs_wire s @ [(cp_udp_server_port params, bytes)]\<rparr>))"

definition send_packets_range :: "SRSys \<Rightarrow> u32 \<Rightarrow> u32 \<Rightarrow> SRSender \<Rightarrow> SRSender option" where
  "send_packets_range sys start_packet num_packets s =
     (case (srs_conn s, srs_send_handle s) of
        (Some conn, Some handle) \<Rightarrow>
          (let params = cc_params (sc_connection_ctx conn);
               udp_socket = sy_socket sys (srs_sockets s);
               s = s\<lparr>srs_sockets := srs_sockets s + 1\<rparr>
           in if udp_socket < 0 then Some s
              else if sy_inet_pton sys (cp_udp_server_ip params) \<le> 0 then Some s
              else loop_result (for_exit 0 num_packets (range_packet params handle start_packet) s))
      | _ \<Rightarrow> Some s)"

definition set_last_tx :: "int \<Rightarrow> u32 \<Rightarrow> SRSender \<Rightarrow> SRSender option" where
  "set_last_tx now c s =
     map_option (\<lambda>l. s\<lparr>srs_last_tx := l\<rparr>) (arr_set (srs_last_tx s) (unat c) now)"

definition retransmit_range :: "SRSys \<Rightarrow> u32 \<Rightarrow> u32 \<Rightarrow> SRSender \<Rightarrow> SRSender option" where
  "retransmit_range sys start_chunk count s =
     (case srs_send_handle s of
        None \<Rightarrow> None
      | Some handle \<Rightarrow>
          (let mtu = (ucast (srs_mtu_bytes s) :: u64);
               chunk_bytes = ucast (srs_packets_per_chunk s) * mtu;
               offset = ucast start_chunk * chunk_bytes;
               len = ucast count * chunk_bytes
           in if offset \<ge> sh_buffer_size handle then Some s
              else
                let len = (if offset + len > sh_buffer_size handle
                           then sh_buffer_size handle - offset else len)
                in if srs_mtu_bytes s = 0 then None
                   else
                     let start_packet = ucast (offset div mtu);
                         num_packets = ucast ((len + mtu - 1) div mtu)
                     in case send_packets_range sys start_packet num_packets s of
                          None \<Rightarrow> None
                        | Some s \<Rightarrow>
                            (let s = s\<lparr>srs_stats := (srs_stats s)
                                   \<lparr>stat_retransmits := stat_retransmits (srs_stats s) + ucast count\<rparr>\<rparr>;
                                 (now, s) = read_clock sys s
                             in for_while start_chunk (min (start_chunk + count) (srs_total_chunks s))
                                  (\<lambda>_. True) (set_last_tx now) s)))"

text \<open>
  \<open>start_send\<close>.  A successful post with \<open>auto_send_data\<close> off has sent nothing yet; the first window of
  chunks is sent here.  The fields of the result: the return code, the sender, the process, the
  control bytes sent and the events left.
\<close>

record SRStart =
  sst_rc :: int
  sst_sender :: SRSender
  sst_host :: Host
  sst_out :: "u8 list"
  sst_rest :: "NetEvent list"

definition set_auto_send_data :: "bool \<Rightarrow> SDRConnection \<Rightarrow> SDRConnection" where
  "set_auto_send_data enable conn =
     conn\<lparr>sc_connection_ctx := (sc_connection_ctx conn)\<lparr>cc_auto_send_data := enable\<rparr>\<rparr>"

definition init_tracking :: "SRSys \<Rightarrow> ConnectionParams \<Rightarrow> u64 \<Rightarrow> SRSender \<Rightarrow> SRSender" where
  "init_tracking sys params len s =
     (let s = s\<lparr>srs_mtu_bytes := (if cp_mtu_bytes params = 0 then ucast MAX_PAYLOAD_SIZE else cp_mtu_bytes params),
                srs_packets_per_chunk := (if cp_packets_per_chunk params = 0 then 1
                                          else cp_packets_per_chunk params)\<rparr>;
          chunk_bytes = ucast (srs_mtu_bytes s) * ucast (srs_packets_per_chunk s) :: u64;
          total = (ucast ((len + chunk_bytes - 1) div chunk_bytes) :: u32);
          s = s\<lparr>srs_total_chunks := total, srs_chunk_acked := replicate (unat total) False\<rparr>;
          (now, s) = read_clock sys s;
          s = s\<lparr>srs_last_tx := replicate (unat total) now\<rparr>;
          (now, s) = read_clock sys s;
          max_inflight = (if cfg_max_inflight_chunks (srs_cfg s) \<noteq> 0
                          then cfg_max_inflight_chunks (srs_cfg s) else ucast total)
      in s\<lparr>srs_last_control_tx := now, srs_ack_base := 0, srs_next_chunk_to_send := 0,
           srs_max_inflight := (if max_inflight = 0 then ucast total else max_inflight)\<rparr>)"

text \<open>A turn of the initial loop and of the window loops: chunk \<open>c\<close> is sent unless it is acknowledged.\<close>

definition send_first :: "SRSys \<Rightarrow> u32 \<Rightarrow> SRSender \<Rightarrow> SRSender option" where
  "send_first sys c s =
     map_option (\<lambda>s. s\<lparr>srs_next_chunk_to_send := c + 1\<rparr>) (retransmit_range sys c 1 s)"

definition sr_start_send ::
    "SRSys \<Rightarrow> SRSender \<Rightarrow> Host \<Rightarrow> SDRConnection \<Rightarrow> u8 list option \<Rightarrow> u64 \<Rightarrow> NetEvent list \<Rightarrow> SendPostSys
      \<Rightarrow> SRStart run" where
  "sr_start_send sys s host conn buffer len evs psys =
     run_bind (sdr_send_post host (set_auto_send_data False conn) True buffer len True evs psys)
       (\<lambda>SP.
          let conn = set_auto_send_data True (sp_conn SP);
              s = s\<lparr>srs_conn := Some conn\<rparr>;
              result = \<lparr> sst_rc = sp_rc SP, sst_sender = s, sst_host = sp_host SP, sst_out = sp_out SP,
                         sst_rest = sp_rest SP \<rparr>
          in if sp_rc SP \<noteq> 0 then Ret result
             else
               let s = init_tracking sys (cc_params (sc_connection_ctx conn)) len
                         (s\<lparr>srs_send_handle := sp_handle SP\<rparr>);
                   initial_limit = min (srs_total_chunks s) (ucast (srs_max_inflight s))
               in case for_while 0 initial_limit (\<lambda>_. True) (send_first sys) s of
                    None \<Rightarrow> Crash
                  | Some s \<Rightarrow> Ret (result\<lparr>sst_sender := s\<rparr>))"

section \<open>Feedback\<close>

text \<open>The two nested loops of \<open>apply_bitmap\<close>; the inner one ends at the last chunk.\<close>

definition apply_bit :: "u64 \<Rightarrow> u32 \<Rightarrow> u32 \<Rightarrow> SRSender \<Rightarrow> SRSender option + SRSender" where
  "apply_bit word w b s =
     (let chunk_id = w * 64 + b in
      if chunk_id \<ge> srs_total_chunks s then Inl (Some s)
      else if word AND push_bit (unat b) 1 \<noteq> 0
      then (case arr_set (srs_chunk_acked s) (unat chunk_id) True of
              None \<Rightarrow> Inl None
            | Some l \<Rightarrow> Inr (s\<lparr>srs_chunk_acked := l\<rparr>))
      else Inr s)"

definition apply_bitmap :: "ControlMessage \<Rightarrow> SRSender \<Rightarrow> SRSender option" where
  "apply_bitmap msg s =
     for_while 0 (min (ucast (cm_chunk_bitmap_words msg)) 8 :: u32) (\<lambda>_. True)
       (\<lambda>w s. case arr_get (cm_chunk_bitmap msg) (unat w) of
          None \<Rightarrow> None
        | Some word \<Rightarrow> loop_result (for_exit 0 64 (apply_bit word w) s)) s"

definition ack_chunk :: "u32 \<Rightarrow> SRSender \<Rightarrow> SRSender option" where
  "ack_chunk c s =
     map_option (\<lambda>l. s\<lparr>srs_chunk_acked := l\<rparr>) (arr_set (srs_chunk_acked s) (unat c) True)"

text \<open>
  What SR_ACK and SR_NACK share: the bitmap, then the cumulative chunk, carried in \<open>max_inflight\<close>;
  \<open>UINT32_MAX\<close> there means none.
\<close>

definition apply_feedback :: "ControlMessage \<Rightarrow> SRSender \<Rightarrow> SRSender option" where
  "apply_feedback msg s =
     (case apply_bitmap msg s of
        None \<Rightarrow> None
      | Some s \<Rightarrow>
          (let cum_chunk = cp_max_inflight (cm_params msg);
               s = (if cum_chunk \<noteq> - 1 \<and> cum_chunk + 1 > srs_ack_base s
                    then s\<lparr>srs_ack_base := cum_chunk + 1\<rparr> else s)
           in if cum_chunk \<noteq> - 1
              then for_while 0 (min (cum_chunk + 1) (srs_total_chunks s)) (\<lambda>_. True) ack_chunk s
              else Some s))"

definition guard_ms :: int where
  "guard_ms = 50"

text \<open>
  A chunk is sent again unless it is acknowledged or was sent less than \<open>guard_ms\<close> before \<open>now\<close>;
  \<open>sent\<close> counts.
\<close>

definition retransmit_unacked ::
    "SRSys \<Rightarrow> int \<Rightarrow> u32 \<Rightarrow> u32 \<times> SRSender \<Rightarrow> (u32 \<times> SRSender) option" where
  "retransmit_unacked sys now c st =
     (let (sent, s) = st in
      case (arr_get (srs_chunk_acked s) (unat c), arr_get (srs_last_tx s) (unat c)) of
        (Some acked, Some last_sent) \<Rightarrow>
          (if acked then Some st
           else if elapsed_ms now last_sent < guard_ms then Some st
           else map_option (\<lambda>s. (sent + 1, s)) (retransmit_range sys c 1 s))
      | _ \<Rightarrow> None)"

definition retransmit_missing_from_bitmap :: "SRSys \<Rightarrow> u32 \<Rightarrow> SRSender \<Rightarrow> SRSender option" where
  "retransmit_missing_from_bitmap sys limit s =
     (let (now, s) = read_clock sys s
      in map_option snd
           (for_while 0 (srs_total_chunks s) (\<lambda>(sent, s). sent < limit) (retransmit_unacked sys now) (0, s)))"

text \<open>The loop that moves the window on; its bound does not change while it runs.\<close>

definition advance_window_chunk :: "SRSys \<Rightarrow> u32 \<Rightarrow> SRSender \<Rightarrow> SRSender option" where
  "advance_window_chunk sys c s =
     (case arr_get (srs_chunk_acked s) (unat c) of
        None \<Rightarrow> None
      | Some acked \<Rightarrow>
          map_option (\<lambda>s. s\<lparr>srs_next_chunk_to_send := srs_next_chunk_to_send s + 1\<rparr>)
            (if acked then Some s else retransmit_range sys c 1 s))"

definition advance_window :: "SRSys \<Rightarrow> SRSender \<Rightarrow> SRSender option" where
  "advance_window sys s =
     for_while (srs_next_chunk_to_send s)
       (min (srs_total_chunks s) (srs_ack_base s + ucast (srs_max_inflight s))) (\<lambda>_. True)
       (advance_window_chunk sys) s"

text \<open>SR_ACK; the first component says whether \<open>poll\<close> returns 0.\<close>

definition on_sr_ack :: "SRSys \<Rightarrow> ControlMessage \<Rightarrow> SRSender \<Rightarrow> (bool \<times> SRSender) option" where
  "on_sr_ack sys msg s =
     (case apply_feedback msg s of
        None \<Rightarrow> None
      | Some s \<Rightarrow>
          (let s = s\<lparr>srs_stats := (srs_stats s)\<lparr>stat_acks_sent := stat_acks_sent (srs_stats s) + 1\<rparr>\<rparr> in
           case retransmit_missing_from_bitmap sys 4 s of
             None \<Rightarrow> None
           | Some s \<Rightarrow>
               map_option (Pair (cp_max_inflight (cm_params msg) + 1 \<ge> ucast (cp_total_chunks (cm_params msg))))
                 (advance_window sys s)))"

text \<open>One reported gap, and the walk over the reported gaps.\<close>

definition retransmit_gap_chunk :: "SRSys \<Rightarrow> u32 \<Rightarrow> u32 \<times> SRSender \<Rightarrow> (u32 \<times> SRSender) option" where
  "retransmit_gap_chunk sys c st =
     (let (sent, s) = st in
      case arr_get (srs_chunk_acked s) (unat c) of
        None \<Rightarrow> None
      | Some True \<Rightarrow> Some st
      | Some False \<Rightarrow> (let (now, s) = read_clock sys s in retransmit_unacked sys now c (sent, s)))"

definition gap_limit :: u32 where
  "gap_limit = 8"

definition retransmit_gap ::
    "SRSys \<Rightarrow> ControlMessage \<Rightarrow> u16 \<Rightarrow> u32 \<times> SRSender \<Rightarrow> (u32 \<times> SRSender) option" where
  "retransmit_gap sys msg i st =
     (case (arr_get (cm_gap_start msg) (unat i), arr_get (cm_gap_len msg) (unat i)) of
        (Some g_start, Some g_len) \<Rightarrow>
          (let gs = (ucast g_start :: u32); gl = ucast g_len;
               endc = min (gs + gl) (srs_total_chunks (snd st))
           in for_while gs endc (\<lambda>(sent, s). sent < gap_limit) (retransmit_gap_chunk sys) st)
      | _ \<Rightarrow> None)"

definition on_sr_nack :: "SRSys \<Rightarrow> ControlMessage \<Rightarrow> SRSender \<Rightarrow> SRSender option" where
  "on_sr_nack sys msg s =
     (let s = s\<lparr>srs_stats := (srs_stats s)\<lparr>stat_nacks_sent := stat_nacks_sent (srs_stats s) + 1\<rparr>\<rparr> in
      case apply_feedback msg s of
        None \<Rightarrow> None
      | Some s \<Rightarrow>
          (case for_while 0 (cm_num_gaps msg) (\<lambda>(sent, s). sent < gap_limit) (retransmit_gap sys msg) (0, s) of
             None \<Rightarrow> None
           | Some (_, s) \<Rightarrow>
               (case retransmit_missing_from_bitmap sys 4 s of
                  None \<Rightarrow> None
                | Some s \<Rightarrow> advance_window sys s)))"

section \<open>The control loop\<close>

definition rto_chunk :: "SRSys \<Rightarrow> int \<Rightarrow> u32 \<Rightarrow> u32 \<Rightarrow> SRSender \<Rightarrow> SRSender option" where
  "rto_chunk sys now rto c s =
     (case (arr_get (srs_chunk_acked s) (unat c), arr_get (srs_last_tx s) (unat c)) of
        (Some acked, Some last_sent) \<Rightarrow>
          (if acked then Some s
           else if elapsed_ms now last_sent > int (unat rto)
           then Option.bind (retransmit_range sys c 1 s) (set_last_tx now c)
           else Some s)
      | _ \<Rightarrow> None)"

definition effective_rto_ms :: "SRConfig \<Rightarrow> u32" where
  "effective_rto_ms cfg = (if cfg_rto_ms cfg \<noteq> 0 then cfg_rto_ms cfg else cfg_base_rtt_ms cfg + cfg_alpha_ms cfg)"

definition set_client :: "TCPControlClient option \<Rightarrow> SDRConnection \<Rightarrow> SRSender \<Rightarrow> SRSender" where
  "set_client cl conn s = s\<lparr>srs_conn := Some (conn\<lparr>sc_tcp_client := cl\<rparr>)\<rparr>"

text \<open>\<open>receive_message\<close> answered false.\<close>

definition on_no_message ::
    "SRSys \<Rightarrow> SDRConnection \<Rightarrow> TCPControlClient \<Rightarrow> SRSender \<Rightarrow> NetEvent list
      \<Rightarrow> (int option \<times> SRSender \<times> NetEvent list) run" where
  "on_no_message sys conn cl s evs =
     run_bind (sdr_send_poll True (Some cl) evs)
       (\<lambda>(rc, cl, evs).
          let s = set_client cl conn s in
          if rc = 0 then Ret (Some 0, s, evs)
          else
            let (now, s) = read_clock sys s
            in case for_while 0 (srs_total_chunks s) (\<lambda>_. True)
                      (rto_chunk sys now (effective_rto_ms (srs_cfg s))) s of
                 None \<Rightarrow> Crash
               | Some s \<Rightarrow> Ret (None, s, evs))"

definition on_message ::
    "SRSys \<Rightarrow> SDRConnection \<Rightarrow> TCPControlClient \<Rightarrow> ControlMessage \<Rightarrow> SRSender \<Rightarrow> NetEvent list
      \<Rightarrow> (int option \<times> SRSender \<times> NetEvent list) run" where
  "on_message sys conn cl msg s evs =
     (if wanted SR_ACK msg
      then (case on_sr_ack sys msg s of
              None \<Rightarrow> Crash
            | Some (complete, s) \<Rightarrow> Ret (if complete then Some 0 else None, s, evs))
      else if wanted SR_NACK msg
      then (case on_sr_nack sys msg s of None \<Rightarrow> Crash | Some s \<Rightarrow> Ret (None, s, evs))
      else if wanted COMPLETE_ACK msg
      then Ret (Some 0, s\<lparr>srs_stats := (srs_stats s)\<lparr>stat_acks_sent := stat_acks_sent (srs_stats s) + 1\<rparr>\<rparr>, evs)
      else if wanted INCOMPLETE_NACK msg then Ret (Some (- 1), s, evs)
      else run_bind (sdr_send_poll True (Some cl) evs)
             (\<lambda>(rc, cl, evs). Ret (if rc = 0 then Some 0 else None, set_client cl conn s, evs)))"

text \<open>
  One iteration of the loop of \<open>poll\<close>; \<open>Some rc\<close> returns, \<open>None\<close> goes on.  The first guard is the one in
  front of the loop, whose conditions no iteration changes.
\<close>

definition sr_poll_step ::
    "SRSys \<Rightarrow> SRSender \<Rightarrow> NetEvent list \<Rightarrow> (int option \<times> SRSender \<times> NetEvent list) run" where
  "sr_poll_step sys s evs =
     (case (srs_send_handle s, srs_conn s) of
        (Some handle, Some conn) \<Rightarrow>
          (case sc_tcp_client conn of
             None \<Rightarrow> Ret (Some (- 1), s, evs)
           | Some cl \<Rightarrow>
               (case client_receive cl zero_message evs of
                  None \<Rightarrow> Blocked
                | Some (ok, msg, cl, evs) \<Rightarrow>
                    (if \<not> ok then on_no_message sys conn cl s evs
                     else on_message sys conn cl msg (set_client (Some cl) conn s) evs)))
      | _ \<Rightarrow> Ret (Some (- 1), s, evs))"

text \<open>Every iteration that goes on has used up some of what the control connection presents.\<close>

definition net_size :: "NetEvent list \<Rightarrow> nat" where
  "net_size evs = sum_list (map (\<lambda>ev. case ev of EvData bs \<Rightarrow> Suc (length bs) | _ \<Rightarrow> 1) evs)"

lemma net_size_simps [simp]:
  "net_size [] = 0" "net_size (EvData bs # evs) = Suc (length bs) + net_size evs"
  "net_size (EvTimeout # evs) = Suc (net_size evs)" "net_size (EvClosed # evs) = Suc (net_size evs)"
  "net_size (EvError # evs) = Suc (net_size evs)"
  by (simp_all add: net_size_def)

lemma recv_loop_uses:
  "recv_loop k acc evs = Some (r, evs') \<Longrightarrow> length acc < k \<Longrightarrow> net_size evs' < net_size evs"
proof (induction k acc evs rule: recv_loop.induct)
  case (2 k acc bs evs)
  show ?case
  proof (cases "length acc + length bs < k")
    case True
    with 2 have "net_size evs' < net_size evs" by simp
    then show ?thesis by simp
  next
    case False
    with 2 show ?thesis by (auto simp: Let_def split: if_splits)
  qed
qed auto

lemma client_receive_uses:
  assumes "client_receive cl m evs = Some (ok, m', cl', evs')"
  shows "if is_connected cl then net_size evs' < net_size evs else \<not> ok \<and> cl' = cl \<and> evs' = evs"
    and "is_connected cl' \<Longrightarrow> is_connected cl"
proof -
  have "0 < message_size" by (simp add: message_size_def)
  then show "if is_connected cl then net_size evs' < net_size evs else \<not> ok \<and> cl' = cl \<and> evs' = evs"
    "is_connected cl' \<Longrightarrow> is_connected cl"
    using assms recv_loop_uses [of message_size "[]" evs]
    by (auto simp: client_receive_def split: if_splits option.splits RecvResult.splits prod.splits)
qed

text \<open>A stream that comes to an end.\<close>

definition stream_ends :: "NetEvent list \<Rightarrow> bool" where
  "stream_ends evs \<longleftrightarrow> EvClosed \<in> set evs \<or> EvError \<in> set evs"

lemma recv_loop_ends:
  "stream_ends evs \<Longrightarrow> \<exists>r evs'. recv_loop k acc evs = Some (r, evs') \<and> (r = RecvLost \<or> stream_ends evs')"
  by (induction k acc evs rule: recv_loop.induct) (auto simp: stream_ends_def Let_def)

lemma client_receive_ends:
  assumes "\<not> is_connected cl \<or> stream_ends evs"
  shows "\<exists>ok m' cl' evs'. client_receive cl m evs = Some (ok, m', cl', evs')
    \<and> (\<not> is_connected cl' \<or> stream_ends evs')"
proof (cases "is_connected cl")
  case True
  then obtain r evs' where "recv_loop message_size [] evs = Some (r, evs')" "r = RecvLost \<or> stream_ends evs'"
    using assms recv_loop_ends by blast
  with True show ?thesis
    by (cases r) (auto simp: client_receive_def split: prod.splits)
qed (auto simp: client_receive_def)

text \<open>What the waiting loop of \<open>sdr_send_poll\<close> does with the events.\<close>

lemma await_client_uses:
  assumes "await_msg client_receive is_connected want cl m evs = Some (r, cl', evs')"
  shows "net_size evs' \<le> net_size evs"
  using assms
proof (induction "net_size evs" arbitrary: cl m evs rule: less_induct)
  case less
  obtain ok m1 cl1 evs1 where c: "client_receive cl m evs = Some (ok, m1, cl1, evs1)"
    using less.prems by (auto simp: await_msg.simps split: option.splits prod.splits)
  note u = client_receive_uses [OF c]
  have step: "await_msg client_receive is_connected want cl m evs
      = (if \<not> ok then (if \<not> is_connected cl1 then Some (None, cl1, evs1)
           else await_msg client_receive is_connected want cl1 m1 evs1)
         else if want m1 then Some (Some m1, cl1, evs1)
         else await_msg client_receive is_connected want cl1 m1 evs1)"
    by (subst await_msg.simps) (simp add: c)
  show ?case
  proof (cases "is_connected cl")
    case True
    then have lt: "net_size evs1 < net_size evs" using u(1) by simp
    show ?thesis using less.prems less.hyps [OF lt] lt unfolding step by (fastforce split: if_splits)
  next
    case False
    then show ?thesis using less.prems u(1) unfolding step by simp
  qed
qed

lemma await_client_ends:
  assumes "\<not> is_connected cl \<or> stream_ends evs"
  shows "\<exists>r cl' evs'. await_msg client_receive is_connected want cl m evs = Some (r, cl', evs')
    \<and> (\<not> is_connected cl' \<or> stream_ends evs')"
  using assms
proof (induction "net_size evs" arbitrary: cl m evs rule: less_induct)
  case less
  obtain ok m1 cl1 evs1 where c: "client_receive cl m evs = Some (ok, m1, cl1, evs1)"
    and e: "\<not> is_connected cl1 \<or> stream_ends evs1" using client_receive_ends [OF less.prems] by blast
  note u = client_receive_uses [OF c]
  have step: "await_msg client_receive is_connected want cl m evs
      = (if \<not> ok then (if \<not> is_connected cl1 then Some (None, cl1, evs1)
           else await_msg client_receive is_connected want cl1 m1 evs1)
         else if want m1 then Some (Some m1, cl1, evs1)
         else await_msg client_receive is_connected want cl1 m1 evs1)"
    by (subst await_msg.simps) (simp add: c)
  show ?case
  proof (cases "is_connected cl")
    case True
    then have "net_size evs1 < net_size evs" using u(1) by simp
    from less.hyps [OF this e] show ?thesis unfolding step using e by auto
  next
    case False
    then show ?thesis using u(1) unfolding step by simp
  qed
qed

lemma send_poll_uses:
  assumes "sdr_send_poll True (Some cl) evs = Ret (rc, cl', evs')"
  shows "net_size evs' \<le> net_size evs" and "\<not> is_connected cl \<Longrightarrow> rc = 0"
  using assms await_client_uses [of is_completion cl zero_message evs]
  by (auto simp: sdr_send_poll_def split: if_splits option.splits prod.splits)

lemma send_poll_ends:
  assumes "\<not> is_connected cl \<or> stream_ends evs"
  shows "\<exists>rc cl' evs'. sdr_send_poll True (Some cl) evs = Ret (rc, Some cl', evs')
    \<and> (\<not> is_connected cl' \<or> stream_ends evs')"
  using assms await_client_ends [OF assms, of is_completion zero_message]
  by (auto simp: sdr_send_poll_def split: option.splits prod.splits)

lemma sr_poll_step_uses:
  assumes "sr_poll_step sys s evs = Ret (None, s', evs')"
  shows "net_size evs' < net_size evs"
proof -
  obtain conn cl ok msg cl1 evs1 where c: "srs_conn s = Some conn" "sc_tcp_client conn = Some cl"
    "client_receive cl zero_message evs = Some (ok, msg, cl1, evs1)"
    and r: "(if \<not> ok then on_no_message sys conn cl1 s evs1
       else on_message sys conn cl1 msg (set_client (Some cl1) conn s) evs1) = Ret (None, s', evs')"
    using assms by (auto simp: sr_poll_step_def split: option.splits prod.splits)
  note u = client_receive_uses [OF c(3)]
  have le: "net_size evs' \<le> net_size evs1"
    using r send_poll_uses(1) [of cl1 evs1]
    by (cases "sdr_send_poll True (Some cl1) evs1")
      (auto simp: on_no_message_def on_message_def read_clock_def Let_def split: if_splits option.splits prod.splits)
  have "is_connected cl"
  proof (rule ccontr)
    assume "\<not> is_connected cl"
    then have "\<not> ok" "\<not> is_connected cl1" using u(1) by simp_all
    then show False using r by (simp add: on_no_message_def sdr_send_poll_def)
  qed
  then show ?thesis using u(1) le by simp
qed

text \<open>\<open>SRSender::poll\<close>.\<close>

function sr_poll :: "SRSys \<Rightarrow> SRSender \<Rightarrow> NetEvent list \<Rightarrow> (int \<times> SRSender \<times> NetEvent list) run" where
  "sr_poll sys s evs =
     (case sr_poll_step sys s evs of
        Crash \<Rightarrow> Crash
      | Blocked \<Rightarrow> Blocked
      | Ret (Some rc, s', evs') \<Rightarrow> Ret (rc, s', evs')
      | Ret (None, s', evs') \<Rightarrow> sr_poll sys s' evs')"
  by pat_completeness auto
termination
  by (relation "measure (\<lambda>(sys, s, evs). net_size evs)") (auto dest: sr_poll_step_uses)

declare sr_poll.simps [simp del]

section \<open>Retransmission\<close>

text \<open>The state of a sender after a successful start: a handle, a connection, arrays of one entry per chunk.\<close>

definition sr_inv :: "SRSender \<Rightarrow> bool" where
  "sr_inv s \<longleftrightarrow> (\<exists>h conn. srs_send_handle s = Some h \<and> srs_conn s = Some conn
       \<and> unat (sh_buffer_size h) = length (sh_user_buffer h))
     \<and> srs_mtu_bytes s \<noteq> 0 \<and> length (srs_chunk_acked s) = unat (srs_total_chunks s)
     \<and> length (srs_last_tx s) = unat (srs_total_chunks s)"

text \<open>\<open>s'\<close> differs from \<open>s\<close> by sending: statistics, send times and the traces.\<close>

definition sr_frame :: "SRSender \<Rightarrow> SRSender" where
  "sr_frame s = s\<lparr>srs_stats := SRStats_new, srs_last_tx := [], srs_readings := 0, srs_sockets := 0, srs_wire := []\<rparr>"

definition sr_sent :: "SRSender \<Rightarrow> SRSender \<Rightarrow> bool" where
  "sr_sent s s' \<longleftrightarrow> sr_frame s' = sr_frame s \<and> length (srs_last_tx s') = length (srs_last_tx s)
     \<and> (\<exists>w. srs_wire s' = srs_wire s @ w)"

lemma sr_sent_refl [simp]: "sr_sent s s"
  by (simp add: sr_sent_def)

lemma sr_sent_trans: "sr_sent s s' \<Longrightarrow> sr_sent s' s'' \<Longrightarrow> sr_sent s s''"
  by (auto simp: sr_sent_def)

lemma sr_sent_fields:
  assumes "sr_sent s s'"
  shows "srs_cfg s' = srs_cfg s" "srs_total_chunks s' = srs_total_chunks s" "srs_mtu_bytes s' = srs_mtu_bytes s"
    "srs_packets_per_chunk s' = srs_packets_per_chunk s" "srs_ack_base s' = srs_ack_base s"
    "srs_next_chunk_to_send s' = srs_next_chunk_to_send s" "srs_max_inflight s' = srs_max_inflight s"
    "srs_chunk_acked s' = srs_chunk_acked s" "srs_send_handle s' = srs_send_handle s" "srs_conn s' = srs_conn s"
    "length (srs_last_tx s') = length (srs_last_tx s)"
  using assms by (cases s; cases s'; simp add: sr_sent_def sr_frame_def)+

lemma sr_sent_inv: "sr_sent s s' \<Longrightarrow> sr_inv s \<Longrightarrow> sr_inv s'"
  by (simp add: sr_inv_def sr_sent_fields)

lemma sr_sent_steps [simp]:
  "sr_sent s (s\<lparr>srs_sockets := n\<rparr>)" "sr_sent s (s\<lparr>srs_readings := n\<rparr>)" "sr_sent s (s\<lparr>srs_stats := st\<rparr>)"
  "sr_sent s (s\<lparr>srs_wire := srs_wire s @ w\<rparr>)"
  "length lt = length (srs_last_tx s) \<Longrightarrow> sr_sent s (s\<lparr>srs_last_tx := lt\<rparr>)"
  by (simp_all add: sr_sent_def sr_frame_def)

lemma clip_le: "(if (m :: 'a::linorder) > b then b else m) \<le> b"
  by (simp add: not_less)

text \<open>No packet of the loop reads outside the buffer.\<close>

lemma range_packet_safe:
  assumes "unat (sh_buffer_size h) = length (sh_user_buffer h)"
  shows "\<exists>s'. sr_sent s s' \<and> (range_packet params h start i s = Inr s' \<or> range_packet params h start i s = Inl (Some s'))"
proof -
  let ?off = "ucast (start + i) * ucast (srs_mtu_bytes s) :: u64"
  let ?m = "min (ucast (srs_mtu_bytes s)) (sh_buffer_size h - ?off)"
  let ?len = "if ?m > MAX_PAYLOAD_SIZE then MAX_PAYLOAD_SIZE else ?m"
  show ?thesis
  proof (cases "?off \<ge> sh_buffer_size h")
    case True
    then have "range_packet params h start i s = Inl (Some s)" by (simp add: range_packet_def Let_def)
    then show ?thesis by (intro exI [of _ s]) simp
  next
    case False
    have "unat ?len \<le> unat ?m" by (simp add: word_less_nat_alt)
    also have "\<dots> \<le> unat (sh_buffer_size h - ?off)" by (simp add: min_def word_le_nat_alt)
    also have "\<dots> = length (drop (unat ?off) (sh_user_buffer h))"
      using False assms by (subst unat_sub) (simp_all add: not_le order_less_imp_le)
    finally have "unat ?len \<le> length (drop (unat ?off) (sh_user_buffer h))" .
    moreover have "?len \<le> MAX_PAYLOAD_SIZE" by (rule clip_le)
    ultimately obtain bytes where d: "make_datagram (cp_transfer_id params) (sh_msg_id h) (start + i)
        (srs_packets_per_chunk s) (drop (unat ?off) (sh_user_buffer h)) ?len = Some (Some bytes)"
      unfolding make_datagram_def by (simp only: create_data_packet_ok option.map)
    have "range_packet params h start i s = Inr (s\<lparr>srs_wire := srs_wire s @ [(cp_udp_server_port params, bytes)]\<rparr>)"
      unfolding range_packet_def Let_def d using False by simp
    then show ?thesis
      by (intro exI [of _ "s\<lparr>srs_wire := srs_wire s @ [(cp_udp_server_port params, bytes)]\<rparr>"]) simp
  qed
qed

lemma range_loop_safe:
  assumes "unat (sh_buffer_size h) = length (sh_user_buffer h)"
  shows "\<exists>s'. loop_result (for_exit i n (range_packet params h start) s) = Some s' \<and> sr_sent s s'"
proof (induction i n "range_packet params h start" s rule: for_exit.induct)
  case (1 i n s)
  show ?case
  proof (cases "i < n")
    case True
    obtain s1 where s1: "sr_sent s s1"
      "range_packet params h start i s = Inr s1 \<or> range_packet params h start i s = Inl (Some s1)"
      using range_packet_safe [OF assms] by blast
    then show ?thesis
      using 1 [OF True, of s1] True sr_sent_trans [OF s1(1)] by (auto simp: for_exit_step)
  qed simp
qed

lemma send_packets_range_safe:
  assumes "sr_inv s"
  shows "\<exists>s'. send_packets_range sys start n s = Some s' \<and> sr_sent s s'"
proof -
  obtain h conn where h: "srs_send_handle s = Some h" "srs_conn s = Some conn"
    "unat (sh_buffer_size h) = length (sh_user_buffer h)" using assms by (auto simp: sr_inv_def)
  obtain s' where s': "loop_result (for_exit 0 n (range_packet (cc_params (sc_connection_ctx conn)) h start)
      (s\<lparr>srs_sockets := srs_sockets s + 1\<rparr>)) = Some s'" "sr_sent (s\<lparr>srs_sockets := srs_sockets s + 1\<rparr>) s'"
    using range_loop_safe [OF h(3)] by blast
  show ?thesis
    using s' sr_sent_trans [OF sr_sent_steps(1) s'(2)]
    by (auto simp: send_packets_range_def h Let_def)
qed

lemma set_last_tx_loop:
  assumes "length (srs_last_tx s) = unat (srs_total_chunks s)"
  shows "\<exists>s'. for_while a (min n (srs_total_chunks s)) (\<lambda>_. True) (set_last_tx now) s = Some s' \<and> sr_sent s s'"
proof (cases "a \<le> min n (srs_total_chunks s)")
  case True
  let ?P = "\<lambda>k s'. sr_sent s s'"
  obtain s' j where "for_while a (min n (srs_total_chunks s)) (\<lambda>_. True) (set_last_tx now) s = Some s'" "?P j s'"
  proof (rule exE [OF for_while_total [of ?P a s, OF _ True, of "\<lambda>_. True" "set_last_tx now"]])
    fix k t assume k: "k < unat (min n (srs_total_chunks s))" and t: "sr_sent s t"
    have "unat (of_nat k :: u32) = k" using k by (rule unat_of_nat_below)
    moreover have "k < unat (srs_total_chunks s)" using k by (simp add: min_def word_le_nat_alt split: if_splits)
    ultimately show "\<exists>s'. set_last_tx now (of_nat k) t = Some s' \<and> sr_sent s s'"
      using assms sr_sent_trans [OF t sr_sent_steps(5)] sr_sent_fields(11) [OF t] by (simp add: set_last_tx_def)
  qed auto
  then show ?thesis by blast
next
  case False
  then have "\<not> a < min n (srs_total_chunks s)" by (metis order_less_imp_le)
  then show ?thesis by (intro exI [of _ s]) (simp only: for_while_done sr_sent_refl simp_thms)
qed

lemma retransmit_range_safe:
  assumes "sr_inv s"
  shows "\<exists>s'. retransmit_range sys c n s = Some s' \<and> sr_sent s s'"
proof -
  obtain h where h: "srs_send_handle s = Some h" and mtu: "srs_mtu_bytes s \<noteq> 0" using assms by (auto simp: sr_inv_def)
  show ?thesis
  proof (cases "ucast c * (ucast (srs_packets_per_chunk s) * ucast (srs_mtu_bytes s)) \<ge> sh_buffer_size h")
    case True
    then show ?thesis by (intro exI [of _ s]) (simp add: retransmit_range_def h Let_def)
  next
    case False
    let ?w = "ucast (srs_mtu_bytes s) :: u64" and ?cb = "ucast (srs_packets_per_chunk s) * ucast (srs_mtu_bytes s) :: u64"
    let ?len = "if ucast c * ?cb + ucast n * ?cb > sh_buffer_size h then sh_buffer_size h - ucast c * ?cb else ucast n * ?cb"
    obtain s1 where s1: "send_packets_range sys (ucast (ucast c * ?cb div ?w)) (ucast ((?len + ?w - 1) div ?w)) s = Some s1"
      "sr_sent s s1" using send_packets_range_safe [OF assms] by blast
    let ?s2 = "s1\<lparr>srs_stats := (srs_stats s1)\<lparr>stat_retransmits := stat_retransmits (srs_stats s1) + ucast n\<rparr>,
      srs_readings := srs_readings s1 + 1\<rparr>"
    have s2: "sr_sent s ?s2" using s1(2) by (simp add: sr_sent_def sr_frame_def)
    then have "length (srs_last_tx ?s2) = unat (srs_total_chunks ?s2)"
      using sr_sent_inv [OF s2 assms] by (simp add: sr_inv_def)
    from set_last_tx_loop [OF this, of c "c + n" "sy_now sys (srs_readings s1)"]
    obtain s3 where "for_while c (min (c + n) (srs_total_chunks ?s2)) (\<lambda>_. True)
        (set_last_tx (sy_now sys (srs_readings s1))) ?s2 = Some s3" "sr_sent ?s2 s3" by blast
    with s1(1) False mtu sr_sent_trans [OF s2] show ?thesis
      by (simp add: retransmit_range_def h Let_def read_clock_def)
  qed
qed
section \<open>Acknowledged chunks\<close>

definition acked :: "SRSender \<Rightarrow> nat set" where
  "acked s = {c. c < length (srs_chunk_acked s) \<and> srs_chunk_acked s ! c}"

text \<open>The chunks that a message acknowledges to a sender of \<open>n\<close> chunks.\<close>

definition acks_of :: "ControlMessage \<Rightarrow> nat \<Rightarrow> nat set" where
  "acks_of msg n =
     (bits_of (take (min (unat (cm_chunk_bitmap_words msg)) 8) (cm_chunk_bitmap msg))
        \<union> (if cp_max_inflight (cm_params msg) = - 1 then {} else {..unat (cp_max_inflight (cm_params msg))}))
     \<inter> {..<n}"

lemma acked_eq: "acked s = acked_list (srs_chunk_acked s)"
  by (simp add: acked_def acked_list_def)

lemma apply_bitmap_part:
  "apply_bitmap msg (s\<lparr>srs_chunk_acked := l\<rparr>)
     = map_option (\<lambda>l. s\<lparr>srs_chunk_acked := l\<rparr>) (mark_bitmap 8 (srs_total_chunks s) msg l)"
  unfolding apply_bitmap_def mark_bitmap_def
proof (rule for_while_part)
  fix w l
  have "loop_result (for_exit 0 64 (apply_bit word w) (s\<lparr>srs_chunk_acked := l\<rparr>))
      = map_option (\<lambda>l. s\<lparr>srs_chunk_acked := l\<rparr>) (loop_result (for_exit 0 64 (mark_bit (srs_total_chunks s) word w) l))" for word
    by (rule for_exit_part) (simp add: apply_bit_def mark_bit_def Let_def split: option.split)
  then show "(case arr_get (cm_chunk_bitmap msg) (unat w) of None \<Rightarrow> None
      | Some word \<Rightarrow> loop_result (for_exit 0 64 (apply_bit word w) (s\<lparr>srs_chunk_acked := l\<rparr>)))
      = map_option (\<lambda>l. s\<lparr>srs_chunk_acked := l\<rparr>) (mark_word (srs_total_chunks s) msg w l)"
    by (simp add: mark_word_def split: option.split)
qed

lemma apply_bitmap_eq:
  assumes len: "length (srs_chunk_acked s) = unat (srs_total_chunks s)" and wf: "wf_message msg"
  defines "n \<equiv> min (unat (cm_chunk_bitmap_words msg)) 8"
  shows "\<exists>l. apply_bitmap msg s = Some (s\<lparr>srs_chunk_acked := l\<rparr>) \<and> length l = unat (srs_total_chunks s)
    \<and> acked_list l = acked s \<union> bits_of (take n (cm_chunk_bitmap msg)) \<inter> {..<unat (srs_total_chunks s)}"
  using mark_bitmap_eq [of "srs_total_chunks s" "srs_chunk_acked s" msg 8] apply_bitmap_part [of msg "srs_chunk_acked s" s]
    len wf by (auto simp: n_def acked_eq)

lemma ack_loop_eq:
  assumes len: "length (srs_chunk_acked s) = unat (srs_total_chunks s)" and n: "n \<le> srs_total_chunks s"
  shows "\<exists>l. for_while 0 n (\<lambda>_. True) ack_chunk s = Some (s\<lparr>srs_chunk_acked := l\<rparr>)
    \<and> length l = unat (srs_total_chunks s) \<and> acked_list l = acked s \<union> {..<unat n}"
proof -
  let ?P = "\<lambda>j t. \<exists>l. t = s\<lparr>srs_chunk_acked := l\<rparr> \<and> length l = unat (srs_total_chunks s)
    \<and> acked_list l = acked s \<union> {..<j}"
  have "\<exists>t j. for_while 0 n (\<lambda>_. True) ack_chunk s = Some t \<and> unat (0 :: u32) \<le> j \<and> j \<le> unat n
      \<and> ?P j t \<and> (j = unat n \<or> \<not> True)"
  proof (rule for_while_total)
    show "?P (unat (0 :: u32)) s" using len by (intro exI [of _ "srs_chunk_acked s"]) (simp add: acked_eq)
  next
    fix k t assume k: "k < unat n" and P: "?P k t"
    then obtain l where l: "t = s\<lparr>srs_chunk_acked := l\<rparr>" "length l = unat (srs_total_chunks s)"
      "acked_list l = acked s \<union> {..<k}" by blast
    have "unat (of_nat k :: u32) = k" using k by (rule unat_of_nat_below)
    moreover have "k < length l" using k n by (simp add: l(2) word_le_nat_alt)
    ultimately show "\<exists>t'. ack_chunk (of_nat k) t = Some t' \<and> ?P (Suc k) t'"
      using l by (auto simp: ack_chunk_def acked_list_set lessThan_Suc)
  qed simp
  then show ?thesis by auto
qed

text \<open>The effect of the feedback in a message: acknowledged chunks are added, the window's base may move.\<close>

lemma apply_feedback_eq:
  assumes inv: "sr_inv s" and wf: "wf_message msg"
  shows "\<exists>l b. apply_feedback msg s = Some (s\<lparr>srs_chunk_acked := l, srs_ack_base := b\<rparr>)
    \<and> length l = unat (srs_total_chunks s) \<and> acked_list l = acked s \<union> acks_of msg (unat (srs_total_chunks s))"
proof -
  let ?cum = "cp_max_inflight (cm_params msg)" and ?T = "srs_total_chunks s"
  have len: "length (srs_chunk_acked s) = unat ?T" using inv by (simp add: sr_inv_def)
  obtain l where l: "apply_bitmap msg s = Some (s\<lparr>srs_chunk_acked := l\<rparr>)" "length l = unat ?T"
    "acked_list l = acked s \<union> bits_of (take (min (unat (cm_chunk_bitmap_words msg)) 8) (cm_chunk_bitmap msg)) \<inter> {..<unat ?T}"
    using apply_bitmap_eq [OF len wf] by blast
  show ?thesis
  proof (cases "?cum = - 1")
    case True
    then show ?thesis using l
      by (intro exI [of _ l] exI [of _ "srs_ack_base s"]) (simp add: apply_feedback_def acks_of_def)
  next
    case False
    have uc: "unat (?cum + 1) = Suc (unat ?cum)"
      using False by (metis unat_Suc_less word_order.not_eq_extremum)
    have um: "unat (min (?cum + 1) ?T) = min (Suc (unat ?cum)) (unat ?T)"
      unfolding uc [symmetric] by (simp add: min_def word_le_nat_alt)
    let ?b = "if ?cum + 1 > srs_ack_base s then ?cum + 1 else srs_ack_base s"
    let ?s = "s\<lparr>srs_chunk_acked := l, srs_ack_base := ?b\<rparr>"
    obtain l' where l': "for_while 0 (min (?cum + 1) ?T) (\<lambda>_. True) ack_chunk ?s = Some (?s\<lparr>srs_chunk_acked := l'\<rparr>)"
      "length l' = unat ?T" "acked_list l' = acked_list l \<union> {..<unat (min (?cum + 1) ?T)}"
      using ack_loop_eq [of ?s "min (?cum + 1) ?T"] l(2) by (auto simp: acked_eq)
    have "acked_list l' = acked s \<union> acks_of msg (unat ?T)"
      using False by (auto simp: l'(3) l(3) um acks_of_def)
    then show ?thesis using False l(1) l' 
      by (intro exI [of _ l'] exI [of _ ?b]) (auto simp: apply_feedback_def Let_def)
  qed
qed

section \<open>The handlers stay inside the arrays\<close>

text \<open>Sending and moving the window on.\<close>

definition sr_keeps :: "SRSender \<Rightarrow> SRSender \<Rightarrow> bool" where
  "sr_keeps s s' \<longleftrightarrow> sr_sent (s\<lparr>srs_next_chunk_to_send := 0\<rparr>) (s'\<lparr>srs_next_chunk_to_send := 0\<rparr>)"

lemma sr_keeps_refl [simp]: "sr_keeps s s"
  by (simp add: sr_keeps_def)

lemma sr_keeps_trans: "sr_keeps s s' \<Longrightarrow> sr_keeps s' s'' \<Longrightarrow> sr_keeps s s''"
  unfolding sr_keeps_def by (rule sr_sent_trans)

lemma sr_sent_keeps: "sr_sent s s' \<Longrightarrow> sr_keeps s s'"
  by (cases s; cases s') (simp add: sr_keeps_def sr_sent_def sr_frame_def)

lemma sr_keeps_fields:
  assumes "sr_keeps s s'"
  shows "srs_cfg s' = srs_cfg s" "srs_total_chunks s' = srs_total_chunks s" "srs_mtu_bytes s' = srs_mtu_bytes s"
    "srs_packets_per_chunk s' = srs_packets_per_chunk s" "srs_ack_base s' = srs_ack_base s"
    "srs_max_inflight s' = srs_max_inflight s" "srs_chunk_acked s' = srs_chunk_acked s"
    "srs_send_handle s' = srs_send_handle s" "srs_conn s' = srs_conn s"
    "length (srs_last_tx s') = length (srs_last_tx s)" "\<exists>w. srs_wire s' = srs_wire s @ w"
  using assms sr_sent_fields [of "s\<lparr>srs_next_chunk_to_send := 0\<rparr>" "s'\<lparr>srs_next_chunk_to_send := 0\<rparr>"]
  by (simp_all add: sr_keeps_def) (simp add: sr_sent_def)

lemma sr_keeps_inv: "sr_keeps s s' \<Longrightarrow> sr_inv s \<Longrightarrow> sr_inv s'"
  by (simp add: sr_inv_def sr_keeps_fields)

lemma sr_keeps_next [simp]: "sr_keeps s (s'\<lparr>srs_next_chunk_to_send := n\<rparr>) = sr_keeps s s'"
  by (simp add: sr_keeps_def)

text \<open>Loops over chunks whose turns keep the state; \<open>proj\<close> picks the sender out of the loop's state.\<close>

lemma for_while_keeps:
  assumes "\<And>k t. unat a \<le> k \<Longrightarrow> k < unat n \<Longrightarrow> sr_keeps (proj st) (proj t) \<Longrightarrow>
      \<exists>t'. f (of_nat k) t = Some t' \<and> sr_keeps (proj t) (proj t')"
  shows "\<exists>st'. for_while a n g f st = Some st' \<and> sr_keeps (proj st) (proj st')"
proof (cases "a \<le> n")
  case True
  have "\<exists>st' j. for_while a n g f st = Some st' \<and> unat a \<le> j \<and> j \<le> unat n \<and> sr_keeps (proj st) (proj st')
      \<and> (j = unat n \<or> \<not> g st')"
    by (rule for_while_total [OF _ True]) (use assms in \<open>simp, blast intro: sr_keeps_trans\<close>)
  then show ?thesis by blast
next
  case False
  then have "\<not> a < n" by (metis order_less_imp_le)
  then show ?thesis by (intro exI [of _ st]) (simp only: for_while_done sr_keeps_refl simp_thms)
qed

lemma retransmit_unacked_keeps:
  assumes "sr_inv s" and "c < unat (srs_total_chunks s)"
  shows "\<exists>n s'. retransmit_unacked sys now (of_nat c) (sent, s) = Some (n, s') \<and> sr_keeps s s'"
proof -
  have c: "unat (of_nat c :: u32) = c" using assms(2) by (rule unat_of_nat_below)
  have get: "arr_get (srs_chunk_acked s) c = Some (srs_chunk_acked s ! c)"
    "arr_get (srs_last_tx s) c = Some (srs_last_tx s ! c)" using assms by (simp_all add: sr_inv_def)
  obtain s' where "retransmit_range sys (of_nat c) 1 s = Some s'" "sr_sent s s'"
    using retransmit_range_safe [OF assms(1)] by blast
  then show ?thesis
    by (auto simp: retransmit_unacked_def c get intro: sr_sent_keeps)
qed

lemma read_clock_keeps: "read_clock sys s = (now, s') \<Longrightarrow> sr_keeps s s'"
  by (auto simp: read_clock_def intro: sr_sent_keeps)

lemma retransmit_missing_keeps:
  assumes "sr_inv s"
  shows "\<exists>s'. retransmit_missing_from_bitmap sys limit s = Some s' \<and> sr_keeps s s'"
proof -
  obtain now s1 where r: "read_clock sys s = (now, s1)" by (cases "read_clock sys s")
  then have k1: "sr_keeps s s1" by (rule read_clock_keeps)
  then have i1: "sr_inv s1" using assms by (rule sr_keeps_inv)
  have "\<exists>st'. for_while 0 (srs_total_chunks s1) (\<lambda>(sent, s). sent < limit) (retransmit_unacked sys now) (0, s1)
      = Some st' \<and> sr_keeps s1 (snd st')"
  proof (rule for_while_keeps [where proj = snd and st = "(0, s1)", unfolded snd_conv])
    fix k and st :: "u32 \<times> SRSender"
    assume k: "k < unat (srs_total_chunks s1)" and st: "sr_keeps s1 (snd st)"
    obtain sent t where t: "st = (sent, t)" by (cases st)
    from st have kt: "sr_keeps s1 t" by (simp add: t)
    have "sr_inv t" "k < unat (srs_total_chunks t)"
      using sr_keeps_inv [OF kt i1] k sr_keeps_fields(2) [OF kt] by simp_all
    from retransmit_unacked_keeps [OF this]
    show "\<exists>st'. retransmit_unacked sys now (of_nat k) st = Some st' \<and> sr_keeps (snd st) (snd st')"
      by (fastforce simp: t)
  qed
  with r sr_keeps_trans [OF k1] show ?thesis by (auto simp: retransmit_missing_from_bitmap_def)
qed

lemma retransmit_gap_keeps:
  assumes "sr_inv s" and "wf_message msg" and "i < 16"
  shows "\<exists>st'. retransmit_gap sys msg (of_nat i) (sent, s) = Some st' \<and> sr_keeps s (snd st')"
proof -
  have i: "unat (of_nat i :: u16) = i" using assms(3) by (simp add: unat_of_nat_small)
  have get: "arr_get (cm_gap_start msg) i = Some (cm_gap_start msg ! i)"
    "arr_get (cm_gap_len msg) i = Some (cm_gap_len msg ! i)"
    using assms by (simp_all add: wf_message_def)
  have "\<exists>st'. for_while a (min b (srs_total_chunks s)) g (retransmit_gap_chunk sys) (sent, s) = Some st'
      \<and> sr_keeps s (snd st')" for a b g
  proof (rule for_while_keeps [where proj = snd and st = "(sent, s)", unfolded snd_conv])
    fix k and st :: "u32 \<times> SRSender"
    assume k: "k < unat (min b (srs_total_chunks s))" and st: "sr_keeps s (snd st)"
    obtain n t where t: "st = (n, t)" by (cases st)
    have kt: "sr_keeps s t" using st by (simp add: t)
    have inv: "sr_inv t" using sr_keeps_inv [OF kt assms(1)] .
    have kT: "k < unat (srs_total_chunks t)"
      using k sr_keeps_fields(2) [OF kt] by (simp add: min_def word_le_nat_alt split: if_splits)
    have c: "unat (of_nat k :: u32) = k" using kT by (rule unat_of_nat_below)
    have acked: "arr_get (srs_chunk_acked t) k = Some (srs_chunk_acked t ! k)" using inv kT by (simp add: sr_inv_def)
    obtain now t1 where r: "read_clock sys t = (now, t1)" by (cases "read_clock sys t")
    then have k1: "sr_keeps t t1" by (rule read_clock_keeps)
    have "sr_inv t1" "k < unat (srs_total_chunks t1)"
      using sr_keeps_inv [OF k1 inv] kT sr_keeps_fields(2) [OF k1] by simp_all
    from retransmit_unacked_keeps [OF this]
    obtain n' t' where "retransmit_unacked sys now (of_nat k) (n, t1) = Some (n', t')" "sr_keeps t1 t'" by blast
    with sr_keeps_trans [OF k1] show "\<exists>st'. retransmit_gap_chunk sys (of_nat k) st = Some st' \<and> sr_keeps (snd st) (snd st')"
      by (cases "srs_chunk_acked t ! k") (auto simp: retransmit_gap_chunk_def t c acked r)
  qed
  then show ?thesis by (simp add: retransmit_gap_def i get Let_def)
qed

lemma advance_window_keeps:
  assumes "sr_inv s"
  shows "\<exists>s'. advance_window sys s = Some s' \<and> sr_keeps s s'"
  unfolding advance_window_def
proof (rule for_while_keeps [where proj = "\<lambda>s. s"])
  fix k t assume k: "k < unat (min (srs_total_chunks s) (srs_ack_base s + ucast (srs_max_inflight s)))"
    and kt: "sr_keeps s t"
  have inv: "sr_inv t" using sr_keeps_inv [OF kt assms] .
  have kT: "k < unat (srs_total_chunks t)"
    using k sr_keeps_fields(2) [OF kt] by (simp add: min_def word_le_nat_alt split: if_splits)
  have c: "unat (of_nat k :: u32) = k" using kT by (rule unat_of_nat_below)
  have get: "arr_get (srs_chunk_acked t) k = Some (srs_chunk_acked t ! k)" using inv kT by (simp add: sr_inv_def)
  obtain t' where "retransmit_range sys (of_nat k) 1 t = Some t'" "sr_keeps t t'"
    using retransmit_range_safe [OF inv] sr_sent_keeps by blast
  then show "\<exists>t'. advance_window_chunk sys (of_nat k) t = Some t' \<and> sr_keeps t t'"
    by (simp add: advance_window_chunk_def c get)
qed

text \<open>A step that has acknowledged the chunks of \<open>A\<close> and sent.\<close>

definition sr_acks :: "nat set \<Rightarrow> SRSender \<Rightarrow> SRSender \<Rightarrow> bool" where
  "sr_acks A s s' \<longleftrightarrow> (\<exists>l b. length l = unat (srs_total_chunks s) \<and> acked_list l = acked s \<union> A
     \<and> sr_keeps (s\<lparr>srs_chunk_acked := l, srs_ack_base := b\<rparr>) s')"

lemma sr_acks_fields:
  assumes "sr_acks A s s'"
  shows "acked s' = acked s \<union> A" "srs_total_chunks s' = srs_total_chunks s" "srs_cfg s' = srs_cfg s"
    "srs_send_handle s' = srs_send_handle s" "srs_conn s' = srs_conn s" "sr_inv s \<Longrightarrow> sr_inv s'"
proof -
  obtain l b where l: "length l = unat (srs_total_chunks s)" "acked_list l = acked s \<union> A"
    and k: "sr_keeps (s\<lparr>srs_chunk_acked := l, srs_ack_base := b\<rparr>) s'"
    using assms by (auto simp: sr_acks_def)
  show "acked s' = acked s \<union> A" "srs_total_chunks s' = srs_total_chunks s" "srs_cfg s' = srs_cfg s"
    "srs_send_handle s' = srs_send_handle s" "srs_conn s' = srs_conn s"
    using sr_keeps_fields [OF k] l(2) by (simp_all add: acked_eq)
  show "sr_inv s'" if "sr_inv s" using that sr_keeps_inv [OF k] l(1) by (simp add: sr_inv_def)
qed

lemma sr_acks_keeps: "sr_acks A s s' \<Longrightarrow> sr_keeps s' s'' \<Longrightarrow> sr_acks A s s''"
  unfolding sr_acks_def by (blast intro: sr_keeps_trans)

lemma sr_acks_stats [simp]:
  "sr_acks A (s\<lparr>srs_stats := st\<rparr>) s' = sr_acks A s s'"
  by (simp add: sr_acks_def sr_keeps_def sr_sent_def sr_frame_def acked_def)

lemma apply_feedback_acks:
  assumes "sr_inv s" and "wf_message msg"
  shows "\<exists>s'. apply_feedback msg s = Some s' \<and> sr_acks (acks_of msg (unat (srs_total_chunks s))) s s'"
  using apply_feedback_eq [OF assms] unfolding sr_acks_def by (blast intro: sr_keeps_refl)

lemma on_sr_ack_acks:
  assumes inv: "sr_inv s" and wf: "wf_message msg"
  shows "\<exists>s'. on_sr_ack sys msg s
      = Some (cp_max_inflight (cm_params msg) + 1 \<ge> ucast (cp_total_chunks (cm_params msg)), s')
    \<and> sr_acks (acks_of msg (unat (srs_total_chunks s))) s s'"
proof -
  obtain s1 where s1: "apply_feedback msg s = Some s1" "sr_acks (acks_of msg (unat (srs_total_chunks s))) s s1"
    using apply_feedback_acks [OF assms] by blast
  let ?s2 = "s1\<lparr>srs_stats := (srs_stats s1)\<lparr>stat_acks_sent := stat_acks_sent (srs_stats s1) + 1\<rparr>\<rparr>"
  have k2: "sr_keeps s1 ?s2" by (rule sr_sent_keeps) simp
  have "sr_inv ?s2" using sr_keeps_inv [OF k2] sr_acks_fields(6) [OF s1(2) inv] by blast
  then obtain s3 where s3: "retransmit_missing_from_bitmap sys 4 ?s2 = Some s3" "sr_keeps ?s2 s3"
    using retransmit_missing_keeps by blast
  moreover obtain s4 where s4: "advance_window sys s3 = Some s4" "sr_keeps s3 s4"
    using advance_window_keeps [OF sr_keeps_inv [OF s3(2) \<open>sr_inv ?s2\<close>]] by blast
  ultimately show ?thesis
    using s1(1) sr_acks_keeps [OF s1(2) sr_keeps_trans [OF k2 sr_keeps_trans [OF s3(2) s4(2)]]]
    by (simp add: on_sr_ack_def Let_def)
qed

lemma on_sr_nack_acks:
  assumes inv: "sr_inv s" and wf: "wf_message msg" and gaps: "unat (cm_num_gaps msg) \<le> 16"
  shows "\<exists>s'. on_sr_nack sys msg s = Some s' \<and> sr_acks (acks_of msg (unat (srs_total_chunks s))) s s'"
proof -
  let ?s = "s\<lparr>srs_stats := (srs_stats s)\<lparr>stat_nacks_sent := stat_nacks_sent (srs_stats s) + 1\<rparr>\<rparr>"
  have "sr_inv ?s" using inv by (simp add: sr_inv_def)
  from apply_feedback_acks [OF this wf]
  obtain s1 where s1: "apply_feedback msg ?s = Some s1" "sr_acks (acks_of msg (unat (srs_total_chunks s))) s s1" by auto
  have i1: "sr_inv s1" using sr_acks_fields(6) [OF s1(2) inv] .
  have "\<exists>st'. for_while 0 (cm_num_gaps msg) (\<lambda>(sent, s). sent < gap_limit) (retransmit_gap sys msg) (0, s1)
      = Some st' \<and> sr_keeps s1 (snd st')"
  proof (rule for_while_keeps [where proj = snd and st = "(0, s1)", unfolded snd_conv])
    fix k and st :: "u32 \<times> SRSender"
    assume k: "k < unat (cm_num_gaps msg)" and st: "sr_keeps s1 (snd st)"
    obtain n t where t: "st = (n, t)" by (cases st)
    have "sr_inv t" using sr_keeps_inv [OF _ i1] st by (simp add: t)
    moreover have "k < 16" using k gaps by linarith
    ultimately show "\<exists>st'. retransmit_gap sys msg (of_nat k) st = Some st' \<and> sr_keeps (snd st) (snd st')"
      using retransmit_gap_keeps [OF _ wf] by (simp add: t)
  qed
  then obtain n s2 where s2: "for_while 0 (cm_num_gaps msg) (\<lambda>(sent, s). sent < gap_limit)
      (retransmit_gap sys msg) (0, s1) = Some (n, s2)" "sr_keeps s1 s2" by auto
  obtain s3 where s3: "retransmit_missing_from_bitmap sys 4 s2 = Some s3" "sr_keeps s2 s3"
    using retransmit_missing_keeps [OF sr_keeps_inv [OF s2(2) i1]] by blast
  then have i3: "sr_inv s3" using sr_keeps_inv s2(2) i1 by blast
  obtain s4 where s4: "advance_window sys s3 = Some s4" "sr_keeps s3 s4"
    using advance_window_keeps [OF i3] by blast
  show ?thesis
    using s1(1) s2(1) s3(1) s4(1) sr_acks_keeps [OF s1(2) sr_keeps_trans [OF s2(2) sr_keeps_trans [OF s3(2) s4(2)]]]
    by (simp add: on_sr_nack_def Let_def)
qed

lemma rto_loop_keeps:
  assumes "sr_inv s"
  shows "\<exists>s'. for_while 0 (srs_total_chunks s) (\<lambda>_. True) (rto_chunk sys now rto) s = Some s' \<and> sr_keeps s s'"
proof (rule for_while_keeps [where proj = "\<lambda>s. s"])
  fix k t assume k: "k < unat (srs_total_chunks s)" and kt: "sr_keeps s t"
  have inv: "sr_inv t" using sr_keeps_inv [OF kt assms] .
  have kT: "k < unat (srs_total_chunks t)" using k sr_keeps_fields(2) [OF kt] by simp
  have c: "unat (of_nat k :: u32) = k" using kT by (rule unat_of_nat_below)
  have get: "arr_get (srs_chunk_acked t) k = Some (srs_chunk_acked t ! k)"
    "arr_get (srs_last_tx t) k = Some (srs_last_tx t ! k)" using inv kT by (simp_all add: sr_inv_def)
  obtain t' where t': "retransmit_range sys (of_nat k) 1 t = Some t'" "sr_sent t t'"
    using retransmit_range_safe [OF inv] by blast
  have "k < length (srs_last_tx t')" using sr_sent_inv [OF t'(2) inv] kT sr_sent_fields(2) [OF t'(2)] by (simp add: sr_inv_def)
  then have "set_last_tx now (of_nat k) t' = Some (t'\<lparr>srs_last_tx := (srs_last_tx t')[k := now]\<rparr>)"
    by (simp add: set_last_tx_def c)
  moreover have "sr_keeps t (t'\<lparr>srs_last_tx := (srs_last_tx t')[k := now]\<rparr>)"
    by (rule sr_sent_keeps) (rule sr_sent_trans [OF t'(2)], simp)
  ultimately show "\<exists>t'. rto_chunk sys now rto (of_nat k) t = Some t' \<and> sr_keeps t t'"
    using t'(1) by (simp add: rto_chunk_def c get)
qed

section \<open>What is sent\<close>

text \<open>The data being sent, the datagram of a packet with its port, and the packets of a chunk.\<close>

definition sr_data :: "SRSender \<Rightarrow> u8 list" where
  "sr_data s = (case srs_send_handle s of None \<Rightarrow> [] | Some h \<Rightarrow> sh_user_buffer h)"

definition sr_datagram :: "SRSender \<Rightarrow> nat \<Rightarrow> u16 \<times> u8 list" where
  "sr_datagram s p =
     (case (srs_conn s, srs_send_handle s) of
        (Some conn, Some h) \<Rightarrow>
          (let params = cc_params (sc_connection_ctx conn)
           in (cp_udp_server_port params, data_datagram (cp_transfer_id params) (sh_msg_id h)
                 (srs_packets_per_chunk s) (unat (srs_mtu_bytes s)) (sh_user_buffer h) p))
      | _ \<Rightarrow> (0, []))"

definition sr_chunk :: "SRSender \<Rightarrow> nat \<Rightarrow> nat list" where
  "sr_chunk s c = [c * unat (srs_packets_per_chunk s) ..<
     min (Suc c * unat (srs_packets_per_chunk s)) (packet_count (length (sr_data s)) (unat (srs_mtu_bytes s)))]"

text \<open>The packets fit their payload and their numbers 32 bits; the chunk count is the rounded-up quotient.\<close>

definition sr_fits :: "SRSender \<Rightarrow> bool" where
  "sr_fits s \<longleftrightarrow> unat (srs_mtu_bytes s) \<le> 65496 \<and> srs_packets_per_chunk s \<noteq> 0
     \<and> length (sr_data s) + 2 ^ 32 \<le> 2 ^ 64
     \<and> packet_count (length (sr_data s)) (unat (srs_mtu_bytes s)) < 2 ^ 32
     \<and> unat (srs_total_chunks s)
         = packet_count (length (sr_data s)) (unat (srs_packets_per_chunk s) * unat (srs_mtu_bytes s))"

lemma sr_sent_view:
  assumes "sr_keeps s s'"
  shows "sr_data s' = sr_data s" "sr_datagram s' = sr_datagram s" "sr_chunk s' = sr_chunk s" "sr_fits s' = sr_fits s"
proof -
  show d: "sr_data s' = sr_data s" by (simp add: sr_data_def sr_keeps_fields [OF assms])
  show "sr_datagram s' = sr_datagram s" "sr_chunk s' = sr_chunk s" "sr_fits s' = sr_fits s"
    by (simp_all add: fun_eq_iff sr_datagram_def sr_chunk_def sr_fits_def sr_keeps_fields [OF assms] d
        split: option.split)
qed

lemma range_packet_eq:
  assumes h: "srs_send_handle s = Some h" "srs_conn s = Some conn" "unat (sh_buffer_size h) = length (sh_user_buffer h)"
    and mtu: "0 < unat (srs_mtu_bytes s)" "unat (srs_mtu_bytes s) \<le> 65496"
    and k: "unat (start + i) = k" "k * unat (srs_mtu_bytes s) < length (sh_user_buffer h)"
  shows "range_packet (cc_params (sc_connection_ctx conn)) h start i s
    = Inr (s\<lparr>srs_wire := srs_wire s @ [sr_datagram s k]\<rparr>)"
proof -
  let ?mtu = "unat (srs_mtu_bytes s)" and ?w = "ucast (srs_mtu_bytes s) :: u64"
  let ?off = "ucast (start + i) * ?w"
  have L: "length (sh_user_buffer h) < 2 ^ 64" using unat_width(6) [of "sh_buffer_size h"] by (simp add: h(3))
  have "unat (ucast (start + i) :: u64) = k" using k(1) by simp
  then have off: "unat ?off = k * ?mtu"
    unfolding unat_word_ariths(2) using k(2) L by (simp add: mod_less)
  have w: "unat ?w = ?mtu" by simp
  have nb: "\<not> ?off \<ge> sh_buffer_size h" using k(2) by (simp add: word_le_nat_alt off h(3))
  have sk: "start + i = of_nat k" using k(1) by (metis of_nat_unat ucast_id)
  show ?thesis
    unfolding range_packet_def Let_def cut_length [OF w mtu(2) h(3) off k(2)] off
    unfolding sk make_datagram_slice [OF HOL.refl mtu k(2)]
    using nb by (simp add: sk sr_datagram_def h Let_def)
qed

lemma send_packets_range_exact:
  assumes inv: "sr_inv s" and mtu: "unat (srs_mtu_bytes s) \<le> 65496"
    and net: "sy_socket sys (srs_sockets s) \<ge> 0" "\<forall>ip. sy_inet_pton sys ip > 0"
    and fit: "unat start + unat n < 2 ^ 32"
      "\<forall>k < unat n. (unat start + k) * unat (srs_mtu_bytes s) < length (sr_data s)"
  shows "send_packets_range sys start n s = Some (s\<lparr>srs_sockets := srs_sockets s + 1,
    srs_wire := srs_wire s @ map (sr_datagram s) [unat start..<unat start + unat n]\<rparr>)"
proof -
  obtain h conn where h: "srs_send_handle s = Some h" "srs_conn s = Some conn"
    "unat (sh_buffer_size h) = length (sh_user_buffer h)" and pos: "0 < unat (srs_mtu_bytes s)"
    using inv by (auto simp: sr_inv_def unat_gt_0)
  let ?s = "s\<lparr>srs_sockets := srs_sockets s + 1\<rparr>"
  let ?at = "\<lambda>k. ?s\<lparr>srs_wire := srs_wire s @ map (sr_datagram s) [unat start..<unat start + k]\<rparr>"
  let ?f = "range_packet (cc_params (sc_connection_ctx conn)) h start"
  have "\<exists>t. for_exit 0 n ?f ?s = Inr t \<and> t = ?at (unat n)"
  proof (rule for_exit_total [where P = "\<lambda>k t. t = ?at k"])
    fix k t assume k: "k < unat n" and t: "t = ?at k"
    have "unat (of_nat k :: u32) = k" using k by (rule unat_of_nat_below)
    then have u: "unat (start + of_nat k) = unat start + k"
      using fit(1) k by (simp add: unat_word_ariths(1))
    have "?f (of_nat k) t = Inr (t\<lparr>srs_wire := srs_wire t @ [sr_datagram t (unat start + k)]\<rparr>)"
      by (rule range_packet_eq) (use h pos mtu u fit(2) k in \<open>auto simp: t sr_data_def\<close>)
    moreover have "sr_datagram t = sr_datagram s" by (simp add: t fun_eq_iff sr_datagram_def split: option.split)
    ultimately show "\<exists>t'. ?f (of_nat k) t = Inr t' \<and> t' = ?at (Suc k)"
      by (simp add: t)
  qed simp_all
  moreover have "\<not> sy_inet_pton sys ip \<le> 0" for ip using net(2) by (simp add: not_le)
  ultimately show ?thesis using net(1) by (simp add: send_packets_range_def h Let_def)
qed

lemma chunk_extent:
  assumes pos: "0 < mtu" "0 < ppc" and c: "c < packet_count D (ppc * mtu)"
    and n: "\<And>k. k < n \<longleftrightarrow> k * mtu < min (ppc * mtu) (D - c * (ppc * mtu))"
  shows "[c * ppc ..< c * ppc + n] = [c * ppc ..< min (Suc c * ppc) (packet_count D mtu)]"
    and "c * (ppc * mtu) < D" and "c * ppc + n \<le> packet_count D mtu"
proof -
  show lt: "c * (ppc * mtu) < D" using c pos by (simp add: packet_count_iff)
  have "c * ppc < packet_count D mtu" using lt pos(1) by (simp add: packet_count_iff mult.assoc)
  have "k < n \<longleftrightarrow> k < min ppc (packet_count D mtu - c * ppc)" for k
  proof -
    have "k * mtu < ppc * mtu \<longleftrightarrow> k < ppc" using pos(1) by simp
    moreover have "k * mtu < D - c * (ppc * mtu) \<longleftrightarrow> (c * ppc + k) * mtu < D"
      using lt by (auto simp: algebra_simps)
    moreover have "\<dots> \<longleftrightarrow> k < packet_count D mtu - c * ppc"
      using pos(1) by (auto simp: packet_count_iff [symmetric])
    ultimately show ?thesis unfolding n by simp
  qed
  then have "n = min ppc (packet_count D mtu - c * ppc)" by (metis less_irrefl nat_neq_iff)
  then show "[c * ppc ..< c * ppc + n] = [c * ppc ..< min (Suc c * ppc) (packet_count D mtu)]"
    "c * ppc + n \<le> packet_count D mtu"
    using \<open>c * ppc < packet_count D mtu\<close> by (auto simp: min_def add.commute)
qed

text \<open>Retransmitting a chunk gives exactly its packets to \<open>sendto\<close> and notes the time.\<close>

lemma retransmit_range_exact:
  assumes inv: "sr_inv s" and fits: "sr_fits s" and c: "c < unat (srs_total_chunks s)"
    and net: "sy_socket sys (srs_sockets s) \<ge> 0" "\<forall>ip. sy_inet_pton sys ip > 0"
  shows "retransmit_range sys (of_nat c) 1 s = Some (s\<lparr>srs_stats := (srs_stats s)
      \<lparr>stat_retransmits := stat_retransmits (srs_stats s) + 1\<rparr>, srs_sockets := srs_sockets s + 1,
    srs_readings := srs_readings s + 1, srs_last_tx := (srs_last_tx s)[c := sy_now sys (srs_readings s)],
    srs_wire := srs_wire s @ map (sr_datagram s) (sr_chunk s c)\<rparr>)"
proof -
  obtain h where h: "srs_send_handle s = Some h" "unat (sh_buffer_size h) = length (sr_data s)"
    and mtu0: "srs_mtu_bytes s \<noteq> 0" and last: "length (srs_last_tx s) = unat (srs_total_chunks s)"
    using inv by (auto simp: sr_inv_def sr_data_def)
  let ?m = "unat (srs_mtu_bytes s)" and ?p = "unat (srs_packets_per_chunk s)" and ?D = "length (sr_data s)"
  let ?w = "ucast (srs_mtu_bytes s) :: u64" let ?cb = "ucast (srs_packets_per_chunk s) * ?w"
  let ?off = "ucast (of_nat c :: u32) * ?cb"
  let ?len = "if ?off + ucast (1 :: u32) * ?cb > sh_buffer_size h then sh_buffer_size h - ?off else ucast (1 :: u32) * ?cb"
  let ?start = "ucast (?off div ?w) :: u32" and ?n = "ucast ((?len + ?w - 1) div ?w) :: u32"
  have pos: "0 < ?m" "0 < ?p" and m: "?m \<le> 65496" using mtu0 fits by (auto simp: sr_fits_def unat_gt_0)
  have c32: "unat (of_nat c :: u32) = c" using c by (rule unat_of_nat_below)
  have cc: "c < packet_count ?D (?p * ?m)" using c fits by (simp add: sr_fits_def)
  have cb_le: "?p * ?m \<le> 65535 * 65496" using unat_width(3) [of "srs_packets_per_chunk s"] m by (intro mult_le_mono) auto
  then have cb: "unat ?cb = ?p * ?m" by (simp add: unat_word_ariths(2))
  have lt: "c * (?p * ?m) < ?D" using cc pos by (simp add: packet_count_iff)
  have D: "?D + 2 ^ 32 \<le> 2 ^ 64" using fits by (simp add: sr_fits_def)
  have off: "unat ?off = c * (?p * ?m)"
    unfolding unat_word_ariths(2) [of _ ?cb] cb using c32 lt D by (simp add: mod_less)
  have sum: "unat (?off + ucast (1 :: u32) * ?cb) = c * (?p * ?m) + ?p * ?m"
    unfolding unat_word_ariths(1) [of ?off] off using lt D cb cb_le by (simp add: mod_less)
  have len: "unat ?len = min (?p * ?m) (?D - c * (?p * ?m))"
  proof (cases "?off + ucast (1 :: u32) * ?cb > sh_buffer_size h")
    case True
    then have "?D < c * (?p * ?m) + ?p * ?m" using sum by (simp add: word_less_nat_alt h(2))
    moreover have "unat (sh_buffer_size h - ?off) = ?D - c * (?p * ?m)"
      using lt by (subst unat_sub) (simp_all only: off h(2) word_le_nat_alt order_less_imp_le)
    ultimately show ?thesis using True by (simp only: if_True)
  next
    case False
    then have "c * (?p * ?m) + ?p * ?m \<le> ?D" using sum by (simp add: word_less_nat_alt h(2))
    then show ?thesis using False cb by (simp only: if_False) simp
  qed
  have "unat ?len + ?m \<le> 2 ^ 64" using len cb_le m by simp
  then have "unat ((?len + ?w - 1) div ?w) = packet_count (unat ?len) ?m"
    unfolding packet_count_def by (rule unat_ceil_div) (use pos in auto)
  then have n0: "k < unat ((?len + ?w - 1) div ?w) \<longleftrightarrow> k * ?m < min (?p * ?m) (?D - c * (?p * ?m))" for k
    using packet_count_iff [OF pos(1)] len by simp
  note ext = chunk_extent [OF pos cc n0]
  have few: "packet_count ?D ?m < 2 ^ 32" using fits by (simp add: sr_fits_def)
  have n: "unat ?n = unat ((?len + ?w - 1) div ?w)"
    using ext(3) few by (simp add: unat_ucast_mod)
  have "unat (?off div ?w) = c * ?p" using pos(1) by (simp add: unat_div off)
  then have start: "unat ?start = c * ?p" using ext(3) few by (simp add: unat_ucast_mod)
  have chunk: "[unat ?start..<unat ?start + unat ?n] = sr_chunk s c"
    unfolding start n ext(1) sr_chunk_def ..
  have send: "send_packets_range sys ?start ?n s = Some (s\<lparr>srs_sockets := srs_sockets s + 1,
      srs_wire := srs_wire s @ map (sr_datagram s) (sr_chunk s c)\<rparr>)"
    unfolding chunk [symmetric]
  proof (rule send_packets_range_exact [OF inv m net])
    show "unat ?start + unat ?n < 2 ^ 32" using ext(3) few unfolding start n by linarith
    show "\<forall>k<unat ?n. (unat ?start + k) * ?m < ?D"
      unfolding start n
    proof (intro allI impI)
      fix k assume "k < unat ((?len + ?w - 1) div ?w)"
      then have "c * ?p + k < packet_count ?D ?m" using ext(3) by linarith
      then show "(c * ?p + k) * ?m < ?D" using packet_count_iff [OF pos(1)] by blast
    qed
  qed
  have nb: "\<not> ?off \<ge> sh_buffer_size h" using lt by (simp add: word_le_nat_alt off h(2))
  have loop: "for_while (of_nat c) (min (of_nat c + 1) (srs_total_chunks t)) (\<lambda>_. True) (set_last_tx now) t
      = Some (t\<lparr>srs_last_tx := (srs_last_tx t)[c := now]\<rparr>)"
    if "srs_total_chunks t = srs_total_chunks s" "length (srs_last_tx t) = length (srs_last_tx s)" for t now
  proof -
    have lt: "(of_nat c :: u32) < srs_total_chunks t" using c c32 that by (simp add: word_less_nat_alt)
    then have "min (of_nat c + 1) (srs_total_chunks t) = of_nat c + 1" by (simp add: inc_le min_def)
    moreover have "(of_nat c :: u32) < of_nat c + 1" using lt by (simp add: word_less_nat_alt unat_Suc_less)
    ultimately show ?thesis using that c last by (simp add: for_while_step set_last_tx_def c32)
  qed
  show ?thesis
    unfolding retransmit_range_def h(1) option.case Let_def if_not_P [OF nb] if_not_P [OF mtu0] send
      read_clock_def prod.case
    by (subst loop, simp, simp, cases s, simp)
qed

section \<open>Starting\<close>

lemma chunks_concat:
  "concat (map (sr_chunk s) [0..<n])
    = [0..<min (n * unat (srs_packets_per_chunk s)) (packet_count (length (sr_data s)) (unat (srs_mtu_bytes s)))]"
proof (induction n)
  case (Suc n)
  let ?p = "unat (srs_packets_per_chunk s)" and ?N = "packet_count (length (sr_data s)) (unat (srs_mtu_bytes s))"
  show ?case
  proof (cases "n * ?p \<le> ?N")
    case True
    then have "n * ?p \<le> min (Suc n * ?p) ?N" by simp
    then have "[0..<min (Suc n * ?p) ?N] = [0..<n * ?p] @ [n * ?p..<min (Suc n * ?p) ?N]"
      by (metis le_iff_add upt_add_eq_append zero_le)
    with True show ?thesis by (simp add: Suc.IH sr_chunk_def [of s n] min_absorb1)
  next
    case False
    then have "min (Suc n * ?p) ?N = ?N" "min (n * ?p) ?N = ?N" by (simp_all add: min_def)
    with False show ?thesis by (simp add: Suc.IH sr_chunk_def [of s n])
  qed
qed simp

lemma first_window_loop:
  assumes inv: "sr_inv s" and fits: "sr_fits s" and n: "n \<le> srs_total_chunks s"
    and net: "\<forall>i. sy_socket sys i \<ge> 0" "\<forall>ip. sy_inet_pton sys ip > 0"
  shows "\<exists>s'. for_while 0 n (\<lambda>_. True) (send_first sys) s = Some s' \<and> sr_keeps s s'
    \<and> srs_wire s' = srs_wire s @ map (sr_datagram s) (concat (map (sr_chunk s) [0..<unat n]))"
proof -
  let ?P = "\<lambda>k t. sr_keeps s t \<and> srs_wire t = srs_wire s @ map (sr_datagram s) (concat (map (sr_chunk s) [0..<k]))"
  have "\<exists>s' j. for_while 0 n (\<lambda>_. True) (send_first sys) s = Some s' \<and> unat (0 :: u32) \<le> j \<and> j \<le> unat n
      \<and> ?P j s' \<and> (j = unat n \<or> \<not> True)"
  proof (rule for_while_total)
    fix k t assume k: "k < unat n" and P: "?P k t"
    then have kt: "sr_keeps s t" by blast
    note view = sr_sent_view [OF kt]
    have "k < unat (srs_total_chunks t)" using k n sr_keeps_fields(2) [OF kt] by (simp add: word_le_nat_alt)
    from retransmit_range_exact [OF sr_keeps_inv [OF kt inv] _ this, of sys] fits net view(4)
    obtain t' where t': "retransmit_range sys (of_nat k) 1 t = Some t'" "sr_sent t t'"
      "srs_wire t' = srs_wire t @ map (sr_datagram t) (sr_chunk t k)"
      using retransmit_range_safe [OF sr_keeps_inv [OF kt inv], of sys "of_nat k" 1] by fastforce
    then show "\<exists>t'. send_first sys (of_nat k) t = Some t' \<and> ?P (Suc k) t'"
      using P sr_keeps_trans [OF kt sr_sent_keeps [OF t'(2)]] by (simp add: send_first_def view)
  qed simp_all
  then show ?thesis by auto
qed

lemma send_post_success:
  assumes "sdr_send_post host conn True (Some data) len True evs psys = Ret SP" and "sp_rc SP = 0"
  shows "\<exists>h. sp_handle SP = Some h \<and> sh_user_buffer h = data \<and> sh_buffer_size h = len"
    and "cp_mtu_bytes (cc_params (sc_connection_ctx (sp_conn SP))) \<noteq> 0"
    and "cp_packets_per_chunk (cc_params (sc_connection_ctx (sp_conn SP))) \<noteq> 0"
proof -
  obtain c cl cts out evs' where a: "send_after_cts host c cl data len cts out evs' psys = Ret SP"
    using assms by (auto simp: sdr_send_post_def Let_def split: if_splits option.splits prod.splits)
  show "\<exists>h. sp_handle SP = Some h \<and> sh_user_buffer h = data \<and> sh_buffer_size h = len"
    "cp_mtu_bytes (cc_params (sc_connection_ctx (sp_conn SP))) \<noteq> 0"
    "cp_packets_per_chunk (cc_params (sc_connection_ctx (sp_conn SP))) \<noteq> 0"
    using a assms(2)
    by (auto simp: send_after_cts_def Let_def allocate_msg_id_def cc_initialize_def split: if_splits prod.splits sum.splits)
qed

lemma init_tracking_ok:
  fixes sys :: SRSys
  assumes h: "srs_send_handle s = Some h" "srs_conn s = Some conn" "sh_user_buffer h = data" "sh_buffer_size h = len"
    and len: "unat len = length data" "length data + 2 ^ 32 \<le> 2 ^ 64"
    and p: "cp_mtu_bytes p \<noteq> 0" "unat (cp_mtu_bytes p) \<le> 65496" "cp_packets_per_chunk p \<noteq> 0"
    and few: "packet_count (length data) (unat (cp_mtu_bytes p)) < 2 ^ 32"
  defines "t \<equiv> init_tracking sys p len s"
  shows "sr_inv t" and "sr_fits t" and "acked t = {}" and "srs_wire t = srs_wire s"
    and "srs_mtu_bytes t = cp_mtu_bytes p" and "srs_packets_per_chunk t = cp_packets_per_chunk p"
    and "srs_send_handle t = Some h" and "srs_conn t = Some conn"
    and "srs_max_inflight t = (if cfg_max_inflight_chunks (srs_cfg s) \<noteq> 0
      then cfg_max_inflight_chunks (srs_cfg s) else ucast (srs_total_chunks t))"
proof -
  let ?m = "unat (cp_mtu_bytes p)" and ?c = "unat (cp_packets_per_chunk p)" and ?D = "length data"
  let ?cb = "ucast (cp_mtu_bytes p) * ucast (cp_packets_per_chunk p) :: u64"
  have pos: "0 < ?m" "0 < ?c" using p by (simp_all add: unat_gt_0)
  have cb_le: "?m * ?c \<le> 65496 * 65535" using unat_width(3) [of "cp_packets_per_chunk p"] p(2) by (intro mult_le_mono) auto
  then have cb: "unat ?cb = ?m * ?c" by (simp add: unat_word_ariths(2))
  have "unat len + unat ?cb \<le> 2 ^ 64" "0 < unat ?cb" using cb cb_le len pos by simp_all
  from unat_ceil_div [OF this] have total: "unat ((len + ?cb - 1) div ?cb) = packet_count ?D (?c * ?m)"
    by (simp add: packet_count_def cb len(1) mult.commute)
  have "packet_count ?D (?c * ?m) \<le> packet_count ?D ?m"
  proof (rule ccontr)
    assume "\<not> packet_count ?D (?c * ?m) \<le> packet_count ?D ?m"
    then have "packet_count ?D ?m * (?c * ?m) < ?D"
      using packet_count_iff [of "?c * ?m" "packet_count ?D ?m" ?D] pos by simp
    moreover have "packet_count ?D ?m * ?m \<le> packet_count ?D ?m * (?c * ?m)"
      using pos by (intro mult_le_mono2) simp
    ultimately have "packet_count ?D ?m * ?m < ?D" by linarith
    then show False using packet_count_iff [OF pos(1), of "packet_count ?D ?m" ?D] by simp
  qed
  then have total32: "unat (ucast ((len + ?cb - 1) div ?cb) :: u32) = packet_count ?D (?c * ?m)"
    using few total by (simp add: unat_ucast_mod)
  show "sr_inv t" "sr_fits t"
    using h len p few total32
    by (simp_all add: t_def init_tracking_def Let_def read_clock_def sr_inv_def sr_fits_def sr_data_def)
  show "acked t = {}" by (auto simp: t_def init_tracking_def Let_def read_clock_def acked_def)
  show "srs_wire t = srs_wire s" "srs_mtu_bytes t = cp_mtu_bytes p"
    "srs_packets_per_chunk t = cp_packets_per_chunk p" "srs_send_handle t = Some h" "srs_conn t = Some conn"
    "srs_max_inflight t = (if cfg_max_inflight_chunks (srs_cfg s) \<noteq> 0
      then cfg_max_inflight_chunks (srs_cfg s) else ucast (srs_total_chunks t))"
    using p h(1,2) by (simp_all add: t_def init_tracking_def Let_def read_clock_def)
qed

text \<open>A post with \<open>auto_send_data\<close> off succeeds without sending data.\<close>

lemma quiet_post_ok:
  assumes ready: "sender_ready conn data len sys" and cts: "valid_message cts" "wanted CTS cts"
    and usable: "cp_mtu_bytes (cm_params cts) \<noteq> 0" "cp_packets_per_chunk (cm_params cts) \<noteq> 0"
  shows "\<exists>SP. sdr_send_post host (set_auto_send_data False conn) True (Some data) len True
      (EvData (message_image pd cts) # evs) sys = Ret SP
    \<and> sp_rc SP = 0 \<and> cc_params (sc_connection_ctx (sp_conn SP)) = cm_params cts \<and> sp_wire SP = []"
proof -
  let ?conn = "set_auto_send_data False conn" let ?cc = "sc_connection_ctx ?conn"
  obtain cl where cl: "sc_tcp_client ?conn = Some cl" "is_connected cl"
    and r: "\<not> sc_is_receiver ?conn" "wf_params (cc_params ?cc)" "len \<noteq> 0" "sps_offer sys = int message_size"
      "sps_socket sys \<ge> 0" "\<forall>ip. sps_inet_pton sys ip > 0"
    using ready by (auto simp: sender_ready_def set_auto_send_data_def)
  have offer: "client_send cl (sps_pad sys) (offer_message ?cc len) (sps_offer sys)
      = (True, cl, message_image (sps_pad sys) (offer_message ?cc len))"
    unfolding r(4) using client_send_whole [OF cl(2)] offer_valid [OF r(2)] by (simp add: valid_message_def)
  have run: "sdr_send_post host ?conn True (Some data) len True (EvData (message_image pd cts) # evs) sys
      = send_after_cts host (?conn\<lparr>sc_tcp_client := Some cl\<rparr>) cl data len cts
          (message_image (sps_pad sys) (offer_message ?cc len)) evs sys"
    unfolding sdr_send_post_def Let_def option.case cl(1) offer prod.case await_cts [OF cl(2) cts]
    using r(1,3) cl(2) by simp
  have sock: "\<not> sps_socket sys < 0" "\<And>ip. \<not> sps_inet_pton sys ip \<le> 0" using r(5,6) by (simp_all add: not_le)
  obtain ok cl' out where acc: "client_send cl (sps_pad sys) (accept_message cts) (sps_accept sys) = (ok, cl', out)"
    by (rule prod_cases3)
  obtain i ctx where alloc: "allocate_msg_id (hs_ctx host) = (i, ctx)" by (rule prod.exhaust)
  show ?thesis
    unfolding run send_after_cts_def Let_def acc prod.case alloc
    using usable sock by (simp add: cc_initialize_def set_auto_send_data_def)
qed

definition demo_cts :: ControlMessage where
  "demo_cts = zero_message\<lparr>cm_magic := CTL_MAGIC_VALUE, cm_msg_type := ctl_code CTS, cm_params := demo_params\<rparr>"

lemma demo_cts [simp]: "cm_params demo_cts = demo_params"
  by (simp add: demo_cts_def)

definition demo_sr_cfg :: SRConfig where
  "demo_sr_cfg = \<lparr> cfg_rto_ms = 0, cfg_nack_delay_ms = 0, cfg_max_inflight_chunks = 1, cfg_base_rtt_ms = 100,
     cfg_alpha_ms = 100 \<rparr>"

definition demo_sr_sys :: SRSys where
  "demo_sr_sys = \<lparr> sy_now = (\<lambda>i. int i * 100000000), sy_socket = (\<lambda>_. 9), sy_inet_pton = (\<lambda>_. 1) \<rparr>"

text \<open>A sender in the middle of the transfer of \<open>demo_target\<close>.\<close>

definition demo_sender :: SRSender where
  "demo_sender = (SRSender_new demo_sr_cfg)\<lparr>srs_total_chunks := 2, srs_mtu_bytes := 2, srs_packets_per_chunk := 2,
     srs_max_inflight := 2, srs_next_chunk_to_send := 2, srs_chunk_acked := [False, False], srs_last_tx := [0, 0],
     srs_readings := 1, srs_send_handle := Some \<lparr> sh_msg_id = 3, sh_generation = 1, sh_user_buffer = [10, 20, 30, 40, 50],
       sh_buffer_size = 5, sh_packets_sent = 0 \<rparr>,
     srs_conn := Some (demo_sconn\<lparr>sc_connection_ctx := ConnectionContext_new\<lparr>cc_params := demo_params\<rparr>\<rparr>)\<rparr>"

lemma demo_sender_ok: "sr_inv demo_sender" "sr_fits demo_sender" "acked demo_sender = {}"
  "srs_total_chunks demo_sender = 2"
  "\<exists>conn. srs_conn demo_sender = Some conn \<and> sc_tcp_client conn = Some (TCPControlClient_new\<lparr>is_connected := True\<rparr>)"
  by (simp_all add: demo_sender_def SRSender_new_def sr_inv_def sr_fits_def sr_data_def acked_def packet_count_def
      demo_sconn_def less_2_cases_iff)
    (auto simp: less_Suc_eq)

section \<open>The loop, message by message\<close>

text \<open>The state in which \<open>poll\<close> can work.\<close>

definition sr_online :: "SRSender \<Rightarrow> SDRConnection \<Rightarrow> TCPControlClient \<Rightarrow> bool" where
  "sr_online s conn cl \<longleftrightarrow> sr_inv s \<and> srs_conn s = Some conn \<and> sc_tcp_client conn = Some cl \<and> is_connected cl"

lemma set_client_same: "srs_conn s = Some conn \<Longrightarrow> sc_tcp_client conn = cl \<Longrightarrow> set_client cl conn s = s"
  by (cases s; cases conn) (simp add: set_client_def)

lemma set_client_inv: "sr_inv s \<Longrightarrow> sr_inv (set_client cl conn s)"
  by (auto simp: sr_inv_def set_client_def)

lemma set_client_fields [simp]:
  "srs_total_chunks (set_client cl conn s) = srs_total_chunks s" "srs_cfg (set_client cl conn s) = srs_cfg s"
  "acked (set_client cl conn s) = acked s" "srs_conn (set_client cl conn s) = Some (conn\<lparr>sc_tcp_client := cl\<rparr>)"
  by (simp_all add: set_client_def acked_def)

lemma poll_step_message:
  assumes "sr_online s conn cl" and "valid_message m"
  shows "sr_poll_step sys s (EvData (message_image pad m) # evs) = on_message sys conn cl m s evs"
proof -
  obtain h where "srs_send_handle s = Some h" using assms(1) by (auto simp: sr_online_def sr_inv_def)
  moreover have "client_receive cl zero_message (EvData (message_image pad m) # evs) = Some (True, m, cl, evs)"
    using assms by (simp add: receive_one sr_online_def valid_message_def)
  ultimately show ?thesis
    using assms(1) by (simp add: sr_poll_step_def sr_online_def set_client_same)
qed

lemma poll_step_no_message:
  assumes "sr_online s conn cl" and "client_receive cl zero_message evs = Some (False, m, cl', evs')"
  shows "sr_poll_step sys s evs = on_no_message sys conn cl' s evs'"
proof -
  obtain h where "srs_send_handle s = Some h" using assms(1) by (auto simp: sr_online_def sr_inv_def)
  with assms show ?thesis by (simp add: sr_poll_step_def sr_online_def)
qed

text \<open>Every received message has arrays of the declared sizes.\<close>

lemma received_wf:
  assumes "client_receive cl m0 evs = Some (True, m, cl', evs')"
  shows "wf_message m" and "cl' = cl" and "is_connected cl"
proof -
  obtain buffer where b: "is_connected cl" "cl' = cl" "deserialize m0 buffer = (True, m)"
    using assms by (auto simp: client_receive_def split: if_splits option.splits RecvResult.splits prod.splits)
  then show "cl' = cl" "is_connected cl" by simp_all
  have "message_size \<le> length buffer" "m = message_of_image buffer"
    using b(3) by (auto simp: deserialize_def Let_def not_less split: if_splits)
  then show "wf_message m"
    by (simp add: wf_message_def wf_params_def message_of_image_def params_of_image_def field_at_def message_size_def)
qed

lemma on_sr_nack_returns:
  assumes inv: "sr_inv s" and wf: "wf_message msg" and ret: "on_sr_nack sys msg s = Some s'"
  shows "sr_acks (acks_of msg (unat (srs_total_chunks s))) s s'"
proof -
  let ?s = "s\<lparr>srs_stats := (srs_stats s)\<lparr>stat_nacks_sent := stat_nacks_sent (srs_stats s) + 1\<rparr>\<rparr>"
  have "sr_inv ?s" using inv by (simp add: sr_inv_def)
  from apply_feedback_acks [OF this wf]
  obtain s1 where s1: "apply_feedback msg ?s = Some s1" "sr_acks (acks_of msg (unat (srs_total_chunks s))) s s1" by auto
  have i1: "sr_inv s1" using sr_acks_fields(6) [OF s1(2) inv] .
  obtain n s2 s3 where loop: "for_while 0 (cm_num_gaps msg) (\<lambda>(sent, s). sent < gap_limit) (retransmit_gap sys msg) (0, s1)
      = Some (n, s2)" and rest: "retransmit_missing_from_bitmap sys 4 s2 = Some s3" "advance_window sys s3 = Some s'"
    using ret s1(1) by (auto simp: on_sr_nack_def Let_def split: option.splits)
  have "sr_keeps s1 (snd (n, s2))"
  proof (rule for_while_some [OF loop, where P = "\<lambda>st. sr_keeps s1 (snd st)"])
    fix i st st' assume st: "sr_keeps s1 (snd st)" and r: "retransmit_gap sys msg i st = Some st'"
    have "unat i < 16"
      using r wf by (auto simp: retransmit_gap_def wf_message_def arr_get_def split: option.splits if_splits)
    from retransmit_gap_keeps [OF sr_keeps_inv [OF st i1] wf this, of sys "fst st"] r sr_keeps_trans [OF st]
    show "sr_keeps s1 (snd st')" by simp
  qed simp
  then have k2: "sr_keeps s1 s2" by simp
  have k3: "sr_keeps s2 s3" using retransmit_missing_keeps [OF sr_keeps_inv [OF k2 i1], of sys 4] rest(1) by simp
  have "sr_keeps s3 s'"
    using advance_window_keeps [OF sr_keeps_inv [OF k3 sr_keeps_inv [OF k2 i1]], of sys] rest(2) by simp
  then show ?thesis using sr_acks_keeps [OF s1(2)] sr_keeps_trans k2 k3 by blast
qed

text \<open>\<open>poll\<close> can rely on the stream coming to an end.\<close>

definition sr_ending :: "SRSender \<Rightarrow> NetEvent list \<Rightarrow> bool" where
  "sr_ending s evs \<longleftrightarrow> sr_inv s \<and> (\<forall>conn cl. srs_conn s = Some conn \<longrightarrow> sc_tcp_client conn = Some cl \<longrightarrow>
     \<not> is_connected cl \<or> stream_ends evs)"

lemma on_no_message_ends:
  assumes inv: "sr_inv s" and cl: "\<not> is_connected cl \<or> stream_ends evs"
  shows "\<exists>r s' evs'. on_no_message sys conn cl s evs = Ret (r, s', evs') \<and> sr_ending s' evs' \<and> acked s' = acked s"
proof -
  obtain rc cl' evs' where p: "sdr_send_poll True (Some cl) evs = Ret (rc, Some cl', evs')"
    "\<not> is_connected cl' \<or> stream_ends evs'" using send_poll_ends [OF cl] by blast
  let ?s = "set_client (Some cl') conn s" let ?t = "?s\<lparr>srs_readings := srs_readings ?s + 1\<rparr>"
  have inv_s: "sr_inv ?s" using set_client_inv [OF inv] .
  then have it: "sr_inv ?t" by (simp add: sr_inv_def)
  obtain t' where t': "for_while 0 (srs_total_chunks ?t) (\<lambda>_. True)
      (rto_chunk sys (sy_now sys (srs_readings ?s)) (effective_rto_ms (srs_cfg ?t))) ?t = Some t'" "sr_keeps ?t t'"
    using rto_loop_keeps [OF it] by blast
  have "sr_ending ?s evs'" using inv_s p(2) by (simp add: sr_ending_def)
  moreover have "sr_ending t' evs'"
    using sr_keeps_inv [OF t'(2) it] sr_keeps_fields(9) [OF t'(2)] p(2) by (simp add: sr_ending_def)
  moreover have "acked t' = acked s" using sr_keeps_fields(7) [OF t'(2)] by (simp add: acked_def set_client_def)
  ultimately show ?thesis
    using p(1) t'(1) by (simp add: on_no_message_def Let_def read_clock_def)
qed

lemma sr_poll_step_ends:
  assumes "sr_ending s evs"
  shows "sr_poll_step sys s evs \<noteq> Blocked"
    and "sr_poll_step sys s evs = Ret (r, s', evs') \<Longrightarrow> sr_ending s' evs' \<and> acked s \<subseteq> acked s'"
proof -
  have inv: "sr_inv s" using assms by (simp add: sr_ending_def)
  obtain h conn where h: "srs_send_handle s = Some h" "srs_conn s = Some conn" using inv by (auto simp: sr_inv_def)
  have "sr_poll_step sys s evs \<noteq> Blocked \<and> (sr_poll_step sys s evs = Ret (r, s', evs') \<longrightarrow>
      sr_ending s' evs' \<and> acked s \<subseteq> acked s')"
  proof (cases "sc_tcp_client conn")
    case None
    then show ?thesis using assms by (auto simp: sr_poll_step_def h)
  next
    case (Some cl)
    then have "\<not> is_connected cl \<or> stream_ends evs" using assms h by (simp add: sr_ending_def)
    from client_receive_ends [OF this, of zero_message]
    obtain ok m cl1 evs1 where c: "client_receive cl zero_message evs = Some (ok, m, cl1, evs1)"
      and e1: "\<not> is_connected cl1 \<or> stream_ends evs1" by blast
    show ?thesis
    proof (cases ok)
      case False
      then have "sr_poll_step sys s evs = on_no_message sys conn cl1 s evs1" by (simp add: sr_poll_step_def h Some c)
      with on_no_message_ends [OF inv e1, of sys conn] show ?thesis by auto
    next
      case True
      then have "client_receive cl zero_message evs = Some (True, m, cl1, evs1)" using c by simp
      note w = received_wf [OF this]
      have st: "sr_poll_step sys s evs = on_message sys conn cl m s evs1"
        using True Some h w(2) by (simp add: sr_poll_step_def c set_client_same)
      have online: "sr_ending s evs1" using inv h Some e1 w(2) by (simp add: sr_ending_def)
      have acks: "sr_ending t evs1 \<and> acked s \<subseteq> acked t" if "sr_acks A s t" for A t
        using sr_acks_fields [OF that] online by (auto simp: sr_ending_def)
      obtain rc cl' evs2 where p: "sdr_send_poll True (Some cl) evs1 = Ret (rc, Some cl', evs2)"
        "\<not> is_connected cl' \<or> stream_ends evs2" using send_poll_ends e1 w(2) by blast
      have other: "sr_ending (set_client (Some cl') conn s) evs2"
        using set_client_inv [OF inv] p(2) by (simp add: sr_ending_def)
      obtain d s1 where s1: "on_sr_ack sys m s = Some (d, s1)" "sr_acks (acks_of m (unat (srs_total_chunks s))) s s1"
        using on_sr_ack_acks [OF inv w(1)] by blast
      have stats: "sr_ending (s\<lparr>srs_stats := st\<rparr>) evs1" "acked (s\<lparr>srs_stats := st\<rparr>) = acked s" for st
        using online by (simp_all add: sr_ending_def sr_inv_def acked_def)
      show ?thesis
        unfolding st on_message_def p(1) s1(1)
        using acks [OF s1(2)] acks [OF on_sr_nack_returns [OF inv w(1)]] other online stats
        by (auto split: option.splits)
    qed
  qed
  then show "sr_poll_step sys s evs \<noteq> Blocked"
    "sr_poll_step sys s evs = Ret (r, s', evs') \<Longrightarrow> sr_ending s' evs' \<and> acked s \<subseteq> acked s'" by blast+
qed

section \<open>Properties\<close>

text \<open>C28: Starting a reliable send transmits the first window, each packet once and in order.  After a
  successful post over a connection with usable parameters and working sockets, \<open>start_send\<close> returns
  success with no chunk acknowledged, and the datagrams given to \<open>sendto\<close> are those of the packets of
  the first chunks: as many chunks as the configured window, or, with none configured, the number of
  chunks modulo \<open>2^16\<close>, but no more than there are.\<close>

theorem sr_start_sends_window:
  assumes post: "sdr_send_post host (set_auto_send_data False conn) True (Some data) len True evs psys = Ret SP"
      "sp_rc SP = 0"
    and len: "unat len = length data" "length data + 2 ^ 32 \<le> 2 ^ 64"
    and params: "params = cc_params (sc_connection_ctx (sp_conn SP))" "unat (cp_mtu_bytes params) \<le> 65496"
    and few: "packet_count (length data) (unat (cp_mtu_bytes params)) < 2 ^ 32"
    and net: "\<forall>i. sy_socket sys i \<ge> 0" "\<forall>ip. sy_inet_pton sys ip > 0"
  shows "let ppc = unat (cp_packets_per_chunk params); mtu = unat (cp_mtu_bytes params);
      total = packet_count (length data) (ppc * mtu);
      window = (if cfg_max_inflight_chunks cfg \<noteq> 0 then unat (cfg_max_inflight_chunks cfg) else total mod 2 ^ 16)
    in \<exists>r h. sr_start_send sys (SRSender_new cfg) host conn (Some data) len evs psys = Ret r \<and> sst_rc r = 0
      \<and> sp_handle SP = Some h \<and> sr_inv (sst_sender r) \<and> acked (sst_sender r) = {}
      \<and> unat (srs_total_chunks (sst_sender r)) = total
      \<and> srs_wire (sst_sender r) = map (\<lambda>p. (cp_udp_server_port params, data_datagram (cp_transfer_id params)
          (sh_msg_id h) (cp_packets_per_chunk params) mtu data p))
          [0..<min (min total window * ppc) (packet_count (length data) mtu)]"
proof -
  obtain h where h: "sp_handle SP = Some h" "sh_user_buffer h = data" "sh_buffer_size h = len"
    using send_post_success(1) [OF post] by blast
  have p: "cp_mtu_bytes params \<noteq> 0" "cp_packets_per_chunk params \<noteq> 0"
    using send_post_success(2,3) [OF post] by (simp_all add: params(1))
  let ?conn = "set_auto_send_data True (sp_conn SP)"
  let ?s = "(SRSender_new cfg)\<lparr>srs_conn := Some ?conn, srs_send_handle := Some h\<rparr>"
  let ?t = "init_tracking sys params len ?s"
  have conn: "cc_params (sc_connection_ctx ?conn) = params" by (simp add: set_auto_send_data_def params(1))
  have hs: "srs_send_handle ?s = Some h" "srs_conn ?s = Some ?conn" by simp_all
  note t = init_tracking_ok [OF hs h(2,3) len p(1) params(2) p(2) few, where sys = sys]
  let ?lim = "min (srs_total_chunks ?t) (ucast (srs_max_inflight ?t))"
  have "?lim \<le> srs_total_chunks ?t" by simp
  from first_window_loop [OF t(1,2) this net] obtain s' where s':
    "for_while 0 ?lim (\<lambda>_. True) (send_first sys) ?t = Some s'" "sr_keeps ?t s'"
    "srs_wire s' = srs_wire ?t @ map (sr_datagram ?t) (concat (map (sr_chunk ?t) [0..<unat ?lim]))" by blast
  have run: "sr_start_send sys (SRSender_new cfg) host conn (Some data) len evs psys
      = Ret \<lparr> sst_rc = 0, sst_sender = s', sst_host = sp_host SP, sst_out = sp_out SP, sst_rest = sp_rest SP \<rparr>"
    unfolding sr_start_send_def post(1) run_bind.simps Let_def conn using post(2) h(1) s'(1) conn by simp
  have total: "unat (srs_total_chunks ?t)
      = packet_count (length data) (unat (cp_packets_per_chunk params) * unat (cp_mtu_bytes params))"
    using t(2) by (simp add: sr_fits_def sr_data_def t(5-7) h(2))
  have cfg: "srs_cfg ?s = cfg" and wire0: "srs_wire ?s = []" by (simp_all add: SRSender_new_def)
  have lim: "unat ?lim = min (unat (srs_total_chunks ?t))
      (if cfg_max_inflight_chunks cfg \<noteq> 0 then unat (cfg_max_inflight_chunks cfg) else unat (srs_total_chunks ?t) mod 2 ^ 16)"
    unfolding t(9) cfg by (simp add: min_def word_le_nat_alt unat_ucast_mod)
  have dg: "sr_datagram ?t = (\<lambda>p. (cp_udp_server_port params, data_datagram (cp_transfer_id params)
      (sh_msg_id h) (cp_packets_per_chunk params) (unat (cp_mtu_bytes params)) data p))"
    by (simp add: fun_eq_iff sr_datagram_def t(5-8) h(2) conn Let_def)
  have "srs_wire s' = map (sr_datagram ?t) [0..<min (unat ?lim * unat (cp_packets_per_chunk params))
      (packet_count (length data) (unat (cp_mtu_bytes params)))]"
    unfolding s'(3) chunks_concat t(4) wire0 by (simp add: t(5-7) sr_data_def h(2))
  moreover have "acked s' = {}" using t(3) sr_keeps_fields(7) [OF s'(2)] by (simp add: acked_def)
  moreover have "unat (srs_total_chunks s') = unat (srs_total_chunks ?t)" using sr_keeps_fields(2) [OF s'(2)] by simp
  ultimately show ?thesis
    using sr_keeps_inv [OF s'(2) t(1)] unfolding Let_def run dg lim total
    by (intro exI [of _ "\<lparr> sst_rc = 0, sst_sender = s', sst_host = sp_host SP, sst_out = sp_out SP,
          sst_rest = sp_rest SP \<rparr>"] exI [of _ h]) (simp add: h(1))
qed

theorem sr_start_sends_window_witness:
  "\<exists>r m. sr_start_send demo_sr_sys (SRSender_new demo_sr_cfg) demo_host demo_sconn (Some [10, 20, 30, 40, 50]) 5
      [EvData (message_image (\<lambda>_. 0) demo_cts)] demo_ssys = Ret r \<and> sst_rc r = 0
    \<and> map snd (srs_wire (sst_sender r))
        = [data_datagram 1 m 2 2 [10, 20, 30, 40, 50] 0, data_datagram 1 m 2 2 [10, 20, 30, 40, 50] 1]"
proof -
  have cts: "valid_message demo_cts" "wanted CTS demo_cts" "cp_mtu_bytes (cm_params demo_cts) \<noteq> 0"
    "cp_packets_per_chunk (cm_params demo_cts) \<noteq> 0"
    by (simp_all add: demo_cts_def demo_params_def valid_message_def wf_message_def wf_params_def zero_message_def
        zero_params_def wanted_def)
  obtain SP where SP: "sdr_send_post demo_host (set_auto_send_data False demo_sconn) True
      (Some [10, 20, 30, 40, 50]) 5 True [EvData (message_image (\<lambda>_. 0) demo_cts)] demo_ssys = Ret SP"
    "sp_rc SP = 0" "demo_params = cc_params (sc_connection_ctx (sp_conn SP))"
    using quiet_post_ok [OF demo_ready(2) cts, of demo_host "\<lambda>_. 0" "[]"] demo_cts by metis
  have p: "unat (cp_mtu_bytes demo_params) = 2" "unat (cp_packets_per_chunk demo_params) = 2"
    "cp_transfer_id demo_params = 1" by (simp_all add: demo_params_def)
  have net: "\<forall>i. sy_socket demo_sr_sys i \<ge> 0" "\<forall>ip. sy_inet_pton demo_sr_sys ip > 0"
    by (simp_all add: demo_sr_sys_def)
  have w: "unat (cfg_max_inflight_chunks demo_sr_cfg) = 1" "cfg_max_inflight_chunks demo_sr_cfg \<noteq> 0"
    by (simp_all add: demo_sr_cfg_def)
  have "cp_packets_per_chunk demo_params = 2" by (simp add: demo_params_def)
  then show ?thesis
    using sr_start_sends_window [OF SP(1,2) _ _ SP(3) _ _ net, where cfg = demo_sr_cfg]
    by (auto simp: p w Let_def upt_rec packet_count_def min_def)
qed

text \<open>C30: What the sender does with each control message.  COMPLETE_ACK ends \<open>poll\<close> with success and
  INCOMPLETE_NACK with failure.  SR_NACK (with at most the 16 gaps a message has room for) and SR_ACK are handled
  without a fault, keep the sender's invariant and mark exactly the chunks of the message's bitmap and
  cumulative count as acknowledged, besides those that were; SR_NACK then goes on polling, SR_ACK does
  so unless the cumulative count has reached the announced total.\<close>

theorem sr_poll_dispatch:
  assumes on: "sr_online s conn cl" and m: "valid_message m"
  shows "(wanted COMPLETE_ACK m \<longrightarrow> (\<exists>s'. sr_poll sys s (EvData (message_image pad m) # evs) = Ret (0, s', evs)))
    \<and> (wanted INCOMPLETE_NACK m \<longrightarrow> sr_poll sys s (EvData (message_image pad m) # evs) = Ret (- 1, s, evs))
    \<and> (wanted SR_NACK m \<and> unat (cm_num_gaps m) \<le> 16 \<longrightarrow>
        (\<exists>s'. sr_poll sys s (EvData (message_image pad m) # evs) = sr_poll sys s' evs \<and> sr_online s' conn cl
          \<and> acked s' = acked s \<union> acks_of m (unat (srs_total_chunks s)) \<and> srs_total_chunks s' = srs_total_chunks s))
    \<and> (wanted SR_ACK m \<longrightarrow>
        (\<exists>s'. sr_poll sys s (EvData (message_image pad m) # evs)
            = (if cp_max_inflight (cm_params m) + 1 \<ge> ucast (cp_total_chunks (cm_params m)) then Ret (0, s', evs)
               else sr_poll sys s' evs)
          \<and> sr_online s' conn cl
          \<and> acked s' = acked s \<union> acks_of m (unat (srs_total_chunks s)) \<and> srs_total_chunks s' = srs_total_chunks s))"
proof -
  have inv: "sr_inv s" using on by (simp add: sr_online_def)
  have wf: "wf_message m" using m by (simp add: valid_message_def)
  note step = sr_poll.simps [of sys s "EvData (message_image pad m) # evs", unfolded poll_step_message [OF on m]]
  have keep: "sr_online s' conn cl" if "sr_acks A s s'" for A s'
    using on sr_acks_fields [OF that] by (simp add: sr_online_def)
  obtain s1 where s1: "on_sr_ack sys m s
      = Some (cp_max_inflight (cm_params m) + 1 \<ge> ucast (cp_total_chunks (cm_params m)), s1)"
    "sr_acks (acks_of m (unat (srs_total_chunks s))) s s1" using on_sr_ack_acks [OF inv wf] by blast
  have "\<exists>s'. sr_poll sys s (EvData (message_image pad m) # evs) = sr_poll sys s' evs \<and> sr_online s' conn cl
          \<and> acked s' = acked s \<union> acks_of m (unat (srs_total_chunks s)) \<and> srs_total_chunks s' = srs_total_chunks s"
    if g: "wanted SR_NACK m" "unat (cm_num_gaps m) \<le> 16"
  proof -
    obtain s' where s': "on_sr_nack sys m s = Some s'" "sr_acks (acks_of m (unat (srs_total_chunks s))) s s'"
      using on_sr_nack_acks [OF inv wf g(2)] by blast
    have "on_message sys conn cl m s evs = Ret (None, s', evs)" using g(1) s'(1) by (simp add: on_message_def wanted_def)
    with step keep [OF s'(2)] sr_acks_fields [OF s'(2)] show ?thesis by auto
  qed
  moreover have "wanted SR_ACK m \<Longrightarrow> on_message sys conn cl m s evs
      = Ret (if cp_max_inflight (cm_params m) + 1 \<ge> ucast (cp_total_chunks (cm_params m)) then Some 0 else None, s1, evs)"
    by (simp add: on_message_def s1(1))
  ultimately show ?thesis
    using step keep [OF s1(2)] sr_acks_fields(1,2) [OF s1(2)]
    by (auto simp: on_message_def wanted_def)
qed

definition demo_nack :: ControlMessage where
  "demo_nack = zero_message\<lparr>cm_magic := CTL_MAGIC_VALUE, cm_msg_type := ctl_code SR_NACK\<rparr>"

lemma demo_nack_ok: "valid_message demo_nack" "wanted SR_NACK demo_nack" "cm_num_gaps demo_nack = 0"
  "acks_of demo_nack 2 = {0}"
  by (auto simp: demo_nack_def valid_message_def wf_message_def zero_message_def wanted_def acks_of_def zero_params_def
      wf_params_def bits_of_def)

theorem sr_poll_dispatch_witness:
  "\<exists>s'. sr_poll demo_sr_sys demo_sender [EvData (message_image (\<lambda>_. 0) demo_nack)] = sr_poll demo_sr_sys s' []
    \<and> sr_inv s' \<and> acked s' = {0}"
proof -
  obtain conn where c: "sr_online demo_sender conn (TCPControlClient_new\<lparr>is_connected := True\<rparr>)"
    using demo_sender_ok by (auto simp: sr_online_def)
  have T: "unat (srs_total_chunks demo_sender) = 2" by (simp add: demo_sender_ok(4))
  show ?thesis
    using sr_poll_dispatch [OF c demo_nack_ok(1), of demo_sr_sys "\<lambda>_. 0" "[]"] demo_nack_ok(2,3,4) demo_sender_ok(3)
    unfolding T by (auto simp: sr_online_def)
qed

text \<open>C31: \<open>poll\<close> always comes to an end.  When the control connection presents any finite sequence of
  arrivals and then closes or fails, \<open>poll\<close> does not wait forever: the loop leaves, and if it
  returns, the sender's invariant holds and no acknowledged chunk has been forgotten.\<close>

theorem sr_poll_ends:
  assumes "sr_inv s" and "stream_ends evs"
  shows "sr_poll sys s evs \<noteq> Blocked
    \<and> (\<forall>rc s' evs'. sr_poll sys s evs = Ret (rc, s', evs') \<longrightarrow> sr_inv s' \<and> acked s \<subseteq> acked s')"
proof -
  have "sr_ending s evs" using assms by (simp add: sr_ending_def)
  then have "sr_poll sys s evs \<noteq> Blocked
    \<and> (\<forall>rc s' evs'. sr_poll sys s evs = Ret (rc, s', evs') \<longrightarrow> sr_ending s' evs' \<and> acked s \<subseteq> acked s')"
  proof (induction sys s evs rule: sr_poll.induct)
    case (1 sys s evs)
    note e = sr_poll_step_ends [OF "1.prems", of sys]
    show ?case
    proof (cases "sr_poll_step sys s evs")
      case (Ret x)
      obtain r s1 evs1 where x: "x = (r, s1, evs1)" by (rule prod_cases3)
      have s1: "sr_ending s1 evs1" "acked s \<subseteq> acked s1" using e(2) Ret x by auto
      show ?thesis
      proof (cases r)
        case None
        then have "sr_poll sys s evs = sr_poll sys s1 evs1" by (simp add: sr_poll.simps [of sys s evs] Ret x)
        with "1.IH" [OF Ret x [symmetric] None HOL.refl s1(1)] s1(2) show ?thesis by (simp, blast)
      qed (simp add: sr_poll.simps [of sys s evs] Ret x s1)
    qed (use e(1) in \<open>simp_all add: sr_poll.simps [of sys s evs]\<close>)
  qed
  then show ?thesis by (auto simp: sr_ending_def)
qed

theorem sr_poll_ends_witness:
  "sr_poll demo_sr_sys demo_sender [EvTimeout, EvData [1, 2, 3], EvClosed] \<noteq> Blocked"
  using sr_poll_ends [OF demo_sender_ok(1), of "[EvTimeout, EvData [1, 2, 3], EvClosed]"]
  by (simp add: stream_ends_def)

text \<open>C32: \<open>poll\<close> reports success when the connection is lost.  If the peer closes the control connection,
  at once or after a receive timeout and any number of further timeouts and messages that are not
  completions, \<open>poll\<close> returns 0 like for a COMPLETE_ACK, although nothing was acknowledged.  Messages
  that arrive after the timeout, SR_NACKs among them, are skipped: no chunk is acknowledged by them.\<close>

theorem sr_poll_lost_reports_success:
  assumes on: "sr_online s conn cl" and skip: "\<forall>ev\<in>set skipped. skippable is_completion ev"
  shows "(\<exists>s'. sr_poll sys s (EvClosed # evs) = Ret (0, s', evs) \<and> acked s' = acked s)
    \<and> (\<exists>s'. sr_poll sys s (EvTimeout # skipped @ EvClosed # evs) = Ret (0, s', evs) \<and> acked s' = acked s)"
proof -
  have cl: "is_connected cl" "sr_inv s" using on by (simp_all add: sr_online_def)
  have gone: "on_no_message sys conn' c s1 evs = Ret (Some 0, set_client (Some c) conn' s1, evs)"
    if "\<not> is_connected c" for conn' c s1
    using that by (simp add: on_no_message_def sdr_send_poll_def Let_def)
  have lost: "sr_poll_step sys s (EvClosed # evs)
      = Ret (Some 0, set_client (Some (cl\<lparr>is_connected := False\<rparr>)) conn s, evs)"
    by (subst poll_step_no_message [OF on, of _ zero_message "cl\<lparr>is_connected := False\<rparr>" evs])
      (simp_all add: client_receive_def cl gone)
  have first: "sr_poll_step sys s (EvTimeout # skipped @ EvClosed # evs) = on_no_message sys conn cl s (skipped @ EvClosed # evs)"
    by (rule poll_step_no_message [OF on]) (simp add: client_receive_def cl)
  obtain c where c: "await_msg client_receive is_connected is_completion cl zero_message (skipped @ EvClosed # evs)
      = Some (None, c, evs)" "\<not> is_connected c"
    using client_channel.await_lost [OF cl(1) skip, of EvClosed] by blast
  let ?s = "set_client (Some c) conn s" let ?t = "?s\<lparr>srs_readings := srs_readings ?s + 1\<rparr>"
  have "sr_inv ?t" using set_client_inv [OF cl(2), of "Some c" conn] by (simp add: sr_inv_def)
  then obtain t' where t': "for_while 0 (srs_total_chunks ?t) (\<lambda>_. True)
      (rto_chunk sys (sy_now sys (srs_readings ?s)) (effective_rto_ms (srs_cfg ?t))) ?t = Some t'" "sr_keeps ?t t'"
    "sr_inv t'" using rto_loop_keeps sr_keeps_inv by blast
  have go: "on_no_message sys conn cl s (skipped @ EvClosed # evs) = Ret (None, t', evs)"
    using t'(1) cl(1) c(1) by (simp add: on_no_message_def sdr_send_poll_def Let_def read_clock_def)
  obtain h where h: "srs_send_handle t' = Some h" using t'(3) by (auto simp: sr_inv_def)
  have conn: "srs_conn t' = Some (conn\<lparr>sc_tcp_client := Some c\<rparr>)" using sr_keeps_fields(9) [OF t'(2)] by simp
  have last: "sr_poll_step sys t' evs = Ret (Some 0, set_client (Some c) (conn\<lparr>sc_tcp_client := Some c\<rparr>) t', evs)"
    by (simp add: sr_poll_step_def h conn client_receive_def c(2) gone)
  have "acked t' = acked s" using sr_keeps_fields(7) [OF t'(2)] by (simp add: acked_def set_client_def)
  then show ?thesis
    by (simp add: sr_poll.simps [of sys s] lost first go sr_poll.simps [of sys t'] last)
qed

theorem sr_poll_lost_reports_success_witness:
  "\<exists>s'. sr_poll demo_sr_sys demo_sender [EvTimeout, EvData (message_image (\<lambda>_. 0) demo_nack), EvClosed] = Ret (0, s', [])
    \<and> acked s' = {}"
proof -
  obtain conn where c: "sr_online demo_sender conn (TCPControlClient_new\<lparr>is_connected := True\<rparr>)"
    using demo_sender_ok by (auto simp: sr_online_def)
  have "\<not> is_completion demo_nack" using demo_nack_ok(2) by (simp add: is_completion_def wanted_def)
  then have s: "\<forall>ev\<in>set [EvData (message_image (\<lambda>_. 0) demo_nack)]. skippable is_completion ev"
    using demo_nack_ok(1) by (simp add: skippable.intros)
  show ?thesis
    using sr_poll_lost_reports_success [OF c s, of demo_sr_sys "[]"] demo_sender_ok(3) by simp
qed

text \<open>C33: A NACK can make the sender read outside a message.  The number of gaps is taken from the
  network unchecked: a valid SR_NACK that announces more than the 16 gaps the message has, all
  empty, makes the walk read \<open>gap_start[16]\<close>.\<close>

theorem sr_nack_overrun:
  assumes on: "sr_online s conn cl" and m: "valid_message m" "wanted SR_NACK m"
    and gaps: "16 < unat (cm_num_gaps m)" "cm_gap_len m = replicate 16 0"
  shows "sr_poll sys s (EvData (message_image pad m) # evs) = Crash"
proof -
  have wf: "wf_message m" using m by (simp add: valid_message_def)
  let ?s = "s\<lparr>srs_stats := (srs_stats s)\<lparr>stat_nacks_sent := stat_nacks_sent (srs_stats s) + 1\<rparr>\<rparr>"
  have "sr_inv ?s" using on by (auto simp: sr_online_def sr_inv_def)
  from apply_feedback_acks [OF this wf] obtain s1 where s1: "apply_feedback m ?s = Some s1" by blast
  have "for_while 0 (cm_num_gaps m) (\<lambda>(sent, s). sent < gap_limit) (retransmit_gap sys m) (0, s1) = None"
  proof (rule for_while_fault [where j = 16])
    fix k :: nat assume k: "k < 16"
    have u: "unat (of_nat k :: u16) = k" using k by (simp add: unat_of_nat_small)
    have "\<not> (g :: u32) < min g t" for g t by simp
    then show "retransmit_gap sys m (of_nat k) (0, s1) = Some (0, s1)"
      using k wf by (simp add: retransmit_gap_def u gaps(2) wf_message_def Let_def)
  next
    have "unat (of_nat 16 :: u16) = 16" by simp
    then show "retransmit_gap sys m (of_nat 16) (0, s1) = None"
      using wf by (simp add: retransmit_gap_def wf_message_def)
  qed (use gaps(1) in \<open>simp_all add: gap_limit_def\<close>)
  then have "on_message sys conn cl m s evs = Crash"
    using m(2) by (simp add: on_message_def wanted_def on_sr_nack_def Let_def s1)
  then show ?thesis
    by (simp add: sr_poll.simps [of sys s] poll_step_message [OF on m(1)])
qed

theorem sr_nack_overrun_witness:
  "sr_poll demo_sr_sys demo_sender [EvData (message_image (\<lambda>_. 0) (demo_nack\<lparr>cm_num_gaps := 17\<rparr>))] = Crash"
proof -
  obtain conn where c: "sr_online demo_sender conn (TCPControlClient_new\<lparr>is_connected := True\<rparr>)"
    using demo_sender_ok by (auto simp: sr_online_def)
  have "valid_message (demo_nack\<lparr>cm_num_gaps := 17\<rparr>)" "wanted SR_NACK (demo_nack\<lparr>cm_num_gaps := 17\<rparr>)"
    using demo_nack_ok(1,2) by (simp_all add: valid_message_def wf_message_def wanted_def)
  then show ?thesis
    by (rule sr_nack_overrun [OF c]) (simp_all add: demo_nack_def zero_message_def)
qed

end
