(* ===== verification/SR_Feedback.thy ===== *)
theory SR_Feedback
  imports Selective_Repeat
begin

text \<open>
  The receiver of the selective-repeat layer (\<open>SRReceiver\<close> of \<open>reliability/sr.h\<close> and
  \<open>reliability/sr.cpp\<close>): what \<open>pump\<close> reads off the chunk bitmap and sends, and how it fits together with
  the sender.
\<close>

section \<open>Receiver\<close>

record SRReceiver =
  srr_cfg :: SRConfig
  srr_stats :: SRStats
  srr_recv_handle :: "SDRRecvHandle option"
  srr_conn :: "SDRConnection option"

definition SRReceiver_new :: "SRConfig \<Rightarrow> SRReceiver" where
  "SRReceiver_new cfg =
     \<lparr> srr_cfg = cfg, srr_stats = SRStats_new, srr_recv_handle = None, srr_conn = None \<rparr>"

definition sr_post_receive ::
    "SRReceiver \<Rightarrow> Host \<Rightarrow> SDRConnection \<Rightarrow> BufRef \<Rightarrow> u64 \<Rightarrow> NetEvent list \<Rightarrow> RecvPostSys
      \<Rightarrow> (RecvPost \<times> SRReceiver) run" where
  "sr_post_receive r host conn buffer len evs psys =
     run_bind (sdr_recv_post host conn True buffer len True evs psys)
       (\<lambda>RP. let r = r\<lparr>srr_conn := Some (rp_conn RP)\<rparr>
             in Ret (RP, if rp_rc RP \<noteq> 0 then r else r\<lparr>srr_recv_handle := rp_handle RP\<rparr>))"

text \<open>
  The scans of \<open>pump\<close> over the chunk bitmap, taken as it is at the time of the call.  First the
  highest chunk up to which all are complete, \<open>- 1\<close> if there is none.
\<close>

definition cumulative_scan :: "FrontendBitmap \<Rightarrow> u32 \<Rightarrow> int option" where
  "cumulative_scan f total_chunks =
     loop_result (for_exit 0 total_chunks
       (\<lambda>c idx. case frontend_is_chunk_complete f c of
          None \<Rightarrow> Inl None
        | Some True \<Rightarrow> Inr (idx + 1)
        | Some False \<Rightarrow> Inl (Some idx)) (- 1))"

definition bitmap_snapshot :: "FrontendBitmap \<Rightarrow> u32 \<Rightarrow> u64 list option" where
  "bitmap_snapshot f total_chunks =
     for_while 0 (min total_chunks 512) (\<lambda>_. True)
       (\<lambda>c words. case frontend_is_chunk_complete f c of
          None \<Rightarrow> None
        | Some False \<Rightarrow> Some words
        | Some True \<Rightarrow>
            (let w = c div 64; b = c mod 64
             in if w < 8 then Some (words[unat w := words ! unat w OR push_bit (unat b) 1]) else Some words))
       (replicate 8 0)"

text \<open>
  The run of missing chunks from \<open>c\<close> on, as long as \<open>more\<close> allows: its length and where it ends.
\<close>

definition missing_run ::
    "FrontendBitmap \<Rightarrow> u32 \<Rightarrow> ('l::len word \<Rightarrow> bool) \<Rightarrow> u32 \<Rightarrow> ('l word \<times> u32) option" where
  "missing_run f total_chunks more_room c =
     (case for_exit c total_chunks
        (\<lambda>c len. case frontend_is_chunk_complete f c of
           None \<Rightarrow> Inl None
         | Some True \<Rightarrow> Inl (Some (len, c))
         | Some False \<Rightarrow> (if more_room len then Inr (len + 1) else Inl (Some (len, c)))) 0
      of Inl r \<Rightarrow> r | Inr len \<Rightarrow> Some (len, max c total_chunks))"

text \<open>The first gap and its length, \<open>(0, 0)\<close> if there is none.\<close>

definition first_gap :: "FrontendBitmap \<Rightarrow> u32 \<Rightarrow> (u32 \<times> u32) option" where
  "first_gap f total_chunks =
     (case for_exit 0 total_chunks
        (\<lambda>c u. case frontend_is_chunk_complete f c of
           None \<Rightarrow> Inl None
         | Some True \<Rightarrow> Inr u
         | Some False \<Rightarrow> Inl (map_option (\<lambda>(run, _). (c, run)) (missing_run f total_chunks (\<lambda>_. True) c))) ()
      of Inl r \<Rightarrow> r | Inr _ \<Rightarrow> Some (0, 0))"

text \<open>Up to four gaps; the chunk at which a run ended is passed over.\<close>

function gap_scan :: "FrontendBitmap \<Rightarrow> u32 \<Rightarrow> u32 \<Rightarrow> (u16 \<times> u16) list \<Rightarrow> (u16 \<times> u16) list option" where
  "gap_scan f total_chunks c gaps =
     (if c < total_chunks \<and> length gaps < 4
      then (case frontend_is_chunk_complete f c of
              None \<Rightarrow> None
            | Some True \<Rightarrow> gap_scan f total_chunks (c + 1) gaps
            | Some False \<Rightarrow>
                (case missing_run f total_chunks (\<lambda>len. len < - 1) c of
                   None \<Rightarrow> None
                 | Some (len, c') \<Rightarrow> gap_scan f total_chunks (c' + 1) (gaps @ [(ucast c, len)])))
      else Some gaps)"
  by pat_completeness auto
termination
  by (relation "measures [\<lambda>(f, t, c, g). 4 - length g, \<lambda>(f, t, c, g). unat t - unat c]")
    (auto simp: unat_Suc_less word_less_nat_alt)

declare gap_scan.simps [simp del]

definition feedback_message ::
    "u32 \<Rightarrow> u32 \<Rightarrow> int \<Rightarrow> u64 list \<Rightarrow> (u16 \<times> u16) list \<Rightarrow> ControlMessage" where
  "feedback_message conn_id total_chunks cumulative_idx words gaps =
     (let word_count = min ((total_chunks + 63) div 64) 8;
          n = unat word_count
      in zero_message\<lparr>cm_magic := CTL_MAGIC_VALUE, cm_connection_id := conn_id,
           cm_params := zero_params\<lparr>cp_total_chunks := ucast total_chunks,
             cp_max_inflight := (if cumulative_idx \<ge> 0 then of_int cumulative_idx else - 1)\<rparr>,
           cm_chunk_bitmap_words := ucast word_count,
           cm_chunk_bitmap := take n words @ drop n (cm_chunk_bitmap zero_message),
           cm_num_gaps := of_nat (length gaps),
           cm_gap_start := map fst gaps @ drop (length gaps) (cm_gap_start zero_message),
           cm_gap_len := map snd gaps @ drop (length gaps) (cm_gap_len zero_message)\<rparr>)"

definition nack_message :: "ControlMessage \<Rightarrow> u32 \<times> u32 \<Rightarrow> ControlMessage" where
  "nack_message msg gap =
     msg\<lparr>cm_msg_type := ctl_code SR_NACK,
         cm_params := (cm_params msg)\<lparr>cp_rto_ms := fst gap, cp_rtt_alpha_ms := snd gap\<rparr>\<rparr>"

text \<open>
  What \<open>pump\<close> decides to send, the kind of statistics it counts, and its answer, from the chunk bitmap.
  The code reads the live bitmap once for each part of the message and reads the count again for its
  answer; here all of them read one snapshot \<open>f\<close>, as if the poller marked nothing meanwhile.
\<close>

datatype Feedback = Nack ControlMessage | CompleteAck ControlMessage | Ack ControlMessage

definition feedback_of :: "u32 \<Rightarrow> u32 \<Rightarrow> FrontendBitmap \<Rightarrow> Feedback option" where
  "feedback_of conn_id total_chunks f =
     (case (cumulative_scan f total_chunks, bitmap_snapshot f total_chunks, first_gap f total_chunks,
            gap_scan f total_chunks 0 [], get_total_chunks_completed f) of
        (Some idx, Some words, Some gap, Some gaps, Some completed) \<Rightarrow>
          (let msg = feedback_message conn_id total_chunks idx words gaps
           in if snd gap > 0 then Some (Nack (nack_message msg gap))
              else if completed \<ge> total_chunks
              then Some (CompleteAck (msg\<lparr>cm_msg_type := ctl_code COMPLETE_ACK\<rparr>))
              else Some (Ack (msg\<lparr>cm_msg_type := ctl_code SR_ACK\<rparr>)))
      | _ \<Rightarrow> None)"

text \<open>The answer of \<open>pump\<close>, the receiver, the function's static clock value, and what was sent.\<close>

record Pump =
  pu_complete :: bool
  pu_receiver :: SRReceiver
  pu_last_ctrl :: "int option"
  pu_out :: "u8 list"

definition ctrl_interval :: "SRConfig \<Rightarrow> u32" where
  "ctrl_interval cfg =
     (if cfg_nack_delay_ms cfg \<noteq> 0 then cfg_nack_delay_ms cfg else max (cfg_base_rtt_ms cfg div 2) 50)"

text \<open>
  \<open>first_now\<close> initialises the static \<open>last_ctrl\<close> in the first call that reaches it; it is shared by all
  receivers of the process.  \<open>sent\<close> and \<open>pad\<close> are the result of \<open>send\<close> and the padding bytes.
\<close>

definition pump ::
    "SRReceiver \<Rightarrow> int option \<Rightarrow> int \<Rightarrow> int \<Rightarrow> int \<Rightarrow> padding \<Rightarrow> Pump run" where
  "pump r last_ctrl first_now now sent pad =
     (let result = \<lparr> pu_complete = False, pu_receiver = r, pu_last_ctrl = last_ctrl, pu_out = [] \<rparr> in
      case (srr_recv_handle r, srr_conn r) of
        (Some handle, Some conn) \<Rightarrow>
          (case sc_tcp_server conn of
             None \<Rightarrow> Ret result
           | Some srv \<Rightarrow>
               (let last_sent = (case last_ctrl of None \<Rightarrow> first_now | Some t \<Rightarrow> t);
                    result = result\<lparr>pu_last_ctrl := Some last_sent\<rparr>
                in if elapsed_ms now last_sent < int (unat (ctrl_interval (srr_cfg r))) then Ret result
                   else
                     let result = result\<lparr>pu_last_ctrl := Some now\<rparr> in
                     run_bind (sdr_recv_bitmap_get conn (Some handle) True True)
                       (\<lambda>(rc, _, _).
                          if rc \<noteq> 0 then Ret result
                          else case deref_ctx conn handle of
                              None \<Rightarrow> Crash
                            | Some mc \<Rightarrow>
                                (case mc_frontend mc of
                                   None \<Rightarrow> Ret result
                                 | Some f \<Rightarrow>
                                     (let st = srr_stats r;
                                          send = (\<lambda>msg. snd (server_send srv pad msg sent));
                                          total_chunks = (ucast (mc_total_chunks mc) :: u32);
                                          nacks = r\<lparr>srr_stats := st\<lparr>stat_nacks_sent := stat_nacks_sent st + 1\<rparr>\<rparr>;
                                          acks = r\<lparr>srr_stats := st\<lparr>stat_acks_sent := stat_acks_sent st + 1\<rparr>\<rparr>
                                      in case feedback_of (cc_connection_id (sc_connection_ctx conn)) total_chunks f of
                                           None \<Rightarrow> Crash
                                         | Some (Nack msg) \<Rightarrow>
                                             Ret (result\<lparr>pu_receiver := nacks, pu_out := send msg,
                                               pu_complete := the (get_total_chunks_completed f) \<ge> total_chunks\<rparr>)
                                         | Some (CompleteAck msg) \<Rightarrow>
                                             Ret (result\<lparr>pu_receiver := acks, pu_out := send msg, pu_complete := True\<rparr>)
                                         | Some (Ack msg) \<Rightarrow>
                                             Ret (result\<lparr>pu_receiver := acks, pu_out := send msg,
                                               pu_complete := the (get_total_chunks_completed f) \<ge> total_chunks\<rparr>))))))
      | _ \<Rightarrow> Ret result)"

section \<open>What the scans find\<close>

definition missing :: "FrontendBitmap \<Rightarrow> u32 \<Rightarrow> nat set" where
  "missing f total_chunks = {c. c < unat total_chunks \<and> c \<notin> marked f}"

lemma finite_missing [simp]: "finite (missing f tc)"
  by (simp add: missing_def)

lemma is_complete_at:
  assumes "fb_wf f" and "k < unat (tc :: u32)"
  shows "frontend_is_chunk_complete f (of_nat k) = Some (k \<in> marked f)"
  using frontend_is_chunk_complete_eq [OF assms(1), of "of_nat k"] unat_of_nat_below [OF assms(2)] by simp

lemma cumulative_scan_eq:
  assumes wf: "fb_wf f"
  shows "\<exists>n \<le> unat tc. cumulative_scan f tc = Some (int n - 1) \<and> {..<n} \<subseteq> marked f
    \<and> (n < unat tc \<longrightarrow> n \<notin> marked f)"
proof -
  let ?f = "\<lambda>c idx. case frontend_is_chunk_complete f c of None \<Rightarrow> Inl None
      | Some True \<Rightarrow> Inr (idx + 1) | Some False \<Rightarrow> Inl (Some (idx :: int))"
  let ?P = "\<lambda>k idx. idx = int k - 1 \<and> {..<k} \<subseteq> marked f"
  let ?Q = "\<lambda>e. \<exists>n < unat tc. e = Some (int n - 1) \<and> {..<n} \<subseteq> marked f \<and> n \<notin> marked f"
  have "case for_exit 0 tc ?f (- 1) of Inr idx \<Rightarrow> ?P (unat tc) idx | Inl e \<Rightarrow> ?Q e"
    by (rule for_exit_rule)
      (auto simp: is_complete_at [OF wf] lessThan_Suc less_Suc_eq split: bool.splits if_splits)
  then show ?thesis
    unfolding cumulative_scan_def by (cases "for_exit 0 tc ?f (- 1)") (auto intro: exI [of _ "unat tc"])
qed

lemma bitmap_snapshot_eq:
  assumes wf: "fb_wf f"
  shows "\<exists>ws. bitmap_snapshot f tc = Some ws \<and> length ws = 8
    \<and> bits_of ws = marked f \<inter> {..<min (unat tc) 512}"
proof -
  let ?f = "\<lambda>c words. case frontend_is_chunk_complete f c of None \<Rightarrow> None | Some False \<Rightarrow> Some words
      | Some True \<Rightarrow> (let w = c div 64; b = c mod 64
          in if w < 8 then Some (words[unat w := words ! unat w OR push_bit (unat b) 1]) else Some words)"
  let ?P = "\<lambda>k ws. length ws = 8 \<and> bits_of ws = marked f \<inter> {..<k}"
  have un: "unat (min tc 512) = min (unat tc) 512" by (simp add: min_def word_le_nat_alt)
  have "\<exists>ws j. for_while 0 (min tc 512) (\<lambda>_. True) ?f (replicate 8 0) = Some ws \<and> unat (0 :: u32) \<le> j
      \<and> j \<le> unat (min tc 512) \<and> ?P j ws \<and> (j = unat (min tc 512) \<or> \<not> True)"
  proof (rule for_while_total)
    fix k ws assume k: "k < unat (min tc 512)" and P: "?P k ws"
    have u: "unat (of_nat k :: u32) = k" using k by (rule unat_of_nat_below)
    have k512: "k < 512" "k < unat tc" using k by (simp_all add: un)
    then have w: "of_nat k div 64 < (8 :: u32)" by (simp add: word_less_nat_alt unat_div u)
    have "bits_of (ws[k div 64 := ws ! (k div 64) OR push_bit (k mod 64) 1]) = insert k (bits_of ws)"
      using bits_of_or [of k ws] P k512 by simp
    then show "\<exists>ws'. ?f (of_nat k) ws = Some ws' \<and> ?P (Suc k) ws'"
      using P w by (auto simp: is_complete_at [OF wf k512(2)] unat_div unat_mod u lessThan_Suc split: bool.split)
  qed simp_all
  then show ?thesis by (auto simp: bitmap_snapshot_def un)
qed

lemma missing_run_eq:
  assumes wf: "fb_wf f" and c: "unat c \<le> unat tc"
    and room: "\<And>k. k < unat tc - unat c \<Longrightarrow> more_room (of_nat k :: 'l::len word)"
  shows "\<exists>n c'. missing_run f tc more_room c = Some (of_nat n :: 'l word, c') \<and> unat c' = unat c + n
    \<and> unat c + n \<le> unat tc \<and> {unat c..<unat c + n} \<inter> marked f = {}
    \<and> (unat c + n < unat tc \<longrightarrow> unat c + n \<in> marked f)"
proof -
  let ?f = "\<lambda>c len. case frontend_is_chunk_complete f c of None \<Rightarrow> Inl None | Some True \<Rightarrow> Inl (Some (len, c))
      | Some False \<Rightarrow> (if more_room len then Inr (len + 1) else Inl (Some (len :: 'l word, c)))"
  let ?P = "\<lambda>k len. unat c \<le> k \<and> len = of_nat (k - unat c) \<and> {unat c..<k} \<inter> marked f = {}"
  let ?Q = "\<lambda>e. \<exists>n c'. e = Some (of_nat n, c') \<and> unat c' = unat c + n \<and> unat c + n < unat tc
      \<and> {unat c..<unat c + n} \<inter> marked f = {} \<and> unat c + n \<in> marked f"
  have "case for_exit c tc ?f 0 of Inr len \<Rightarrow> ?P (unat tc) len | Inl e \<Rightarrow> ?Q e"
  proof (rule for_exit_rule)
    fix k len len' assume k: "unat c \<le> k" "k < unat tc" and P: "?P k len" and f: "?f (of_nat k) len = Inr len'"
    then have "k \<notin> marked f" "len' = len + 1"
      by (auto simp: is_complete_at [OF wf k(2)] split: bool.splits if_splits)
    with k P show "?P (Suc k) len'" by (auto simp: less_Suc_eq Suc_diff_le)
  next
    fix k len e assume k: "unat c \<le> k" "k < unat tc" and P: "?P k len" and f: "?f (of_nat k) len = Inl e"
    have "k - unat c < unat tc - unat c" using k by linarith
    with P have "more_room len" using room by blast
    then have "k \<in> marked f" "e = Some (len, of_nat k)"
      using f by (auto simp: is_complete_at [OF wf k(2)] split: bool.splits if_splits)
    with k P unat_of_nat_below [OF k(2)] show "?Q e"
      by (intro exI [of _ "k - unat c"] exI [of _ "of_nat k"]) simp
  qed (use c in \<open>simp_all add: word_le_nat_alt\<close>)
  note outcome = this
  have m: "max c tc = tc" using c by (simp add: max_def word_le_nat_alt)
  show ?thesis
  proof (cases "for_exit c tc ?f 0")
    case (Inr len)
    then have l: "len = of_nat (unat tc - unat c)" "{unat c..<unat tc} \<inter> marked f = {}" using outcome by simp_all
    show ?thesis
      unfolding missing_run_def Inr sum.case m l(1)
      by (intro exI [of _ "unat tc - unat c"] exI [of _ tc] conjI HOL.refl) (use c l(2) in auto)
  next
    case (Inl e)
    then have "?Q e" using outcome by simp
    then show ?thesis unfolding missing_run_def Inl sum.case by (auto dest: order_less_imp_le)
  qed
qed

lemma unat_max: "unat (- 1 :: u16) = 65535" "unat (- 1 :: u32) = 4294967295"
  by (simp_all add: unsigned_minus_1_eq_mask mask_eq_exp_minus_1)

text \<open>The gaps found so far cover the missing chunks below \<open>c\<close>, each once.\<close>

definition gaps_ok :: "FrontendBitmap \<Rightarrow> u32 \<Rightarrow> nat \<Rightarrow> (u16 \<times> u16) list \<Rightarrow> bool" where
  "gaps_ok f tc c gaps \<longleftrightarrow> gaps_cover gaps = missing f tc \<inter> {..<c} \<and> length gaps \<le> card (gaps_cover gaps)
     \<and> sum_list (map (unat \<circ> snd) gaps) = card (gaps_cover gaps)"

lemma run_missing: "{a..<a + n} \<inter> D = {} \<Longrightarrow> a + n \<le> t \<Longrightarrow> {a..<a + n} \<subseteq> {c. c < t \<and> c \<notin> (D :: nat set)}"
  by auto

lemma run_extends:
  assumes "G = M \<inter> {..<a}" and "{a..<a + n} \<subseteq> M" and "a + n \<notin> (M :: nat set)"
  shows "G \<inter> {a..<a + n} = {}" and "G \<union> {a..<a + n} = M \<inter> {..<Suc (a + n)}"
  using assms by (auto simp: less_Suc_eq not_less)

lemma gap_scan_eq:
  assumes wf: "fb_wf f" and tc: "unat tc < 2 ^ 16"
    and ok: "gaps_ok f tc (unat c) gaps" "length gaps \<le> 4" "unat c \<le> unat tc + 1"
  shows "\<exists>gaps' c'. gap_scan f tc c gaps = Some gaps' \<and> length gaps' \<le> 4 \<and> gaps_ok f tc c' gaps'
    \<and> (length gaps' < 4 \<longrightarrow> unat tc \<le> c')"
  using assms
proof (induction f tc c gaps rule: gap_scan.induct)
  case (1 f tc c gaps)
  note ok = "1.prems"
  show ?case
  proof (cases "c < tc \<and> length gaps < 4")
    case False
    then show ?thesis
      using ok by (intro exI [of _ gaps] exI [of _ "unat c"]) (auto simp: gap_scan.simps [of f tc c gaps] word_less_nat_alt)
  next
    case True
    then have lt: "unat c < unat tc" by (simp add: word_less_nat_alt)
    have suc: "unat (c + 1) = Suc (unat c)" using True unat_Suc_less by blast
    note complete = frontend_is_chunk_complete_eq [OF "1.prems"(1), of c]
    show ?thesis
    proof (cases "unat c \<in> marked f")
      case c: True
      have same: "missing f tc \<inter> {..<Suc (unat c)} = missing f tc \<inter> {..<unat c}"
        using c by (auto simp: missing_def less_Suc_eq)
      have "gaps_ok f tc (unat (c + 1)) gaps" using ok(3) unfolding gaps_ok_def suc same .
      with "1.IH"(1) [OF True] complete c ok lt suc show ?thesis
        by (simp add: gap_scan.simps [of f tc c gaps] True)
    next
      case c: False
      have "(of_nat k :: u16) < - 1" if "k < unat tc - unat c" for k
        using that ok(2) by (simp add: word_less_nat_alt unat_of_nat_small unat_max)
      from missing_run_eq [where more_room = "\<lambda>len :: u16. len < - 1", OF ok(1) order_less_imp_le [OF lt] this]
      obtain n c' where r: "missing_run f tc (\<lambda>len. len < - 1) c = Some (of_nat n :: u16, c')" "unat c' = unat c + n"
        "unat c + n \<le> unat tc" "{unat c..<unat c + n} \<inter> marked f = {}" "unat c + n < unat tc \<longrightarrow> unat c + n \<in> marked f"
        by blast
      have n: "0 < n" using r(5) c lt by (cases n) auto
      have un: "unat (of_nat n :: u16) = n" "unat (ucast c :: u16) = unat c"
        using r(3) ok(2) by (simp_all add: unat_of_nat_small unat_ucast_mod)
      have s': "unat (c' + 1) = Suc (unat c + n)"
        using r(2,3) ok(2) by (simp add: unat_word_ariths(1))
      let ?g = "gaps @ [(ucast c, of_nat n)]"
      have cov: "gaps_cover gaps = missing f tc \<inter> {..<unat c}" using ok(3) by (simp add: gaps_ok_def)
      have "{unat c..<unat c + n} \<subseteq> missing f tc"
        unfolding missing_def by (rule run_missing [OF r(4,3)])
      moreover have "unat c + n \<notin> missing f tc" using r(5) unfolding missing_def by blast
      ultimately have disj: "gaps_cover gaps \<inter> {unat c..<unat c + n} = {}"
        and cov': "gaps_cover ?g = missing f tc \<inter> {..<Suc (unat c + n)}"
        unfolding gaps_cover_simps un by (rule run_extends [OF cov])+
      have old: "length gaps \<le> card (gaps_cover gaps)" "sum_list (map (unat \<circ> snd) gaps) = card (gaps_cover gaps)"
        using ok(3) unfolding gaps_ok_def by blast+
      have card: "card (gaps_cover ?g) = card (gaps_cover gaps) + n"
        using disj by (simp add: un card_Un_disjoint cov)
      have "length ?g \<le> card (gaps_cover ?g)" using old(1) n card by simp
      moreover have "sum_list (map (unat \<circ> snd) ?g) = card (gaps_cover ?g)" using old(2) card by (simp add: un)
      ultimately have "gaps_ok f tc (unat (c' + 1)) ?g"
        unfolding gaps_ok_def s' using cov' by blast
      from "1.IH"(2) [OF True _ _ r(1) HOL.refl ok(1,2) this] complete c ok(4) r(2,3) s' True r(1) show ?thesis
        by (simp add: gap_scan.simps [of f tc c gaps])
    qed
  qed
qed

lemma first_gap_eq:
  assumes wf: "fb_wf f"
  shows "\<exists>s n. first_gap f tc = Some (s, n) \<and> (if missing f tc = {} then s = 0 \<and> n = 0
    else 0 < n \<and> {..<unat s} \<subseteq> marked f \<and> {unat s..<unat s + unat n} \<subseteq> missing f tc)"
proof -
  let ?f = "\<lambda>c u. case frontend_is_chunk_complete f c of None \<Rightarrow> Inl None | Some True \<Rightarrow> Inr u
      | Some False \<Rightarrow> Inl (map_option (\<lambda>(run, _). (c, run)) (missing_run f tc (\<lambda>_ :: u32. True) c))"
  let ?Q = "\<lambda>e. \<exists>s n. e = Some (s, n) \<and> 0 < n \<and> {..<unat s} \<subseteq> marked f \<and> {unat s..<unat s + unat n} \<subseteq> missing f tc"
  have "case for_exit 0 tc ?f () of Inr u \<Rightarrow> {..<unat tc} \<subseteq> marked f | Inl e \<Rightarrow> ?Q e"
  proof (rule for_exit_rule [where P = "\<lambda>k u. {..<k} \<subseteq> marked f"])
    fix k u u' assume "k < unat tc" "{..<k} \<subseteq> marked f" "?f (of_nat k) u = Inr u'"
    then show "{..<Suc k} \<subseteq> marked f"
      by (auto simp: is_complete_at [OF wf] less_Suc_eq split: bool.splits)
  next
    fix k u e assume k: "k < unat tc" and P: "{..<k} \<subseteq> marked f" and e: "?f (of_nat k) u = Inl e"
    have c: "unat (of_nat k :: u32) = k" using k by (rule unat_of_nat_below)
    have nm: "k \<notin> marked f" and e: "e = map_option (\<lambda>(run, _). (of_nat k, run)) (missing_run f tc (\<lambda>_ :: u32. True) (of_nat k))"
      using e by (auto simp: is_complete_at [OF wf k] split: bool.splits)
    obtain n c' where r: "missing_run f tc (\<lambda>_. True) (of_nat k) = Some (of_nat n :: u32, c')" "k + n \<le> unat tc"
      "{k..<k + n} \<inter> marked f = {}" "k + n < unat tc \<longrightarrow> k + n \<in> marked f"
      using missing_run_eq [OF wf, of "of_nat k" tc "\<lambda>_ :: u32. True"] k unfolding c by auto
    have n: "0 < n" using r(4) nm k by (cases n) auto
    have un: "unat (of_nat n :: u32) = n"
      by (rule unat_of_nat_small) (use r(2) unat_width(5) [of tc] in simp)
    have "{k..<k + n} \<subseteq> missing f tc" unfolding missing_def by (rule run_missing [OF r(3,2)])
    moreover have "(0 :: u32) < of_nat n" using n un by (simp add: word_less_nat_alt)
    ultimately show "?Q e" using P e r(1) by (intro exI [of _ "of_nat k"] exI [of _ "of_nat n"]) (simp add: c un)
  qed simp_all
  note outcome = this
  show ?thesis
  proof (cases "for_exit 0 tc ?f ()")
    case (Inr u)
    then have "missing f tc = {}" using outcome by (auto simp: missing_def)
    then show ?thesis unfolding first_gap_def Inr sum.case by (intro exI [of _ 0]) simp
  next
    case (Inl e)
    then obtain s n where q: "e = Some (s, n)" "0 < n" "{..<unat s} \<subseteq> marked f"
      "{unat s..<unat s + unat n} \<subseteq> missing f tc" using outcome by auto
    have "unat s \<in> {unat s..<unat s + unat n}" using q(2) by (simp add: word_less_nat_alt)
    then have "missing f tc \<noteq> {}" using q(4) by blast
    then show ?thesis unfolding first_gap_def Inl sum.case using q by (intro exI [of _ s] exI [of _ n]) simp
  qed
qed

lemma feedback_message_fields:
  fixes cid :: u32
  assumes "length ws = 8" and "length gaps \<le> 4" and "unat tc < 2 ^ 16"
    and "bits_of ws = D \<inter> {..<min (unat tc) 512}" and "n \<le> unat tc"
  defines "m \<equiv> feedback_message cid tc (int n - 1) ws gaps"
  shows "wf_message m" and "cm_magic m = CTL_MAGIC_VALUE" and "msg_gaps m = gaps" and "unat (cm_num_gaps m) = length gaps"
    and "acks_of m (unat tc) = D \<inter> {..<min (unat tc) 512} \<union> {..<n}"
proof -
  let ?w = "min ((tc + 63) div 64) 8 :: u32"
  have w: "unat ?w = min ((unat tc + 63) div 64) 8"
    using assms(3) by (simp add: min_def word_le_nat_alt unat_div unat_word_ariths(1))
  then have w16: "unat (ucast ?w :: u16) = unat ?w" by (simp add: unat_ucast_mod)
  have z: "length (cm_chunk_bitmap zero_message) = 16" "length (cm_gap_start zero_message) = 16"
    "length (cm_gap_len zero_message) = 16" by (simp_all add: zero_message_def)
  show "wf_message m"
    using assms(1,2) w z
    by (simp add: m_def feedback_message_def Let_def wf_message_def wf_params_def zero_params_def zero_message_def min_def)
  show "cm_magic m = CTL_MAGIC_VALUE" by (simp add: m_def feedback_message_def Let_def)
  show ng: "unat (cm_num_gaps m) = length gaps"
    using assms(2) by (simp add: m_def feedback_message_def Let_def unat_of_nat_small)
  show "msg_gaps m = gaps"
    unfolding msg_gaps_def ng by (simp add: m_def feedback_message_def Let_def zip_append zip_map_fst_snd)
  have bm: "take (min (unat (cm_chunk_bitmap_words m)) 8) (cm_chunk_bitmap m) = take (unat ?w) ws"
    using assms(1) w w16 by (simp add: m_def feedback_message_def Let_def)
  have "c div 64 < unat ?w" if "c < min (unat tc) 512" for c
    unfolding w using that by (simp add: div_less_iff_less_mult) linarith
  then have bits: "bits_of (take (unat ?w) ws) = bits_of ws"
    using assms(4) by (auto simp: bits_of_def)
  have cum: "(if cp_max_inflight (cm_params m) = - 1 then {} else {..unat (cp_max_inflight (cm_params m))}) = {..<n}"
  proof (cases n)
    case 0
    then show ?thesis by (simp add: m_def feedback_message_def Let_def)
  next
    case (Suc k)
    have "unat (of_nat k :: u32) = k" using Suc assms(3,5) by (intro unat_of_nat_small) simp
    moreover have "(of_nat k :: u32) \<noteq> - 1"
    proof
      assume "(of_nat k :: u32) = - 1"
      then have "k = 4294967295" using calculation unat_max(2) by simp
      then show False using Suc assms(3,5) by simp
    qed
    ultimately show ?thesis using Suc by (simp add: m_def feedback_message_def Let_def lessThan_Suc_atMost)
  qed
  show "acks_of m (unat tc) = D \<inter> {..<min (unat tc) 512} \<union> {..<n}"
    unfolding acks_of_def bm bits cum assms(4) using assms(5) by auto
qed

text \<open>What a NACK says about the chunk bitmap.\<close>

definition nack_tells :: "FrontendBitmap \<Rightarrow> u32 \<Rightarrow> ControlMessage \<Rightarrow> bool" where
  "nack_tells f tc m \<longleftrightarrow> valid_message m \<and> wanted SR_NACK m
     \<and> acks_of m (unat tc) \<subseteq> marked f \<and> marked f \<inter> {..<min (unat tc) 512} \<subseteq> acks_of m (unat tc)
     \<and> unat (cm_num_gaps m) \<le> 4 \<and> length (msg_gaps m) = unat (cm_num_gaps m)
     \<and> gaps_cover (msg_gaps m) \<subseteq> missing f tc
     \<and> sum_list (map (unat \<circ> snd) (msg_gaps m)) = card (gaps_cover (msg_gaps m))
     \<and> (card (missing f tc) \<le> 4 \<longrightarrow> gaps_cover (msg_gaps m) = missing f tc)
     \<and> {..<unat (cp_rto_ms (cm_params m))} \<subseteq> marked f
     \<and> unat (cp_rto_ms (cm_params m)) \<in> missing f tc"

lemma gaps_ok_all:
  assumes "gaps_ok f tc c gaps" and "length gaps \<le> 4" and "length gaps < 4 \<longrightarrow> unat tc \<le> c"
    and "card (missing f tc) \<le> 4"
  shows "gaps_cover gaps = missing f tc"
proof (cases "length gaps < 4")
  case True
  then have "missing f tc \<inter> {..<c} = missing f tc" using assms(3) by (auto simp: missing_def)
  then show ?thesis using assms(1) by (simp add: gaps_ok_def)
next
  case False
  have sub: "gaps_cover gaps \<subseteq> missing f tc" using assms(1) by (simp add: gaps_ok_def)
  have "length gaps \<le> card (gaps_cover gaps)" using assms(1) unfolding gaps_ok_def by blast
  then have "card (missing f tc) \<le> card (gaps_cover gaps)" using assms(2,4) False by linarith
  then show ?thesis using sub by (intro card_seteq) simp_all
qed

lemma feedback_of_eq:
  assumes wf: "fb_wf f" and tc: "tc = fb_total_chunks f" "unat tc < 2 ^ 16"
  shows "if missing f tc = {}
    then \<exists>m. feedback_of cid tc f = Some (CompleteAck m) \<and> valid_message m \<and> wanted COMPLETE_ACK m
    else \<exists>m. feedback_of cid tc f = Some (Nack m) \<and> nack_tells f tc m"
proof -
  obtain n where n: "n \<le> unat tc" "cumulative_scan f tc = Some (int n - 1)" "{..<n} \<subseteq> marked f"
    using cumulative_scan_eq [OF wf] by blast
  obtain ws where ws: "bitmap_snapshot f tc = Some ws" "length ws = 8" "bits_of ws = marked f \<inter> {..<min (unat tc) 512}"
    using bitmap_snapshot_eq [OF wf] by blast
  obtain s g where s: "first_gap f tc = Some (s, g)" "if missing f tc = {} then s = 0 \<and> g = 0
    else 0 < g \<and> {..<unat s} \<subseteq> marked f \<and> {unat s..<unat s + unat g} \<subseteq> missing f tc"
    using first_gap_eq [OF wf] by blast
  have "gaps_ok f tc (unat (0 :: u32)) []" by (simp add: gaps_ok_def)
  from gap_scan_eq [OF wf tc(2) this] obtain gaps c where gaps: "gap_scan f tc 0 [] = Some gaps" "length gaps \<le> 4"
    "gaps_ok f tc c gaps" "length gaps < 4 \<longrightarrow> unat tc \<le> c" by auto
  let ?m = "feedback_message cid tc (int n - 1) ws gaps"
  note m = feedback_message_fields [OF ws(2) gaps(2) tc(2) ws(3) n(1), of cid]
  have count: "get_total_chunks_completed f = Some (of_nat (card (marked f)))" by (rule count_marked_eq(1) [OF wf])
  have fb: "feedback_of cid tc f = (if snd (s, g) > 0 then Some (Nack (nack_message ?m (s, g)))
      else if of_nat (card (marked f)) \<ge> tc then Some (CompleteAck (?m\<lparr>cm_msg_type := ctl_code COMPLETE_ACK\<rparr>))
      else Some (Ack (?m\<lparr>cm_msg_type := ctl_code SR_ACK\<rparr>)))"
    unfolding feedback_of_def n(2) ws(1) s(1) gaps(1) count by (simp add: Let_def)
  show ?thesis
  proof (cases "missing f tc = {}")
    case True
    then have "{..<unat tc} \<subseteq> marked f" by (auto simp: missing_def)
    then have "marked f = {..<unat tc}" using wf by (auto simp: fb_wf_def tc(1))
    then have "of_nat (card (marked f)) = tc" by simp
    then show ?thesis using True s(2) fb m(1,2)
      by (simp add: valid_message_def wf_message_def wanted_def)
  next
    case False
    then have pos: "0 < g" and first: "{..<unat s} \<subseteq> marked f" "{unat s..<unat s + unat g} \<subseteq> missing f tc"
      using s(2) by simp_all
    have "unat s \<in> {unat s..<unat s + unat g}" using pos by (simp add: word_less_nat_alt)
    then have smiss: "unat s \<in> missing f tc" using first(2) by blast
    let ?k = "nack_message ?m (s, g)"
    have k: "msg_gaps ?k = gaps" "cm_num_gaps ?k = cm_num_gaps ?m" "acks_of ?k (unat tc) = acks_of ?m (unat tc)"
      "cp_rto_ms (cm_params ?k) = s" "valid_message ?k" "wanted SR_NACK ?k"
      using m(1-3) by (simp_all add: nack_message_def msg_gaps_def acks_of_def valid_message_def wf_message_def
          wf_params_def wanted_def)
    have "gaps_cover gaps \<subseteq> missing f tc" "sum_list (map (unat \<circ> snd) gaps) = card (gaps_cover gaps)"
      using gaps(3) unfolding gaps_ok_def by blast+
    then have "nack_tells f tc ?k"
      unfolding nack_tells_def k m(4,5)
      using n(3) gaps(2) gaps_ok_all [OF gaps(3,2,4)] first(1) smiss k(5,6) by auto
    with False fb pos show ?thesis by simp
  qed
qed

text \<open>A pump that is due, while chunks are missing.\<close>

lemma pump_nack:
  assumes r: "srr_recv_handle r = Some h" "srr_conn r = Some conn" "sc_tcp_server conn = Some srv" "server_alive srv"
    and mc: "deref_ctx conn h = Some mc" "mc_frontend mc = Some f" "fb_wf f"
      "ucast (mc_total_chunks mc) = fb_total_chunks f" "unat (fb_total_chunks f) < 2 ^ 16"
    and due: "int (unat (ctrl_interval (srr_cfg r))) \<le> elapsed_ms now t" and sent: "sent = int message_size"
    and some: "missing f (fb_total_chunks f) \<noteq> {}"
  shows "\<exists>p m. pump r (Some t) first_now now sent pad = Ret p \<and> pu_out p = message_image pad m
    \<and> pu_last_ctrl p = Some now \<and> \<not> pu_complete p \<and> nack_tells f (fb_total_chunks f) m"
proof -
  let ?tc = "fb_total_chunks f" and ?cid = "cc_connection_id (sc_connection_ctx conn)"
  have get: "sdr_recv_bitmap_get conn (Some h) True True = Ret (0, chunk_bitmap f, ucast (fb_num_words f) * 8)"
    by (simp add: sdr_recv_bitmap_get_def mc)
  have due': "\<not> elapsed_ms now t < uint (ctrl_interval (srr_cfg r))" using due by simp
  obtain m where m: "feedback_of ?cid ?tc f = Some (Nack m)" "nack_tells f ?tc m"
    using feedback_of_eq [OF mc(3) HOL.refl mc(5), of ?cid] some by auto
  then have "wf_message m" by (simp add: nack_tells_def valid_message_def)
  then have send: "snd (server_send srv pad m sent) = message_image pad m"
    using server_send_whole [OF r(4)] by (simp add: sent)
  obtain c where c: "c < unat ?tc" "c \<notin> marked f" using some by (auto simp: missing_def)
  have "marked f \<subseteq> {..<unat ?tc} - {c}" using mc(3) c by (auto simp: fb_wf_def)
  from card_mono [OF _ this] have "card (marked f) < unat ?tc" using c(1) by simp
  then have "\<not> ?tc \<le> (of_nat (card (marked f)) :: u32)" by (simp add: word_le_nat_alt unat_of_nat_below)
  then have "\<not> ?tc \<le> the (get_total_chunks_completed f)" by (simp add: count_marked_eq(1) [OF mc(3)])
  then show ?thesis
    using m by (simp add: pump_def r Let_def get mc due' send) blast
qed

section \<open>Properties\<close>

text \<open>C27: The receiver's feedback is truthful, about a chunk bitmap that the poller does not change during the call.
  For a message of fewer than \<open>2^16\<close> chunks whose control
  interval has passed, \<open>pump\<close> sends exactly one message and never an SR_ACK.  If no chunk is missing it is a COMPLETE_ACK and \<open>pump\<close>
  answers true; otherwise it is an SR_NACK and \<open>pump\<close> answers false.  The NACK acknowledges only marked chunks, and
  all of the first 512 that are; its start is the first missing chunk; its at most four gaps contain
  only missing chunks, and all of them if there are no more than four.\<close>

theorem pump_truthful:
  assumes r: "srr_recv_handle r = Some h" "srr_conn r = Some conn" "sc_tcp_server conn = Some srv" "server_alive srv"
    and mc: "deref_ctx conn h = Some mc" "mc_frontend mc = Some f" "fb_wf f"
      "ucast (mc_total_chunks mc) = fb_total_chunks f" "unat (fb_total_chunks f) < 2 ^ 16"
    and due: "int (unat (ctrl_interval (srr_cfg r))) \<le> elapsed_ms now t" and sent: "sent = int message_size"
  shows "\<exists>p m. pump r (Some t) first_now now sent pad = Ret p \<and> pu_out p = message_image pad m
    \<and> pu_last_ctrl p = Some now \<and> pu_complete p = (missing f (fb_total_chunks f) = {})
    \<and> (if missing f (fb_total_chunks f) = {} then valid_message m \<and> wanted COMPLETE_ACK m
       else nack_tells f (fb_total_chunks f) m)"
proof -
  let ?tc = "fb_total_chunks f" and ?cid = "cc_connection_id (sc_connection_ctx conn)"
  have get: "sdr_recv_bitmap_get conn (Some h) True True = Ret (0, chunk_bitmap f, ucast (fb_num_words f) * 8)"
    by (simp add: sdr_recv_bitmap_get_def mc)
  have send: "snd (server_send srv pad m sent) = message_image pad m" if "valid_message m" for m
    using that server_send_whole [OF r(4)] by (simp add: sent valid_message_def)
  have due': "\<not> elapsed_ms now t < uint (ctrl_interval (srr_cfg r))" using due by simp
  note fb = feedback_of_eq [OF mc(3) HOL.refl mc(5), of ?cid]
  show ?thesis
  proof (cases "missing f ?tc = {}")
    case True
    then obtain m where m: "feedback_of ?cid ?tc f = Some (CompleteAck m)" "valid_message m" "wanted COMPLETE_ACK m"
      using fb by auto
    show ?thesis
      using m True by (simp add: pump_def r Let_def get mc due' send) blast
  next
    case False
    then show ?thesis using pump_nack [OF r mc due sent False, of first_now pad] by auto
  qed
qed

theorem pump_truthful_witness:
  "\<exists>p m. pump ((SRReceiver_new demo_sr_cfg)\<lparr>srr_recv_handle := Some demo_handle, srr_conn := Some demo_posted\<rparr>)
      (Some 0) 0 100000000 288 (\<lambda>_. 0) = Ret p \<and> pu_out p = message_image (\<lambda>_. 0) m
    \<and> \<not> pu_complete p \<and> wanted SR_NACK m \<and> gaps_cover (msg_gaps m) = {0, 1}"
proof -
  let ?r = "(SRReceiver_new demo_sr_cfg)\<lparr>srr_recv_handle := Some demo_handle, srr_conn := Some demo_posted\<rparr>"
  obtain mc f where m: "deref_ctx demo_posted demo_handle = Some mc" "mc_frontend mc = Some f" "fb_wf f"
    "marked f = {}" "mc_total_chunks mc = 2" "fb_total_chunks f = 2" using demo_posted_ctx by blast
  have r: "srr_recv_handle ?r = Some demo_handle" "srr_conn ?r = Some demo_posted"
    "sc_tcp_server demo_posted = Some (TCPControlServer_new\<lparr>client_fd := 5\<rparr>)"
    "server_alive (TCPControlServer_new\<lparr>client_fd := 5\<rparr>)"
    by (simp_all add: demo_posted_def demo_rconn_def server_alive_def)
  have due: "int (unat (ctrl_interval (srr_cfg ?r))) \<le> elapsed_ms 100000000 0"
    by (simp add: ctrl_interval_def SRReceiver_new_def demo_sr_cfg_def elapsed_ms_def signed_divide_int_def)
  have total: "ucast (mc_total_chunks mc) = fb_total_chunks f" "unat (fb_total_chunks f) < 2 ^ 16"
    by (simp_all add: m(5,6))
  have "missing f (fb_total_chunks f) = {0, 1}" by (auto simp: missing_def m(4,6) less_2_cases_iff)
  moreover from this have "missing f (fb_total_chunks f) \<noteq> {}" "card (missing f (fb_total_chunks f)) \<le> 4" by simp_all
  ultimately show ?thesis
    using pump_truthful [OF r m(1-3) total due, of 288 0 "\<lambda>_. 0"]
    unfolding nack_tells_def message_size_def by (metis (no_types, lifting) of_nat_numeral)
qed

end
