(* ===== verification/SR_Round.thy ===== *)
theory SR_Round
  imports SR_Feedback
begin

text \<open>
  One round of the selective-repeat protocol: what the sender does with the NACK of a receiver, and
  what the packets it sends again do there.  The chunks that \<open>pump\<close> reports are followed through the
  gap walk of \<open>poll\<close> (\<open>reliability/sr.cpp\<close>) back to the receive buffer.
\<close>

section \<open>The gap walk sends what it is told\<close>

text \<open>What has been given to \<open>sendto\<close> between \<open>s\<close> and \<open>t\<close>.\<close>

definition new_wire :: "SRSender \<Rightarrow> SRSender \<Rightarrow> (u16 \<times> u8 list) list" where
  "new_wire s t = drop (length (srs_wire s)) (srs_wire t)"

lemma new_wire_append:
  assumes "sr_keeps s t" and "srs_wire t' = srs_wire t @ w"
  shows "new_wire s t' = new_wire s t @ w"
proof -
  obtain v where "srs_wire t = srs_wire s @ v" using sr_keeps_fields(11) [OF assms(1)] by blast
  then show ?thesis using assms(2) by (simp add: new_wire_def)
qed

text \<open>
  The chunks of \<open>M\<close> have been given to \<open>sendto\<close> between \<open>s\<close> and \<open>t\<close>; of the others the time of the last
  transmission is what it was.
\<close>

definition resent :: "SRSender \<Rightarrow> nat set \<Rightarrow> SRSender \<Rightarrow> bool" where
  "resent s M t \<longleftrightarrow> sr_keeps s t \<and> srs_readings s \<le> srs_readings t
     \<and> (\<forall>c\<in>M. set (map (sr_datagram s) (sr_chunk s c)) \<subseteq> set (new_wire s t))
     \<and> (\<forall>c. c < unat (srs_total_chunks s) \<and> c \<notin> M \<longrightarrow> srs_last_tx t ! c = srs_last_tx s ! c)"

text \<open>The chunks of \<open>X\<close> are not acknowledged and are out of the guard interval at every later reading.\<close>

definition due_chunks :: "SRSys \<Rightarrow> SRSender \<Rightarrow> nat set \<Rightarrow> bool" where
  "due_chunks sys s X \<longleftrightarrow> (\<forall>c\<in>X. c < unat (srs_total_chunks s) \<and> c \<notin> acked s
     \<and> (\<forall>i \<ge> srs_readings s. guard_ms \<le> elapsed_ms (sy_now sys i) (srs_last_tx s ! c)))"

lemma resent_start: "resent s {} s"
  by (simp add: resent_def)

lemma resent_keeps: "resent s M t \<Longrightarrow> sr_keeps s t"
  by (simp add: resent_def)

lemma resent_more:
  assumes "resent s M t" and "sr_keeps t t'" and "c \<in> M"
  shows "set (map (sr_datagram s) (sr_chunk s c)) \<subseteq> set (new_wire s t')"
proof -
  obtain w where "srs_wire t' = srs_wire t @ w" using sr_keeps_fields(11) [OF assms(2)] by blast
  from new_wire_append [OF resent_keeps [OF assms(1)] this] show ?thesis
    using assms(1,3) by (auto simp: resent_def)
qed

text \<open>One chunk of a gap.\<close>

lemma gap_chunk_resends:
  assumes inv: "sr_inv s" and fits: "sr_fits s"
    and net: "\<forall>i. sy_socket sys i \<ge> 0" "\<forall>ip. sy_inet_pton sys ip > 0"
    and due: "due_chunks sys s X" and k: "k \<in> X" and t: "resent s M t" and n: "unat n < 8"
  shows "\<exists>n' t'. retransmit_gap_chunk sys (of_nat k) (n, t) = Some (n', t') \<and> resent s (insert k M) t'
    \<and> unat n' \<le> unat n + 1"
proof -
  have keep: "sr_keeps s t" using t by (rule resent_keeps)
  have kT: "k < unat (srs_total_chunks t)" and un: "k \<notin> acked t"
    using due k sr_keeps_fields(2,7) [OF keep] by (auto simp: due_chunks_def acked_def)
  have c: "unat (of_nat k :: u32) = k" using kT by (rule unat_of_nat_below)
  have invt: "sr_inv t" using sr_keeps_inv [OF keep inv] .
  let ?now = "sy_now sys (srs_readings t)" and ?t = "t\<lparr>srs_readings := srs_readings t + 1\<rparr>"
  have get: "arr_get (srs_chunk_acked t) k = Some False" "arr_get (srs_last_tx t) k = Some (srs_last_tx t ! k)"
    using invt kT un by (simp_all add: sr_inv_def acked_def)
  have step: "retransmit_gap_chunk sys (of_nat k) (n, t) = (if elapsed_ms ?now (srs_last_tx t ! k) < guard_ms
      then Some (n, ?t) else map_option (\<lambda>t. (n + 1, t)) (retransmit_range sys (of_nat k) 1 ?t))"
    by (simp add: retransmit_gap_chunk_def read_clock_def retransmit_unacked_def c get)
  have n1: "unat (n + 1) = unat n + 1" using n by (simp add: unat_word_ariths(1))
  show ?thesis
  proof (cases "elapsed_ms ?now (srs_last_tx t ! k) < guard_ms")
    case True
    have "k \<in> M"
    proof (rule ccontr)
      assume "k \<notin> M"
      then have "srs_last_tx t ! k = srs_last_tx s ! k" and "srs_readings s \<le> srs_readings t"
        using t kT sr_keeps_fields(2) [OF keep] by (auto simp: resent_def)
      then show False using True due k unfolding due_chunks_def by (metis not_le)
    qed
    then have M: "insert k M = M" by blast
    have "sr_keeps s ?t" using keep sr_keeps_trans sr_sent_keeps sr_sent_steps(2) by blast
    then have "resent s M ?t" using t by (simp add: resent_def new_wire_def)
    then show ?thesis using True step M by (intro exI [of _ n] exI [of _ ?t]) simp
  next
    case False
    have kt: "sr_keeps s ?t" using keep sr_keeps_trans sr_sent_keeps sr_sent_steps(2) by blast
    have it: "sr_inv ?t" using sr_keeps_inv [OF kt inv] .
    note view = sr_sent_view [OF kt]
    have "sr_fits ?t" using fits view(4) by simp
    note ex = retransmit_range_exact [OF it this, of k sys]
    obtain t' where t': "retransmit_range sys (of_nat k) 1 ?t = Some t'" "sr_sent ?t t'"
      using retransmit_range_safe [OF it] by blast
    have fields: "srs_wire t' = srs_wire t @ map (sr_datagram s) (sr_chunk s k)"
        "srs_last_tx t' = (srs_last_tx t)[k := sy_now sys (srs_readings t + 1)]" "srs_readings t' = srs_readings t + 2"
      using ex t'(1) kT net view by auto
    have "resent s (insert k M) t'"
      unfolding resent_def
    proof (intro conjI)
      show "sr_keeps s t'" using sr_keeps_trans [OF kt sr_sent_keeps [OF t'(2)]] .
    qed (use t fields in \<open>auto simp: resent_def new_wire_append [OF keep fields(1)]\<close>)
    then show ?thesis using False step t'(1) n1 by (intro exI [of _ "n + 1"] exI [of _ t']) simp
  qed
qed

text \<open>A gap, and all gaps.\<close>

lemma gap_resends:
  assumes inv: "sr_inv s" and fits: "sr_fits s"
    and net: "\<forall>i. sy_socket sys i \<ge> 0" "\<forall>ip. sy_inet_pton sys ip > 0"
    and due: "due_chunks sys s X"
    and g: "arr_get (cm_gap_start msg) (unat i) = Some gs" "arr_get (cm_gap_len msg) (unat i) = Some gl"
    and X: "{unat gs..<unat gs + unat gl} \<subseteq> X" and t: "resent s M t" and n: "unat n + unat gl < 8"
  shows "\<exists>n' t'. retransmit_gap sys msg i (n, t) = Some (n', t') \<and> resent s (M \<union> {unat gs..<unat gs + unat gl}) t'
    \<and> unat n' \<le> unat n + unat gl"
proof -
  let ?gs = "ucast gs :: u32" and ?a = "unat gs" and ?l = "unat gl"
  let ?P = "\<lambda>j (m :: u32, t). resent s (M \<union> {?a..<j}) t \<and> unat m \<le> unat n + (j - ?a)"
  have T: "srs_total_chunks t = srs_total_chunks s" using sr_keeps_fields(2) [OF resent_keeps [OF t]] .
  have sum: "unat (?gs + ucast gl) = ?a + ?l"
    using unat_width(3) [of gs] n by (simp add: unat_word_ariths(1))
  have "?a + ?l \<le> unat (srs_total_chunks s)" if "0 < ?l"
  proof -
    have "?a + ?l - 1 \<in> X" using X that by (intro subsetD [OF X]) simp
    then have "?a + ?l - 1 < unat (srs_total_chunks s)" using due by (auto simp: due_chunks_def)
    then show ?thesis by linarith
  qed
  note inside = this
  show ?thesis
  proof (cases "?l = 0")
    case True
    then have "\<not> ?gs < min (?gs + ucast gl) (srs_total_chunks t)"
      using sum by (simp add: min_def word_less_nat_alt word_le_nat_alt)
    then have "retransmit_gap sys msg i (n, t) = Some (n, t)" by (simp add: retransmit_gap_def g Let_def)
    with t True show ?thesis by (intro exI [of _ n] exI [of _ t]) simp
  next
    case False
    have e: "min (?gs + ucast gl) (srs_total_chunks t) = ?gs + ucast gl"
      using inside False by (simp add: T min_def word_le_nat_alt sum)
    have "\<exists>st j. for_while ?gs (?gs + ucast gl) (\<lambda>(sent, s). sent < gap_limit) (retransmit_gap_chunk sys) (n, t) = Some st
        \<and> unat ?gs \<le> j \<and> j \<le> unat (?gs + ucast gl) \<and> ?P j st
        \<and> (j = unat (?gs + ucast gl) \<or> \<not> (\<lambda>(sent, s). sent < gap_limit) st)"
    proof (rule for_while_total)
      show "?P (unat ?gs) (n, t)" using t by simp
      show "?gs \<le> ?gs + ucast gl" unfolding word_le_nat_alt sum by simp
    next
      fix k and st :: "u32 \<times> SRSender"
      assume k: "unat ?gs \<le> k" "k < unat (?gs + ucast gl)" and g8: "(\<lambda>(sent, s). sent < gap_limit) st" and P: "?P k st"
      obtain m u where st: "st = (m, u)" by (cases st)
      have kX: "k \<in> X" by (rule subsetD [OF X]) (use k sum in simp)
      have "unat m < 8" using g8 by (simp add: st gap_limit_def word_less_nat_alt)
      moreover have "resent s (M \<union> {?a..<k}) u" using P by (simp add: st)
      ultimately obtain m' u' where u: "retransmit_gap_chunk sys (of_nat k) (m, u) = Some (m', u')"
        "resent s (insert k (M \<union> {?a..<k})) u'" "unat m' \<le> unat m + 1"
        using gap_chunk_resends [OF inv fits net due kX] by blast
      have "insert k (M \<union> {?a..<k}) = M \<union> {?a..<Suc k}" using k(1) by auto
      then show "\<exists>st'. retransmit_gap_chunk sys (of_nat k) st = Some st' \<and> ?P (Suc k) st'"
        using u P k(1) by (intro exI [of _ "(m', u')"]) (simp add: st Suc_diff_le)
    qed
    then obtain st j where st: "for_while ?gs (?gs + ucast gl) (\<lambda>(sent, s). sent < gap_limit) (retransmit_gap_chunk sys) (n, t)
        = Some st" "j \<le> unat (?gs + ucast gl)" "?P j st" "j = unat (?gs + ucast gl) \<or> \<not> (\<lambda>(sent, s). sent < gap_limit) st"
      by blast
    obtain m u where mu: "st = (m, u)" by (cases st)
    have "unat m \<le> unat n + (j - ?a)" using st(3) by (simp add: mu)
    then have "unat m < 8" using st(2) n unfolding sum by linarith
    then have "j = ?a + ?l" using st(4) sum by (simp add: mu gap_limit_def word_less_nat_alt)
    then have "resent s (M \<union> {?a..<?a + ?l}) u" "unat m \<le> unat n + ?l" using st(3) by (simp_all add: mu)
    then show ?thesis using st(1) by (simp add: retransmit_gap_def g Let_def e mu)
  qed
qed
lemma gaps_resend:
  assumes inv: "sr_inv s" and fits: "sr_fits s"
    and net: "\<forall>i. sy_socket sys i \<ge> 0" "\<forall>ip. sy_inet_pton sys ip > 0"
    and due: "due_chunks sys s X"
    and m: "wf_message msg" "unat (cm_num_gaps msg) \<le> 16" "gaps_cover (msg_gaps msg) \<subseteq> X"
      "sum_list (map (unat \<circ> snd) (msg_gaps msg)) < 8"
  shows "\<exists>n t. for_while 0 (cm_num_gaps msg) (\<lambda>(sent, s). sent < gap_limit) (retransmit_gap sys msg) (0, s) = Some (n, t)
    \<and> resent s (gaps_cover (msg_gaps msg)) t"
proof -
  let ?g = "msg_gaps msg" and ?N = "unat (cm_num_gaps msg)"
  let ?sum = "\<lambda>j. sum_list (map (unat \<circ> snd) (take j ?g))"
  let ?P = "\<lambda>j (n :: u32, t). resent s (gaps_cover (take j ?g)) t \<and> unat n \<le> ?sum j"
  have len: "length ?g = ?N" using m(1,2) by (simp add: msg_gaps_def wf_message_def)
  have small: "?sum j < 8" for j
  proof -
    have "?sum j \<le> sum_list (map (unat \<circ> snd) ?g)"
      by (subst (2) append_take_drop_id [of j, symmetric]) (simp only: map_append sum_list_append le_add1)
    then show ?thesis using m(4) by linarith
  qed
  have "\<exists>st j. for_while 0 (cm_num_gaps msg) (\<lambda>(sent, s). sent < gap_limit) (retransmit_gap sys msg) (0, s) = Some st
      \<and> unat (0 :: u16) \<le> j \<and> j \<le> ?N \<and> ?P j st \<and> (j = ?N \<or> \<not> (\<lambda>(sent, s). sent < gap_limit) st)"
  proof (rule for_while_total)
    show "?P (unat (0 :: u16)) (0, s)" by (simp add: resent_start)
  next
    fix k and st :: "u32 \<times> SRSender"
    assume k: "k < ?N" and P: "?P k st"
    obtain n t where st: "st = (n, t)" by (cases st)
    obtain gs gl where g: "?g ! k = (gs, gl)" by (cases "?g ! k")
    have Suc: "take (Suc k) ?g = take k ?g @ [(gs, gl)]" using k len g by (simp add: take_Suc_conv_app_nth)
    have i: "unat (of_nat k :: u16) = k" using k by (rule unat_of_nat_below)
    have k16: "k < 16" using k m(2) by linarith
    have "length (zip (cm_gap_start msg) (cm_gap_len msg)) = 16" using m(1) by (simp add: wf_message_def)
    then have "?g ! k = (cm_gap_start msg ! k, cm_gap_len msg ! k)"
      using k k16 by (simp add: msg_gaps_def)
    then have get: "arr_get (cm_gap_start msg) (unat (of_nat k :: u16)) = Some gs"
      "arr_get (cm_gap_len msg) (unat (of_nat k :: u16)) = Some gl"
      using k16 m(1) g by (simp_all add: i wf_message_def)
    have "(gs, gl) \<in> set ?g" using k len g nth_mem [of k ?g] by simp
    then have "{unat gs..<unat gs + unat gl} \<subseteq> gaps_cover ?g" by (auto simp: gaps_cover_def)
    then have X: "{unat gs..<unat gs + unat gl} \<subseteq> X" using m(3) by (rule subset_trans)
    have n8: "unat n + unat gl < 8" using P small [of "Suc k"] by (simp add: Suc st)
    have "resent s (gaps_cover (take k ?g)) t" using P by (simp add: st)
    from gap_resends [OF inv fits net due get X this n8]
    obtain n' t' where "retransmit_gap sys msg (of_nat k) (n, t) = Some (n', t')"
      "resent s (gaps_cover (take k ?g) \<union> {unat gs..<unat gs + unat gl}) t'" "unat n' \<le> unat n + unat gl" by blast
    then show "\<exists>st'. retransmit_gap sys msg (of_nat k) st = Some st' \<and> ?P (Suc k) st'"
      using P by (intro exI [of _ "(n', t')"]) (simp add: st Suc)
  qed simp
  then obtain st j where st: "for_while 0 (cm_num_gaps msg) (\<lambda>(sent, s). sent < gap_limit) (retransmit_gap sys msg) (0, s)
      = Some st" "?P j st" "j = ?N \<or> \<not> (\<lambda>(sent, s). sent < gap_limit) st" by blast
  obtain n t where nt: "st = (n, t)" by (cases st)
  have "unat n < 8" using st(2) small [of j] by (simp add: nt)
  then have "take j ?g = ?g" using st(3) len by (simp add: nt gap_limit_def word_less_nat_alt)
  then show ?thesis using st(1,2) by (simp add: nt)
qed

text \<open>The whole handler, for a NACK that reports every missing chunk.\<close>

lemma on_sr_nack_resends:
  assumes inv: "sr_inv s" and fits: "sr_fits s"
    and net: "\<forall>i. sy_socket sys i \<ge> 0" "\<forall>ip. sy_inet_pton sys ip > 0"
    and tells: "nack_tells f (srs_total_chunks s) m" and few: "card (missing f (srs_total_chunks s)) \<le> 4"
    and acks: "acked s \<subseteq> marked f" and due: "due_chunks sys s (missing f (srs_total_chunks s))"
  shows "\<exists>s'. on_sr_nack sys m s = Some s' \<and> sr_acks (acks_of m (unat (srs_total_chunks s))) s s'
    \<and> (\<forall>c \<in> missing f (srs_total_chunks s). \<forall>p \<in> set (sr_chunk s c). sr_datagram s p \<in> set (new_wire s s'))"
proof -
  let ?T = "unat (srs_total_chunks s)" and ?X = "missing f (srs_total_chunks s)"
  let ?s = "s\<lparr>srs_stats := (srs_stats s)\<lparr>stat_nacks_sent := stat_nacks_sent (srs_stats s) + 1\<rparr>\<rparr>"
  have t: "valid_message m" "acks_of m ?T \<subseteq> marked f" "unat (cm_num_gaps m) \<le> 4" "gaps_cover (msg_gaps m) = ?X"
    "sum_list (map (unat \<circ> snd) (msg_gaps m)) = card (gaps_cover (msg_gaps m))"
    using tells few by (simp_all add: nack_tells_def)
  have wf: "wf_message m" using t(1) by (simp add: valid_message_def)
  have "sr_inv ?s" using inv by (simp add: sr_inv_def)
  from apply_feedback_eq [OF this wf] obtain l b where
    l: "apply_feedback m ?s = Some (?s\<lparr>srs_chunk_acked := l, srs_ack_base := b\<rparr>)" "length l = ?T"
      "acked_list l = acked s \<union> acks_of m ?T" by (auto simp: acked_def)
  let ?s1 = "?s\<lparr>srs_chunk_acked := l, srs_ack_base := b\<rparr>"
  have i1: "sr_inv ?s1" using inv l(2) by (simp add: sr_inv_def)
  have view: "sr_datagram ?s1 = sr_datagram s" "sr_chunk ?s1 = sr_chunk s" "sr_fits ?s1 = sr_fits s"
    "new_wire ?s1 = new_wire s"
    by (simp_all add: fun_eq_iff sr_datagram_def sr_chunk_def sr_fits_def sr_data_def new_wire_def split: option.split)
  have "acked ?s1 \<subseteq> marked f" using l(3) acks t(2) by (simp add: acked_eq)
  then have due1: "due_chunks sys ?s1 ?X" using due by (auto simp: due_chunks_def missing_def)
  have sum: "sum_list (map (unat \<circ> snd) (msg_gaps m)) < 8" using t(4,5) few by simp
  obtain n s2 where s2: "for_while 0 (cm_num_gaps m) (\<lambda>(sent, s). sent < gap_limit) (retransmit_gap sys m) (0, ?s1)
      = Some (n, s2)" "resent ?s1 ?X s2"
    using gaps_resend [OF i1 _ net due1 wf _ _ sum] fits view(3) t(3,4) by auto
  note k2 = resent_keeps [OF s2(2)]
  obtain s3 where s3: "retransmit_missing_from_bitmap sys 4 s2 = Some s3" "sr_keeps s2 s3"
    using retransmit_missing_keeps [OF sr_keeps_inv [OF k2 i1]] by blast
  obtain s4 where s4: "advance_window sys s3 = Some s4" "sr_keeps s3 s4"
    using advance_window_keeps [OF sr_keeps_inv [OF s3(2) sr_keeps_inv [OF k2 i1]]] by blast
  have run: "on_sr_nack sys m s = Some s4" using l(1) s2(1) s3(1) s4(1) by (simp add: on_sr_nack_def Let_def)
  have "sr_acks (acks_of m ?T) s s4" using on_sr_nack_returns [OF inv wf run] .
  moreover have "sr_datagram s p \<in> set (new_wire s s4)" if "c \<in> ?X" "p \<in> set (sr_chunk s c)" for c p
    using resent_more [OF s2(2) sr_keeps_trans [OF s3(2) s4(2)] that(1)] that(2) unfolding view by auto
  ultimately show ?thesis using run by blast
qed

section \<open>Back at the receiver\<close>

text \<open>The receiver's message, as the sender addresses it, with the buffer \<open>b\<close> that held \<open>old\<close> at first.\<close>

definition transfer_target :: "SRSender \<Rightarrow> nat \<Rightarrow> u8 list \<Rightarrow> Target" where
  "transfer_target s b old =
     (case (srs_conn s, srs_send_handle s) of
        (Some conn, Some h) \<Rightarrow>
          sender_target (cp_transfer_id (cc_params (sc_connection_ctx conn))) (sh_msg_id h)
            (unat (srs_mtu_bytes s)) (sr_data s) b old
      | _ \<Rightarrow> sender_target 0 0 0 [] b old)"

text \<open>
  A receiver in the middle of a transfer: its handle leads to the message whose datagrams arrive, with
  the frontend \<open>f\<close> and \<open>ppc\<close> packets to a chunk, and only chunks that are received are marked.
\<close>

definition pump_ready :: "SRReceiver \<Rightarrow> FrontendBitmap \<Rightarrow> u16 \<Rightarrow> Target \<Rightarrow> RecvState \<Rightarrow> bool" where
  "pump_ready r f ppc T rs \<longleftrightarrow> rx_inv T rs \<and> fb_wf f \<and> unat (fb_total_chunks f) < 2 ^ 16
     \<and> (\<exists>h conn srv mc bb. srr_recv_handle r = Some h \<and> srr_conn r = Some conn
          \<and> sc_tcp_server conn = Some srv \<and> server_alive srv \<and> sc_connection_ctx conn = rs_conn rs
          \<and> deref_ctx conn h = Some mc \<and> fst (rh_msg_ctx h) = slot_of T
          \<and> mc_frontend mc = Some f \<and> ucast (mc_total_chunks mc) = fb_total_chunks f
          \<and> mc_backend mc = Some bb \<and> bb_packets_per_chunk bb = ppc
          \<and> (\<forall>c \<in> marked f. chunk_packets bb c \<subseteq> received bb))"

lemma sr_datagram_snd:
  assumes "srs_conn s = Some conn" and "srs_send_handle s = Some h"
  shows "snd (sr_datagram s p) = data_datagram (cp_transfer_id (cc_params (sc_connection_ctx conn))) (sh_msg_id h)
    (srs_packets_per_chunk s) (unat (srs_mtu_bytes s)) (sr_data s) p"
  by (simp add: sr_datagram_def sr_data_def assms Let_def)

text \<open>Every packet belongs to a chunk of the message.\<close>

lemma packet_chunk:
  assumes fits: "sr_fits s" and mtu: "srs_mtu_bytes s \<noteq> 0" and p: "p * unat (srs_mtu_bytes s) < length (sr_data s)"
  shows "p div unat (srs_packets_per_chunk s) < unat (srs_total_chunks s)"
    and "p \<in> set (sr_chunk s (p div unat (srs_packets_per_chunk s)))"
proof -
  let ?m = "unat (srs_mtu_bytes s)" and ?c = "unat (srs_packets_per_chunk s)"
  have pos: "0 < ?m" "0 < ?c" using mtu fits by (simp_all add: sr_fits_def unat_gt_0)
  have "p div ?c * ?c \<le> p" by simp
  then have "p div ?c * (?c * ?m) \<le> p * ?m" by (metis mult.assoc mult_le_mono1)
  then have "p div ?c * (?c * ?m) < length (sr_data s)" using p by linarith
  then show "p div ?c < unat (srs_total_chunks s)"
    using fits pos packet_count_iff [of "?c * ?m" "p div ?c"] by (simp add: sr_fits_def)
  have "p < Suc (p div ?c) * ?c"
    using pos(2) by (metis dividend_less_div_times mult_Suc add.commute)
  moreover have "p < packet_count (length (sr_data s)) ?m" using p pos(1) by (simp add: packet_count_iff)
  ultimately show "p \<in> set (sr_chunk s (p div ?c))" by (simp add: sr_chunk_def)
qed

text \<open>A packet of a marked chunk is received already.\<close>

lemma marked_received:
  assumes ready: "pump_ready r f (srs_packets_per_chunk s) T rs" and T: "T = transfer_target s b old"
    and fits: "sr_fits s" and inv: "sr_inv s" and p: "p * unat (srs_mtu_bytes s) < length (sr_data s)"
    and c: "p div unat (srs_packets_per_chunk s) \<in> marked f"
  shows "p \<in> rx_received T rs"
proof -
  have mtu: "srs_mtu_bytes s \<noteq> 0" using inv by (simp add: sr_inv_def)
  obtain h conn mc bb where r: "sc_connection_ctx conn = rs_conn rs" "deref_ctx conn h = Some mc"
    "fst (rh_msg_ctx h) = slot_of T" "mc_backend mc = Some bb" "bb_packets_per_chunk bb = srs_packets_per_chunk s"
    "\<forall>c \<in> marked f. chunk_packets bb c \<subseteq> received bb" and rx: "rx_inv T rs"
    using ready unfolding pump_ready_def by blast
  have "cc_msg_table (rs_conn rs) ! unat (t_slot T) = Some mc" using deref_slot [OF r(2)] r(1,3) by simp
  with rx r(4) have bb: "rx_received T rs = received bb"
    "p < unat (bb_total_packets bb) \<longleftrightarrow> p * t_mtu T < length (t_data T)"
    unfolding rx_inv_def rx_received_def by auto
  have "t_mtu T = unat (srs_mtu_bytes s)" "t_data T = sr_data s"
    using inv by (auto simp: T transfer_target_def sr_inv_def)
  then have "p < unat (bb_total_packets bb)" using bb(2) p by simp
  moreover have "p \<in> set (sr_chunk s (p div unat (srs_packets_per_chunk s)))" using packet_chunk [OF fits mtu p] by simp
  ultimately have "p \<in> chunk_packets bb (p div unat (srs_packets_per_chunk s))"
    by (simp add: chunk_packets_def sr_chunk_def r(5))
  then show ?thesis using r(6) c bb(1) by blast
qed

lemma pump_due:
  assumes "pump_ready r f ppc T rs" and "int (unat (ctrl_interval (srr_cfg r))) \<le> elapsed_ms now t"
    and "sent = int message_size" and "missing f (fb_total_chunks f) \<noteq> {}"
  shows "\<exists>p m. pump r (Some t) first_now now sent pad = Ret p \<and> pu_out p = message_image pad m
    \<and> \<not> pu_complete p \<and> nack_tells f (fb_total_chunks f) m"
proof -
  obtain h conn srv mc where r: "srr_recv_handle r = Some h" "srr_conn r = Some conn"
    "sc_tcp_server conn = Some srv" "server_alive srv" "deref_ctx conn h = Some mc" "mc_frontend mc = Some f"
    "ucast (mc_total_chunks mc) = fb_total_chunks f" and f: "fb_wf f" "unat (fb_total_chunks f) < 2 ^ 16"
    using assms(1) unfolding pump_ready_def by blast
  show ?thesis using pump_nack [OF r(1-6) f(1) r(7) f(2) assms(2-4)] by blast
qed

lemma poll_nack:
  assumes on: "sr_online s conn cl" and m: "valid_message m" "wanted SR_NACK m"
    and s': "on_sr_nack sys m s = Some s'" "sr_acks A s s'"
  shows "sr_poll sys s (EvData (message_image pad m) # evs) = sr_poll sys s' evs" and "sr_online s' conn cl"
proof -
  have "on_message sys conn cl m s evs = Ret (None, s', evs)" using m(2) s'(1) by (simp add: on_message_def wanted_def)
  then show "sr_poll sys s (EvData (message_image pad m) # evs) = sr_poll sys s' evs"
    by (simp add: sr_poll.simps [of sys s "EvData (message_image pad m) # evs"] poll_step_message [OF on m(1)])
  show "sr_online s' conn cl" using on sr_acks_fields [OF s'(2)] by (simp add: sr_online_def)
qed

lemma round_arrivals:
  assumes ready: "pump_ready r f (srs_packets_per_chunk s) T rs" and T: "T = transfer_target s b old"
    and inv: "sr_inv s" and conn: "srs_conn s = Some conn" and fits: "sr_fits s" "srs_total_chunks s = fb_total_chunks f"
    and small: "packet_count (length (sr_data s)) (unat (srs_mtu_bytes s)) \<le> 2 ^ 18"
  shows "\<forall>ds. set ds \<subseteq> {snd (sr_datagram s k) | k. k * unat (srs_mtu_bytes s) < length (sr_data s)} \<longrightarrow>
    (\<exists>rs'. run_all (\<lambda>d rs. handle_datagram rs d) ds rs = Some rs' \<and> rx_inv T rs'
      \<and> ((\<forall>c \<in> missing f (srs_total_chunks s). \<forall>k \<in> set (sr_chunk s c). snd (sr_datagram s k) \<in> set ds)
            \<longrightarrow> rs_mem rs' b = sr_data s))"
proof (intro allI impI)
  fix ds
  let ?m = "unat (srs_mtu_bytes s)" and ?c = "unat (srs_packets_per_chunk s)"
  assume ds: "set ds \<subseteq> {snd (sr_datagram s k) | k. k * ?m < length (sr_data s)}"
  obtain h where h: "srs_send_handle s = Some h" and mtu: "srs_mtu_bytes s \<noteq> 0" using inv by (auto simp: sr_inv_def)
  let ?params = "cc_params (sc_connection_ctx conn)"
  let ?dg = "data_datagram (cp_transfer_id ?params) (sh_msg_id h) (srs_packets_per_chunk s) ?m (sr_data s)"
  note dg = sr_datagram_snd [OF conn h]
  have T': "T = sender_target (cp_transfer_id ?params) (sh_msg_id h) ?m (sr_data s) b old"
    by (simp add: T transfer_target_def conn h)
  have rx: "rx_inv T rs" using ready by (simp add: pump_ready_def)
  have pos: "0 < ?m" using mtu by (simp add: unat_gt_0)
  have few: "\<forall>k. k * ?m < length (sr_data s) \<longrightarrow> k < 2 ^ 18"
  proof (intro allI impI)
    fix k assume "k * ?m < length (sr_data s)"
    then have "k < packet_count (length (sr_data s)) ?m" using pos by (simp add: packet_count_iff)
    then show "k < 2 ^ 18" using small by linarith
  qed
  have "set ds \<subseteq> ?dg ` {k. k * ?m < length (sr_data s)}" using ds unfolding dg by blast
  with cut_source.arrivals_handled [OF rx [unfolded T'], where ds = ds and ppc = "srs_packets_per_chunk s"] few fits(1)
  obtain rs' where rs': "run_all (\<lambda>d rs. handle_datagram rs d) ds rs = Some rs'" "rx_inv T rs'"
    "(\<forall>k. k * ?m < length (sr_data s) \<longrightarrow> k \<in> rx_received T rs \<or> ?dg k \<in> set ds) \<longrightarrow> rs_mem rs' b = sr_data s"
    by (auto simp: T' sr_fits_def)
  have "k \<in> rx_received T rs \<or> ?dg k \<in> set ds"
    if all: "\<forall>c \<in> missing f (srs_total_chunks s). \<forall>k \<in> set (sr_chunk s c). snd (sr_datagram s k) \<in> set ds"
      and k: "k * ?m < length (sr_data s)" for k
  proof (cases "k div ?c \<in> marked f")
    case True
    then show ?thesis using marked_received [OF ready T fits(1) inv k] by blast
  next
    case False
    then have "k div ?c \<in> missing f (srs_total_chunks s)"
      using packet_chunk(1) [OF fits(1) mtu k] by (simp add: missing_def)
    then show ?thesis using all packet_chunk(2) [OF fits(1) mtu k] unfolding dg by blast
  qed
  then show "\<exists>rs'. run_all (\<lambda>d rs. handle_datagram rs d) ds rs = Some rs' \<and> rx_inv T rs'
      \<and> ((\<forall>c \<in> missing f (srs_total_chunks s). \<forall>k \<in> set (sr_chunk s c). snd (sr_datagram s k) \<in> set ds)
            \<longrightarrow> rs_mem rs' b = sr_data s)"
    using rs' by blast
qed

section \<open>Properties\<close>

text \<open>A NACK makes the sender send every chunk that it reports.  When the NACK is true of the chunk
  bitmap \<open>f\<close>, at most four chunks are missing and none of them was sent within the guard interval, the
  handler gives \<open>sendto\<close> each packet of each missing chunk, and marks no missing chunk as acknowledged.\<close>

theorem sr_nack_resends_missing:
  assumes inv: "sr_inv s" and fits: "sr_fits s"
    and net: "\<forall>i. sy_socket sys i \<ge> 0" "\<forall>ip. sy_inet_pton sys ip > 0"
    and tells: "nack_tells f (srs_total_chunks s) m" and few: "card (missing f (srs_total_chunks s)) \<le> 4"
    and acks: "acked s \<subseteq> marked f" and due: "due_chunks sys s (missing f (srs_total_chunks s))"
  shows "\<exists>s'. on_sr_nack sys m s = Some s' \<and> sr_inv s' \<and> acked s' \<subseteq> marked f
    \<and> marked f \<inter> {..<min (unat (srs_total_chunks s)) 512} \<subseteq> acked s'
    \<and> (\<forall>c \<in> missing f (srs_total_chunks s). \<forall>p \<in> set (sr_chunk s c). sr_datagram s p \<in> set (new_wire s s'))"
proof -
  obtain s' where s': "on_sr_nack sys m s = Some s'" "sr_acks (acks_of m (unat (srs_total_chunks s))) s s'"
    "\<forall>c \<in> missing f (srs_total_chunks s). \<forall>p \<in> set (sr_chunk s c). sr_datagram s p \<in> set (new_wire s s')"
    using on_sr_nack_resends [OF assms] by blast
  moreover have "sr_inv s'" "acked s' = acked s \<union> acks_of m (unat (srs_total_chunks s))"
    using sr_acks_fields [OF s'(2)] inv by simp_all
  moreover have "acks_of m (unat (srs_total_chunks s)) \<subseteq> marked f"
    "marked f \<inter> {..<min (unat (srs_total_chunks s)) 512} \<subseteq> acks_of m (unat (srs_total_chunks s))"
    using tells by (simp_all add: nack_tells_def)
  ultimately show ?thesis using acks by blast
qed

lemma demo_due: "due_chunks demo_sr_sys demo_sender {0, 1}"
proof -
  have e: "guard_ms \<le> elapsed_ms (sy_now demo_sr_sys i) 0" if "1 \<le> i" for i
  proof -
    have "(int i * 100000000) sdiv 1000000 = int i * 100"
      by (simp add: signed_divide_int_def abs_mult sgn_mult sgn_if)
    then show ?thesis using that by (simp add: guard_ms_def elapsed_ms_def demo_sr_sys_def)
  qed
  then show ?thesis
    unfolding due_chunks_def demo_sender_ok(3) by (auto simp: demo_sender_def)
qed

lemma demo_chunks: "sr_chunk demo_sender 0 = [0, 1]" "sr_chunk demo_sender (Suc 0) = [2]"
  by (simp_all add: sr_chunk_def demo_sender_def sr_data_def packet_count_def upt_rec)

lemma demo_missing: "marked f = {} \<Longrightarrow> missing f (srs_total_chunks demo_sender) = {0, 1}"
  by (auto simp: missing_def demo_sender_ok(4) less_2_cases_iff)

lemma demo_net: "\<forall>i. sy_socket demo_sr_sys i \<ge> 0" "\<forall>ip. sy_inet_pton demo_sr_sys ip > 0"
  by (simp_all add: demo_sr_sys_def)

theorem sr_nack_resends_missing_witness:
  "\<exists>f m s'. nack_tells f 2 m \<and> on_sr_nack demo_sr_sys m demo_sender = Some s' \<and> acked s' = {}
    \<and> {sr_datagram demo_sender 0, sr_datagram demo_sender 1, sr_datagram demo_sender 2}
        \<subseteq> set (new_wire demo_sender s')"
proof -
  obtain f where f: "fb_wf f" "marked f = {}" "fb_total_chunks f = 2" using demo_posted_ctx by blast
  note T = demo_sender_ok(4) and X = demo_missing [OF f(2)]
  have "missing f 2 \<noteq> {}" using X by (simp add: T)
  then obtain m where m: "nack_tells f 2 m" using feedback_of_eq [OF f(1), of 2 0] f(3) by auto
  have due: "due_chunks demo_sr_sys demo_sender (missing f (srs_total_chunks demo_sender))"
    unfolding X by (rule demo_due)
  have few: "card (missing f (srs_total_chunks demo_sender)) \<le> 4" by (simp add: X)
  have tells: "nack_tells f (srs_total_chunks demo_sender) m" using m by (simp add: T)
  obtain s' where s': "on_sr_nack demo_sr_sys m demo_sender = Some s'" "acked s' \<subseteq> {}"
    "\<forall>c \<in> {0, 1}. \<forall>p \<in> set (sr_chunk demo_sender c). sr_datagram demo_sender p \<in> set (new_wire demo_sender s')"
    using sr_nack_resends_missing [OF demo_sender_ok(1,2) demo_net tells few _ due] demo_sender_ok(3) f(2)
    unfolding X by blast
  then show ?thesis using m by (intro exI [of _ f] exI [of _ m] exI [of _ s']) (simp add: demo_chunks)
qed

text \<open>C29: A round of the protocol completes the transfer.  A receiver in the middle of a transfer, missing at
  least one chunk and at most four, pumps; the sender, whose data it is, polls the bytes that the pump
  sent.  It holds no missing chunk for acknowledged and has sent none of them within the 50 ms before it
  handles the message (\<open>due_chunks\<close>), and its sockets work.  It then gives \<open>sendto\<close> every packet of the missing chunks and goes on polling, and whatever arrives of
  the message's datagrams, in any order and with repetitions, is handled without a fault; if these
  packets are among it, the receive buffer holds exactly the sender's data.\<close>

theorem sr_round_completes:
  assumes ready: "pump_ready r f (srs_packets_per_chunk s) T rs" and T: "T = transfer_target s b old"
    and due: "int (unat (ctrl_interval (srr_cfg r))) \<le> elapsed_ms now t" and sent: "sent = int message_size"
    and some: "missing f (srs_total_chunks s) \<noteq> {}" "card (missing f (srs_total_chunks s)) \<le> 4"
    and sender: "sr_online s conn cl" "sr_fits s" "srs_total_chunks s = fb_total_chunks f"
    and small: "packet_count (length (sr_data s)) (unat (srs_mtu_bytes s)) \<le> 2 ^ 18"
    and acks: "acked s \<subseteq> marked f" "due_chunks sys s (missing f (srs_total_chunks s))"
    and net: "\<forall>i. sy_socket sys i \<ge> 0" "\<forall>ip. sy_inet_pton sys ip > 0"
  shows "\<exists>p s'. pump r (Some t) first_now now sent pad = Ret p \<and> \<not> pu_complete p
    \<and> sr_poll sys s (EvData (pu_out p) # evs) = sr_poll sys s' evs \<and> sr_online s' conn cl \<and> acked s' \<subseteq> marked f
    \<and> (\<forall>c \<in> missing f (srs_total_chunks s). \<forall>k \<in> set (sr_chunk s c). sr_datagram s k \<in> set (new_wire s s'))
    \<and> (\<forall>ds. set ds \<subseteq> {snd (sr_datagram s k) | k. k * unat (srs_mtu_bytes s) < length (sr_data s)} \<longrightarrow>
        (\<exists>rs'. run_all (\<lambda>d rs. handle_datagram rs d) ds rs = Some rs' \<and> rx_inv T rs'
          \<and> ((\<forall>c \<in> missing f (srs_total_chunks s). \<forall>k \<in> set (sr_chunk s c). snd (sr_datagram s k) \<in> set ds)
                \<longrightarrow> rs_mem rs' b = sr_data s)))"
proof -
  let ?X = "missing f (srs_total_chunks s)" and ?m = "unat (srs_mtu_bytes s)"
  have inv: "sr_inv s" and conn: "srs_conn s = Some conn" using sender(1) by (simp_all add: sr_online_def)
  then obtain h where h: "srs_send_handle s = Some h" and mtu: "srs_mtu_bytes s \<noteq> 0" by (auto simp: sr_inv_def)
  obtain p m where p: "pump r (Some t) first_now now sent pad = Ret p" "pu_out p = message_image pad m"
    "\<not> pu_complete p" "nack_tells f (srs_total_chunks s) m"
    using pump_due [OF ready due sent some(1) [unfolded sender(3)]] unfolding sender(3) by blast
  have m: "valid_message m" "wanted SR_NACK m" using p(4) by (simp_all add: nack_tells_def)
  obtain s' where s': "on_sr_nack sys m s = Some s'" "sr_acks (acks_of m (unat (srs_total_chunks s))) s s'"
    "\<forall>c \<in> ?X. \<forall>k \<in> set (sr_chunk s c). sr_datagram s k \<in> set (new_wire s s')"
    using on_sr_nack_resends [OF inv sender(2) net p(4) some(2) acks] by blast
  have poll: "sr_poll sys s (EvData (pu_out p) # evs) = sr_poll sys s' evs" "sr_online s' conn cl"
    using poll_nack [OF sender(1) m s'(1,2)] p(2) by simp_all
  have "acked s' \<subseteq> marked f" using sr_acks_fields(1) [OF s'(2)] acks(1) p(4) by (simp add: nack_tells_def)
  moreover note arrive = round_arrivals [OF ready T inv conn sender(2,3) small]
  ultimately show ?thesis using p(1,3) poll s'(3) by blast
qed

lemma demo_transfer_target: "transfer_target demo_sender 0 [9, 9, 9, 9, 9] = demo_target"
  by (simp add: transfer_target_def demo_sender_def sender_target_def demo_target_def sr_data_def demo_params_def)

theorem sr_round_completes_witness:
  "\<exists>p s' rs'. pump ((SRReceiver_new demo_sr_cfg)\<lparr>srr_recv_handle := Some demo_handle, srr_conn := Some demo_posted\<rparr>)
      (Some 0) 0 100000000 288 (\<lambda>_. 0) = Ret p \<and> \<not> pu_complete p
    \<and> sr_poll demo_sr_sys demo_sender [EvData (pu_out p)] = sr_poll demo_sr_sys s' []
    \<and> {sr_datagram demo_sender 0, sr_datagram demo_sender 1, sr_datagram demo_sender 2}
        \<subseteq> set (new_wire demo_sender s')
    \<and> run_all (\<lambda>d rs. handle_datagram rs d) (map (snd \<circ> sr_datagram demo_sender) [2, 0, 2, 1]) demo_state = Some rs'
    \<and> rs_mem rs' 0 = [10, 20, 30, 40, 50]"
proof -
  let ?r = "(SRReceiver_new demo_sr_cfg)\<lparr>srr_recv_handle := Some demo_handle, srr_conn := Some demo_posted\<rparr>"
  obtain mc f bb where m: "deref_ctx demo_posted demo_handle = Some mc" "mc_frontend mc = Some f" "fb_wf f"
    "marked f = {}" "mc_total_chunks mc = 2" "fb_total_chunks f = 2" "mc_backend mc = Some bb" "bb_packets_per_chunk bb = 2"
    using demo_posted_ctx by blast
  have ready: "pump_ready ?r f (srs_packets_per_chunk demo_sender) demo_target demo_state"
    using m demo_rx_inv(1)
    by (auto simp: pump_ready_def demo_posted_def demo_rconn_def server_alive_def demo_handle_def slot_of_def
        demo_target_def demo_sender_def)
  have due: "int (unat (ctrl_interval (srr_cfg ?r))) \<le> elapsed_ms 100000000 0"
    by (simp add: ctrl_interval_def SRReceiver_new_def demo_sr_cfg_def elapsed_ms_def signed_divide_int_def)
  have sent: "(288 :: int) = int message_size" by (simp add: message_size_def)
  note X = demo_missing [OF m(4)]
  have some: "missing f (srs_total_chunks demo_sender) \<noteq> {}" "card (missing f (srs_total_chunks demo_sender)) \<le> 4"
    by (simp_all add: X)
  obtain conn where on: "sr_online demo_sender conn (TCPControlClient_new\<lparr>is_connected := True\<rparr>)"
    using demo_sender_ok by (auto simp: sr_online_def)
  have tc: "srs_total_chunks demo_sender = fb_total_chunks f" by (simp add: demo_sender_ok(4) m(6))
  have small: "packet_count (length (sr_data demo_sender)) (unat (srs_mtu_bytes demo_sender)) \<le> 2 ^ 18"
    by (simp add: sr_data_def demo_sender_def packet_count_def)
  have acks: "acked demo_sender \<subseteq> marked f" by (simp add: demo_sender_ok(3))
  have dueX: "due_chunks demo_sr_sys demo_sender (missing f (srs_total_chunks demo_sender))"
    unfolding X by (rule demo_due)
  let ?ds = "map (snd \<circ> sr_datagram demo_sender) [2, 0, 2, 1]"
  have ds: "set ?ds \<subseteq> {snd (sr_datagram demo_sender k) | k. k * unat (srs_mtu_bytes demo_sender) < length (sr_data demo_sender)}"
    by (auto simp: sr_data_def demo_sender_def intro: exI [of _ 0] exI [of _ 1] exI [of _ 2])
  have data: "sr_data demo_sender = [10, 20, 30, 40, 50]" by (simp add: sr_data_def demo_sender_def)
  from sr_round_completes [OF ready demo_transfer_target [symmetric] due sent some on demo_sender_ok(2) tc small acks
      dueX demo_net, of 0 "\<lambda>_. 0" "[]"]
  obtain p s' where ps: "pump ?r (Some 0) 0 100000000 288 (\<lambda>_. 0) = Ret p" "\<not> pu_complete p"
    "sr_poll demo_sr_sys demo_sender [EvData (pu_out p)] = sr_poll demo_sr_sys s' []"
    "\<forall>c \<in> {0, 1}. \<forall>k \<in> set (sr_chunk demo_sender c). sr_datagram demo_sender k \<in> set (new_wire demo_sender s')"
    "\<exists>rs'. run_all (\<lambda>d rs. handle_datagram rs d) ?ds demo_state = Some rs' \<and> rx_inv demo_target rs'
      \<and> ((\<forall>c \<in> {0, 1}. \<forall>k \<in> set (sr_chunk demo_sender c). snd (sr_datagram demo_sender k) \<in> set ?ds)
            \<longrightarrow> rs_mem rs' 0 = sr_data demo_sender)"
    using ds unfolding X by blast
  from ps(5) obtain rs' where "run_all (\<lambda>d rs. handle_datagram rs d) ?ds demo_state = Some rs'"
    "rs_mem rs' 0 = sr_data demo_sender" by (auto simp: demo_chunks)
  with ps(1-4) show ?thesis
    unfolding data by (intro exI [of _ p] exI [of _ s'] exI [of _ rs']) (simp add: demo_chunks)
qed

end
