(* ===== verification/EC_Encoding.thy ===== *)
theory EC_Encoding
  imports Selective_Repeat
begin

text \<open>
  The sender's side of the erasure-coding layer up to the post (\<open>ECSender::encode_and_send\<close> of
  \<open>reliability/ec.cpp\<close>): the geometry that both sides compute, the buffer of data and parity, and the
  encoding of a stripe.  The routines of ISA-L are not part of the repository; they are a record of
  functions, an argument of the definitions that call them.
\<close>

section \<open>The library and the configuration\<close>

text \<open>
  The results of the routines by what they write.  \<open>gf_invert_matrix in n\<close> is the return code, what it
  leaves in \<open>in\<close>, which it uses as its working space, and what it writes to \<open>out\<close>;
  \<open>ec_encode_data len k rows g_tbls data\<close> is the content of the \<open>rows\<close> output buffers.
\<close>

record ISAL =
  gf_gen_rs_matrix :: "nat \<Rightarrow> nat \<Rightarrow> u8 list"
  gf_invert_matrix :: "u8 list \<Rightarrow> nat \<Rightarrow> int \<times> u8 list \<times> u8 list"
  ec_init_tables :: "nat \<Rightarrow> nat \<Rightarrow> u8 list \<Rightarrow> u8 list"
  ec_encode_data :: "nat \<Rightarrow> nat \<Rightarrow> nat \<Rightarrow> u8 list \<Rightarrow> u8 list list \<Rightarrow> u8 list list"

record ECConfig =
  ecc_k_data :: u16
  ecc_m_parity :: u16
  ecc_fallback_timeout_ms :: u32
  ecc_data_bytes :: u64
  ecc_max_retries :: u32

record ECStats =
  ecs_parity_sent :: u64
  ecs_decode_success :: u64
  ecs_fallback_sr :: u64

definition ECStats_new :: ECStats where
  "ECStats_new = \<lparr> ecs_parity_sent = 0, ecs_decode_success = 0, ecs_fallback_sr = 0 \<rparr>"

section \<open>Geometry\<close>

definition ec_mtu :: "ConnectionParams \<Rightarrow> u32" where
  "ec_mtu params =
     (let mtu = (if cp_mtu_bytes params \<noteq> 0 then cp_mtu_bytes params else ucast MAX_PAYLOAD_SIZE)
      in if ucast mtu > MAX_PAYLOAD_SIZE then ucast MAX_PAYLOAD_SIZE else mtu)"

definition ec_ppc :: "ConnectionParams \<Rightarrow> u16" where
  "ec_ppc params = (if cp_packets_per_chunk params \<noteq> 0 then cp_packets_per_chunk params else 32)"

definition ec_chunk_bytes :: "ConnectionParams \<Rightarrow> u32" where
  "ec_chunk_bytes params = ec_mtu params * ucast (ec_ppc params)"

text \<open>The chunk size of \<open>encode_and_send\<close> and \<open>post_receive\<close>, which guard against 0.\<close>

definition guarded_chunk_bytes :: "ConnectionParams \<Rightarrow> u32" where
  "guarded_chunk_bytes params =
     (let chunk_bytes = ec_chunk_bytes params
      in if chunk_bytes = 0 then ucast MAX_PAYLOAD_SIZE else chunk_bytes)"

definition ec_data_chunks :: "u64 \<Rightarrow> u32 \<Rightarrow> u32" where
  "ec_data_chunks data_bytes chunk_bytes = ucast ((data_bytes + ucast chunk_bytes - 1) div ucast chunk_bytes)"

definition ec_stripes :: "u32 \<Rightarrow> u16 \<Rightarrow> u32" where
  "ec_stripes data_chunks k = (data_chunks + ucast k - 1) div ucast k"

definition ec_k :: "ECConfig \<Rightarrow> u16" where
  "ec_k cfg = (if ecc_k_data cfg \<noteq> 0 then ecc_k_data cfg else 4)"

definition ec_m :: "ECConfig \<Rightarrow> u16" where
  "ec_m cfg = (if ecc_m_parity cfg \<noteq> 0 then ecc_m_parity cfg else 2)"

definition ec_data_bytes :: "ECConfig \<Rightarrow> u64 \<Rightarrow> u64" where
  "ec_data_bytes cfg len = (if ecc_data_bytes cfg \<noteq> 0 then ecc_data_bytes cfg else len)"

section \<open>Encoding\<close>

text \<open>The \<open>len\<close> bytes at an address of the storage; offsets are computed in 32 bits.\<close>

definition read_at :: "u8 list \<Rightarrow> u32 \<Rightarrow> u32 \<Rightarrow> u8 list option" where
  "read_at storage off len =
     (if unat off + unat len \<le> length storage then Some (take (unat len) (drop (unat off) storage)) else None)"

definition write_at :: "u32 \<times> u8 list \<Rightarrow> u8 list \<Rightarrow> u8 list option" where
  "write_at = (\<lambda>(off, bytes) storage. mem_write storage (unat off) bytes)"

text \<open>One turn of the loop over the stripes; missing data chunks of a partial stripe point to chunk 0.\<close>

definition encode_stripe ::
    "ISAL \<Rightarrow> u8 list \<Rightarrow> u16 \<Rightarrow> u16 \<Rightarrow> u32 \<Rightarrow> u32 \<Rightarrow> u32 \<Rightarrow> u8 list \<Rightarrow> u8 list option" where
  "encode_stripe isal gftbl k m data_chunks chunk_bytes s storage =
     (let stripe_data = min (ucast k) (data_chunks - s * ucast k);
          data_ptrs = map (\<lambda>i. if of_nat i < stripe_data then (s * ucast k + of_nat i) * chunk_bytes else 0)
                        [0..<unat k];
          parity_ptrs = map (\<lambda>p. (data_chunks + s * ucast m + of_nat p) * chunk_bytes) [0..<unat m]
      in case those (map (\<lambda>off. read_at storage off chunk_bytes) data_ptrs) of
           None \<Rightarrow> None
         | Some data \<Rightarrow>
             run_all write_at
               (zip parity_ptrs (ec_encode_data isal (unat chunk_bytes) (unat k) (unat m) gftbl data)) storage)"

text \<open>The tables, whose sizes are computed with \<open>int\<close> arithmetic: \<open>None\<close> when that overflows.\<close>

definition encode_tables :: "ISAL \<Rightarrow> u16 \<Rightarrow> u16 \<Rightarrow> u8 list option" where
  "encode_tables isal k m =
     (let k = unat k; m = unat m in
      if k * (k + m) \<ge> 2 ^ 31 \<or> m * k * 32 \<ge> 2 ^ 31 then None
      else case mem_write (replicate (k * (k + m)) 0) 0 (gf_gen_rs_matrix isal (k + m) k) of
             None \<Rightarrow> None
           | Some encode_matrix \<Rightarrow>
               mem_write (replicate (m * k * 32) 0) 0 (ec_init_tables isal k m encode_matrix))"

text \<open>
  The library takes the length as an \<open>int\<close>; a call with a negative one has no defined result.
\<close>

definition encode_stripes ::
    "ISAL \<Rightarrow> u16 \<Rightarrow> u16 \<Rightarrow> u32 \<Rightarrow> u32 \<Rightarrow> u8 list \<Rightarrow> u8 list option" where
  "encode_stripes isal k m data_chunks chunk_bytes storage =
     (case encode_tables isal k m of
        None \<Rightarrow> None
      | Some gftbl \<Rightarrow>
          if unat chunk_bytes \<ge> 2 ^ 31 \<and> data_chunks \<noteq> 0 then None
          else for_while 0 (ec_stripes data_chunks k) (\<lambda>_. True)
                 (encode_stripe isal gftbl k m data_chunks chunk_bytes) storage)"

text \<open>The storage before the encoding: zeros, with the data copied to its beginning.\<close>

definition ec_fill :: "u64 \<Rightarrow> u64 \<Rightarrow> u8 list \<Rightarrow> u8 list option" where
  "ec_fill total_bytes data_bytes buffer =
     (let n = unat (min data_bytes total_bytes) in
      if n > length buffer then None
      else mem_write (replicate (unat total_bytes) 0) 0 (take n buffer))"

section \<open>Starting a send\<close>

record ECSender =
  es_cfg :: ECConfig
  es_stats :: ECStats
  es_sends :: "SDRSendHandle list"
  es_send_storage :: "u8 list"
  es_conn :: "SDRConnection option"
  es_chunk_acked :: "bool list"
  es_fallback_active :: bool
  es_sockets :: nat
  es_wire :: "(u16 \<times> u8 list) list"

definition ECSender_new :: "ECConfig \<Rightarrow> ECSender" where
  "ECSender_new cfg =
     \<lparr> es_cfg = cfg, es_stats = ECStats_new, es_sends = [], es_send_storage = [], es_conn = None,
       es_chunk_acked = [], es_fallback_active = False, es_sockets = 0, es_wire = [] \<rparr>"

record ECStart =
  est_rc :: int
  est_sender :: ECSender
  est_host :: Host
  est_out :: "u8 list"
  est_rest :: "NetEvent list"

text \<open>What the call resets first, and what it keeps of a post of \<open>storage\<close>.\<close>

definition ec_begin :: "SDRConnection \<Rightarrow> ECSender \<Rightarrow> ECSender" where
  "ec_begin conn e =
     e\<lparr>es_conn := Some conn, es_sends := [], es_fallback_active := False, es_chunk_acked := []\<rparr>"

definition ec_posted :: "ECSender \<Rightarrow> u8 list \<Rightarrow> u32 \<Rightarrow> SendPost \<Rightarrow> ECStart" where
  "ec_posted e storage data_chunks SP =
     (let e = e\<lparr>es_send_storage := storage, es_conn := Some (sp_conn SP), es_wire := es_wire e @ sp_wire SP\<rparr>
      in \<lparr> est_rc = sp_rc SP,
           est_sender = (if sp_rc SP \<noteq> 0 then e
                         else e\<lparr>es_sends := (case sp_handle SP of None \<Rightarrow> [] | Some h \<Rightarrow> [h]),
                                es_chunk_acked := replicate (unat data_chunks) False\<rparr>),
           est_host = sp_host SP, est_out = sp_out SP, est_rest = sp_rest SP \<rparr>)"

text \<open>\<open>isal = None\<close> is a build without ISA-L.  What the post has sent is appended to the trace.\<close>

definition encode_and_send ::
    "ISAL option \<Rightarrow> ECSender \<Rightarrow> Host \<Rightarrow> SDRConnection \<Rightarrow> u8 list \<Rightarrow> u64 \<Rightarrow> NetEvent list \<Rightarrow> SendPostSys
      \<Rightarrow> ECStart run" where
  "encode_and_send isal e host conn buffer len evs psys =
     (let e = ec_begin conn e;
          params = cc_params (sc_connection_ctx conn);
          chunk_bytes = guarded_chunk_bytes params;
          data_bytes = ec_data_bytes (es_cfg e) len;
          k = ec_k (es_cfg e); m = ec_m (es_cfg e);
          data_chunks = ec_data_chunks data_bytes chunk_bytes;
          parity_chunks = ec_stripes data_chunks k * ucast m;
          total_bytes = ucast (data_chunks + parity_chunks) * ucast chunk_bytes
      in case ec_fill total_bytes data_bytes buffer of
           None \<Rightarrow> Crash
         | Some storage \<Rightarrow>
             (case isal of
                None \<Rightarrow> Ret \<lparr> est_rc = - 1, est_sender = e\<lparr>es_send_storage := storage\<rparr>, est_host = host,
                              est_out = [], est_rest = evs \<rparr>
              | Some lib \<Rightarrow>
                  (case encode_stripes lib k m data_chunks chunk_bytes storage of
                     None \<Rightarrow> Crash
                   | Some storage \<Rightarrow>
                       run_bind (sdr_send_post host conn True (Some storage) total_bytes True evs psys)
                         (\<lambda>SP. Ret (ec_posted e storage data_chunks SP)))))"

section \<open>What the library promises\<close>

text \<open>The extents that the manual of ISA-L gives for what its routines write.\<close>

definition isal_sizes :: "ISAL \<Rightarrow> bool" where
  "isal_sizes lib \<longleftrightarrow> (\<forall>m k. length (gf_gen_rs_matrix lib m k) = m * k)
     \<and> (\<forall>k rows a. length (ec_init_tables lib k rows a) = 32 * k * rows)
     \<and> (\<forall>len k rows g data. length (ec_encode_data lib len k rows g data) = rows
          \<and> (\<forall>out \<in> set (ec_encode_data lib len k rows g data). length out = len))"

text \<open>
  The matrix of \<open>gf_gen_rs_matrix\<close> begins with the identity, and a unit vector among the rows given to
  \<open>ec_init_tables\<close> makes the output of that row a copy of one input.
\<close>

definition isal_coding :: "ISAL \<Rightarrow> bool" where
  "isal_coding lib \<longleftrightarrow> isal_sizes lib
     \<and> (\<forall>m k i j. k \<le> m \<and> i < k \<and> j < k \<longrightarrow> gf_gen_rs_matrix lib m k ! (i * k + j) = (if i = j then 1 else 0))
     \<and> (\<forall>len k rows a data r j. r < rows \<and> j < k \<and> k * rows \<le> length a \<and> length data = k
          \<and> (\<forall>d \<in> set data. length d = len) \<and> (\<forall>i < k. a ! (r * k + i) = (if i = j then 1 else 0))
          \<longrightarrow> ec_encode_data lib len k rows (ec_init_tables lib k rows a) data ! r = data ! j)"

lemma isal_codingD:
  assumes "isal_coding lib" and "r < rows" and "j < k" and "k * rows \<le> length a" and "length data = k"
    and "\<forall>d \<in> set data. length d = len" and "\<forall>i < k. a ! (r * k + i) = (if i = j then 1 else 0)"
  shows "ec_encode_data lib len k rows (ec_init_tables lib k rows a) data ! r = data ! j"
proof -
  let ?H = "\<lambda>len k rows a data r j. r < rows \<and> j < k \<and> k * rows \<le> length a \<and> length data = k
          \<and> (\<forall>d \<in> set data. length d = len) \<and> (\<forall>i < k. a ! (r * k + i) = (if i = j then 1 else 0))"
  have "\<forall>len k rows a data r j. ?H len k rows a data r j
      \<longrightarrow> ec_encode_data lib len k rows (ec_init_tables lib k rows a) data ! r = data ! j"
    using assms(1) unfolding isal_coding_def by (elim conjE)
  moreover have "?H len k rows a data r j" using assms(2-7) by (intro conjI)
  ultimately show ?thesis by (elim allE impE)
qed

section \<open>Chunks of the storage\<close>

definition chunk_of :: "nat \<Rightarrow> nat \<Rightarrow> u8 list \<Rightarrow> u8 list" where
  "chunk_of cb c st = take cb (drop (c * cb) st)"

lemma chunk_fits: "c < n \<Longrightarrow> n * cb \<le> len \<Longrightarrow> c * cb + cb \<le> (len :: nat)"
  using mult_le_mono1 [of "Suc c" n cb] by simp

lemma length_chunk: "c < n \<Longrightarrow> length st = n * cb \<Longrightarrow> length (chunk_of cb c st) = cb"
  using chunk_fits [of c n cb "length st"] by (simp add: chunk_of_def)

lemma chunks_apart:
  assumes "c \<noteq> c'" and "i < cb" and "j < cb"
  shows "c * cb + i \<noteq> c' * cb + (j :: nat)"
proof
  assume eq: "c * cb + i = c' * cb + j"
  have "(c * cb + i) div cb = c" "(c' * cb + j) div cb = c'" using assms(2,3) by simp_all
  then show False using assms(1) eq by simp
qed

text \<open>Writing a chunk leaves the others.\<close>

lemma write_chunk:
  assumes "length ys = cb" and "c * cb + cb \<le> length st"
  shows "\<exists>st'. mem_write st (c * cb) ys = Some st' \<and> length st' = length st
    \<and> (\<forall>c'. chunk_of cb c' st' = (if c' = c then ys else chunk_of cb c' st))"
proof -
  obtain st' where w: "mem_write st (c * cb) ys = Some st'" using assms by simp
  have len: "length st' = length st" using w by (rule mem_write_length)
  have "chunk_of cb c' st' = (if c' = c then ys else chunk_of cb c' st)" for c'
  proof (cases "c' = c")
    case True
    then show ?thesis using w assms by (simp add: chunk_of_def) auto
  next
    case False
    have "chunk_of cb c' st' = chunk_of cb c' st"
    proof (rule nth_equalityI)
      fix i assume "i < length (chunk_of cb c' st')"
      then have i: "i < cb" "c' * cb + i < length st" using len by (auto simp: chunk_of_def)
      have "\<not> (c * cb \<le> c' * cb + i \<and> c' * cb + i < c * cb + length ys)"
        using chunks_apart [OF False i(1)] assms(1) by (metis le_iff_add nat_add_left_cancel_less)
      then have "st' ! (c' * cb + i) = st ! (c' * cb + i)" unfolding mem_write_nth [OF w i(2)] by (rule if_not_P)
      then show "chunk_of cb c' st' ! i = chunk_of cb c' st ! i" using i len by (simp add: chunk_of_def)
    qed (simp add: chunk_of_def len)
    then show ?thesis using False by simp
  qed
  with w len show ?thesis by blast
qed

lemma write_chunks:
  assumes "\<forall>ys \<in> set outs. length ys = cb" and "(base + length outs) * cb \<le> length st" and "length st < 2 ^ 32"
  shows "\<exists>st'. run_all write_at (zip (map (\<lambda>p. of_nat ((base + p) * cb)) [0..<length outs]) outs) st = Some st'
    \<and> length st' = length st
    \<and> (\<forall>c. chunk_of cb c st' = (if base \<le> c \<and> c < base + length outs then outs ! (c - base) else chunk_of cb c st))"
  using assms
proof (induction outs arbitrary: base st)
  case Nil
  show ?case by (intro exI [of _ st]) auto
next
  case (Cons ys outs)
  have fit: "base * cb + cb \<le> length st" by (rule chunk_fits [OF _ Cons.prems(2)]) simp
  obtain st1 where st1: "mem_write st (base * cb) ys = Some st1" "length st1 = length st"
    "\<forall>c. chunk_of cb c st1 = (if c = base then ys else chunk_of cb c st)"
    using write_chunk [OF _ fit, of ys] Cons.prems(1) by auto
  have un: "unat (of_nat (base * cb) :: u32) = base * cb"
    using fit Cons.prems(3) by (intro unat_of_nat_small) simp
  obtain st2 where st2: "run_all write_at (zip (map (\<lambda>p. of_nat ((Suc base + p) * cb)) [0..<length outs]) outs) st1 = Some st2"
    "length st2 = length st1"
    "\<forall>c. chunk_of cb c st2 = (if Suc base \<le> c \<and> c < Suc base + length outs then outs ! (c - Suc base) else chunk_of cb c st1)"
    using Cons.IH [of "Suc base" st1] Cons.prems st1(2) by auto
  have offs: "map (\<lambda>p. of_nat ((base + p) * cb)) [0..<length (ys # outs)]
      = (of_nat (base * cb) :: u32) # map (\<lambda>p. of_nat ((Suc base + p) * cb)) [0..<length outs]"
    by (simp add: map_upt_Suc del: upt_Suc of_nat_mult mult_Suc)
  have "write_at (of_nat (base * cb), ys) st = Some st1"
    unfolding write_at_def prod.case un by (rule st1(1))
  then have "run_all write_at (zip (map (\<lambda>p. of_nat ((base + p) * cb)) [0..<length (ys # outs)]) (ys # outs)) st = Some st2"
    unfolding offs using st2(1) by (simp del: of_nat_mult mult_Suc)
  moreover have "chunk_of cb c st2 = (if base \<le> c \<and> c < base + length (ys # outs) then (ys # outs) ! (c - base)
      else chunk_of cb c st)" for c
    using st1(3) st2(3) by (cases "c = base") (auto simp: nth_Cons')
  ultimately show ?case using st1(2) st2(2) by auto
qed

lemma those_map: "(\<And>x. x \<in> set xs \<Longrightarrow> f x = Some (g x)) \<Longrightarrow> those (map f xs) = Some (map g xs)"
  by (induction xs) simp_all

text \<open>The chunks that a stripe is encoded from.\<close>

definition stripe_data :: "nat \<Rightarrow> nat \<Rightarrow> nat \<Rightarrow> nat \<Rightarrow> u8 list \<Rightarrow> u8 list list" where
  "stripe_data K D cb s st = map (\<lambda>i. chunk_of cb (if s * K + i < D then s * K + i else 0) st) [0..<K]"

lemma encode_stripe_eq:
  fixes k m :: u16 and data_chunks chunk_bytes :: u32
  defines "K \<equiv> unat k" and "M \<equiv> unat m" and "D \<equiv> unat data_chunks" and "cb \<equiv> unat chunk_bytes"
  assumes lib: "isal_sizes lib" and s: "s * K < D" and st: "length st = n * cb" "n * cb < 2 ^ 32" "D + (s + 1) * M \<le> n"
    and pos: "0 < cb"
  shows "\<exists>st'. encode_stripe lib g k m data_chunks chunk_bytes (of_nat s) st = Some st' \<and> length st' = length st
    \<and> (\<forall>c. chunk_of cb c st' = (if D + s * M \<le> c \<and> c < D + s * M + M
          then ec_encode_data lib cb K M g (stripe_data K D cb s st) ! (c - (D + s * M)) else chunk_of cb c st))"
proof -
  have "D \<le> D * cb" "D * cb \<le> n * cb" using pos st(3) by simp_all
  then have D32: "D < 2 ^ 32" using st(2) by linarith
  have sk: "unat (of_nat s * ucast k :: u32) = s * K"
  proof -
    have "of_nat s * ucast k = (of_nat (s * K) :: u32)" by (simp add: K_def)
    then show ?thesis using s D32 by (simp only:) (rule unat_of_nat_small, simp)
  qed
  have rest: "unat (data_chunks - of_nat s * ucast k) = D - s * K"
    using s by (subst unat_sub) (simp_all add: word_le_nat_alt sk D_def)
  have test: "of_nat i < min (ucast k) (data_chunks - of_nat s * ucast k) \<longleftrightarrow> s * K + i < D" if "i < K" for i
  proof -
    have "unat (of_nat i :: u32) = i" using that unat_width(3) [of k] by (intro unat_of_nat_small) (simp add: K_def)
    moreover have "unat (min (ucast k) (data_chunks - of_nat s * ucast k)) = min K (D - s * K)"
      using rest by (simp add: min_def word_le_nat_alt K_def)
    ultimately show ?thesis using that s by (simp add: word_less_nat_alt) linarith
  qed
  have ptr: "(if of_nat i < min (ucast k) (data_chunks - of_nat s * ucast k)
      then (of_nat s * ucast k + of_nat i) * chunk_bytes else 0)
      = (of_nat ((if s * K + i < D then s * K + i else 0) * cb) :: u32)" if "i < K" for i
    unfolding test [OF that] by (simp add: K_def cb_def algebra_simps)
  let ?off = "\<lambda>i. of_nat ((if s * K + i < D then s * K + i else 0) * cb) :: u32"
  have read: "read_at st (?off i) chunk_bytes = Some (chunk_of cb (if s * K + i < D then s * K + i else 0) st)" for i
  proof -
    let ?c = "if s * K + i < D then s * K + i else 0"
    have "?c < n" using s st(3) by auto
    then have f: "?c * cb + cb \<le> length st" unfolding st(1) by (rule chunk_fits) simp
    then have "unat (?off i) = ?c * cb" using st(1,2) by (intro unat_of_nat_small) simp
    with f show ?thesis by (simp add: read_at_def chunk_of_def cb_def del: of_nat_mult)
  qed
  have data: "those (map (\<lambda>off. read_at st off chunk_bytes)
      (map (\<lambda>i. if of_nat i < min (ucast k) (data_chunks - of_nat s * ucast k)
         then (of_nat s * ucast k + of_nat i) * chunk_bytes else 0) [0..<unat k])) = Some (stripe_data K D cb s st)"
    unfolding map_map comp_def stripe_data_def K_def [symmetric]
    by (rule those_map) (use ptr read in \<open>simp del: of_nat_mult\<close>)
  let ?outs = "ec_encode_data lib cb K M g (stripe_data K D cb s st)"
  have outs: "length ?outs = M" "\<forall>ys \<in> set ?outs. length ys = cb" using lib by (simp_all add: isal_sizes_def)
  have parity: "(data_chunks + of_nat s * ucast m + of_nat p) * chunk_bytes = (of_nat ((D + s * M + p) * cb) :: u32)" for p
    by (simp add: D_def M_def cb_def algebra_simps)
  have "(D + s * M + M) * cb \<le> length st" unfolding st(1) using st(3) by (intro mult_le_mono1) simp
  then obtain st' where st': "run_all write_at (zip (map (\<lambda>p. of_nat ((D + s * M + p) * cb)) [0..<M]) ?outs) st = Some st'"
    "length st' = length st" "\<forall>c. chunk_of cb c st' = (if D + s * M \<le> c \<and> c < D + s * M + M
      then ?outs ! (c - (D + s * M)) else chunk_of cb c st)"
    using write_chunks [of ?outs cb "D + s * M" st] outs st(1,2) by auto
  have "encode_stripe lib g k m data_chunks chunk_bytes (of_nat s) st = Some st'"
    unfolding encode_stripe_def Let_def data option.case
    using st'(1) by (simp only: parity K_def M_def cb_def)
  with st' show ?thesis by blast
qed

lemma stripe_data_cong:
  "(\<And>c. c < D \<Longrightarrow> chunk_of cb c st = chunk_of cb c st') \<Longrightarrow> 0 < D \<Longrightarrow> stripe_data K D cb s st = stripe_data K D cb s st'"
  by (simp add: stripe_data_def)

section \<open>The whole storage\<close>

lemma ec_stripes_eq:
  assumes "unat data_chunks < 2 ^ 31" and "k \<noteq> 0"
  shows "unat (ec_stripes data_chunks k) = packet_count (unat data_chunks) (unat k)"
proof -
  have k: "0 < unat k" "unat k < 65536" using assms(2) unat_width(3) [of k] by (simp_all add: unat_gt_0)
  have "unat (data_chunks + ucast k) = unat data_chunks + unat k"
    using assms(1) k by (simp add: unat_word_ariths(1))
  moreover from this have "unat (data_chunks + ucast k - 1) = unat data_chunks + unat k - 1"
    using k by (subst unat_sub) (simp_all add: word_le_nat_alt)
  ultimately show ?thesis by (simp add: ec_stripes_def packet_count_def unat_div)
qed

definition code_tables :: "ISAL \<Rightarrow> nat \<Rightarrow> nat \<Rightarrow> u8 list" where
  "code_tables lib K M = ec_init_tables lib K M (gf_gen_rs_matrix lib (K + M) K)"

lemma encode_tables_eq:
  assumes "isal_sizes lib" and "unat k * (unat k + unat m) < 2 ^ 31" and "unat m * unat k * 32 < 2 ^ 31"
  shows "encode_tables lib k m = Some (code_tables lib (unat k) (unat m))"
proof -
  have "length (gf_gen_rs_matrix lib (unat k + unat m) (unat k)) = unat k * (unat k + unat m)"
    "length (ec_init_tables lib (unat k) (unat m) a) = unat m * unat k * 32" for a
    using assms(1) by (simp_all add: isal_sizes_def)
  then show ?thesis using assms(2,3) by (simp add: encode_tables_def code_tables_def Let_def not_le [symmetric])
qed

lemma encode_stripes_eq:
  fixes k m :: u16 and data_chunks chunk_bytes :: u32
  defines "K \<equiv> unat k" and "M \<equiv> unat m" and "D \<equiv> unat data_chunks" and "cb \<equiv> unat chunk_bytes"
  defines "S \<equiv> packet_count D K"
  assumes lib: "isal_sizes lib" and ints: "K * (K + M) < 2 ^ 31" "M * K * 32 < 2 ^ 31" and k: "k \<noteq> 0"
    and st: "length st = (D + S * M) * cb" "length st < 2 ^ 31" and pos: "0 < cb" "0 < D"
  shows "\<exists>st'. encode_stripes lib k m data_chunks chunk_bytes st = Some st' \<and> length st' = length st
    \<and> (\<forall>c<D. chunk_of cb c st' = chunk_of cb c st)
    \<and> (\<forall>s<S. \<forall>p<M. chunk_of cb (D + s * M + p) st'
          = ec_encode_data lib cb K M (code_tables lib K M) (stripe_data K D cb s st) ! p)"
proof -
  let ?g = "code_tables lib K M" and ?enc = "\<lambda>s st. ec_encode_data lib cb K M (code_tables lib K M) (stripe_data K D cb s st)"
  have "D \<le> D * cb" "D * cb \<le> (D + S * M) * cb" "cb \<le> D * cb" using pos by simp_all
  then have D31: "D < 2 ^ 31" "cb < 2 ^ 31" using st by linarith+
  have S: "unat (ec_stripes data_chunks k) = S" using ec_stripes_eq [OF _ k] D31(1) by (simp add: S_def D_def K_def)
  let ?P = "\<lambda>j t. length t = length st \<and> (\<forall>c<D. chunk_of cb c t = chunk_of cb c st)
      \<and> (\<forall>s<j. \<forall>p<M. chunk_of cb (D + s * M + p) t = ?enc s st ! p)"
  have "\<exists>st' j. for_while 0 (ec_stripes data_chunks k) (\<lambda>_. True) (encode_stripe lib ?g k m data_chunks chunk_bytes) st = Some st'
      \<and> unat (0 :: u32) \<le> j \<and> j \<le> unat (ec_stripes data_chunks k) \<and> ?P j st'
      \<and> (j = unat (ec_stripes data_chunks k) \<or> \<not> True)"
  proof (rule for_while_total)
    fix s t assume s: "s < unat (ec_stripes data_chunks k)" and P: "?P s t"
    have sS: "s < S" using s S by simp
    have sK: "s * K < D" using sS k packet_count_iff [of K s D] by (simp add: S_def K_def unat_gt_0)
    have room: "D + (s + 1) * M \<le> D + S * M" using sS mult_le_mono1 [of "s + 1" S M] by simp
    have len: "length t = (D + S * M) * cb" using P st(1) by simp
    have small: "(D + S * M) * cb < 2 ^ 32" using st by simp
    obtain t' where t': "encode_stripe lib ?g k m data_chunks chunk_bytes (of_nat s) t = Some t'" "length t' = length t"
      "\<forall>c. chunk_of cb c t' = (if D + s * M \<le> c \<and> c < D + s * M + M then ?enc s t ! (c - (D + s * M)) else chunk_of cb c t)"
      using encode_stripe_eq [OF lib, where k = k and m = m and data_chunks = data_chunks and chunk_bytes = chunk_bytes
          and s = s and st = t and n = "D + S * M" and g = ?g] sK len small room pos(1)
      by (auto simp: K_def M_def D_def cb_def)
    have same: "stripe_data K D cb s t = stripe_data K D cb s st"
      by (rule stripe_data_cong) (use P pos(2) in simp_all)
    have "chunk_of cb (D + r * M + p) t' = ?enc r st ! p" if r: "r < Suc s" and p: "p < M" for r p
    proof (cases "r = s")
      case True
      then show ?thesis using t'(3) p by (simp add: same)
    next
      case False
      then have "Suc r \<le> s" using r by simp
      then have "r * M + M \<le> s * M" using mult_le_mono1 [of "Suc r" s M] by simp
      then have "D + r * M + p < D + s * M" using p by linarith
      then show ?thesis using t'(3) P p False r by simp
    qed
    then show "\<exists>t'. encode_stripe lib ?g k m data_chunks chunk_bytes (of_nat s) t = Some t' \<and> ?P (Suc s) t'"
      using t' P by (intro exI [of _ t']) auto
  qed simp_all
  then obtain st' where st': "for_while 0 (ec_stripes data_chunks k) (\<lambda>_. True)
      (encode_stripe lib ?g k m data_chunks chunk_bytes) st = Some st'" "?P S st'" using S by auto
  have "encode_tables lib k m = Some ?g" using encode_tables_eq [OF lib] ints by (simp add: K_def M_def)
  then have "encode_stripes lib k m data_chunks chunk_bytes st = Some st'"
    using st'(1) D31(2) by (simp add: encode_stripes_def cb_def)
  then show ?thesis using st'(2) by (intro exI [of _ st']) simp
qed

lemma guarded_chunk_bytes_pos: "0 < unat (guarded_chunk_bytes params)"
  by (simp add: guarded_chunk_bytes_def Let_def unat_gt_0)

lemma ec_data_chunks_eq:
  assumes "0 < unat chunk_bytes" and "unat data_bytes + 2 ^ 32 \<le> 2 ^ 64"
    and "packet_count (unat data_bytes) (unat chunk_bytes) < 2 ^ 32"
  shows "unat (ec_data_chunks data_bytes chunk_bytes) = packet_count (unat data_bytes) (unat chunk_bytes)"
proof -
  have "unat data_bytes + unat chunk_bytes \<le> 2 ^ 64" using assms(2) unat_width(5) [of chunk_bytes] by simp
  from unat_ceil_div [OF this assms(1)] show ?thesis
    using assms(3) by (simp add: ec_data_chunks_def unat_ucast_mod packet_count_def)
qed

text \<open>The data reaches to the last data chunk.\<close>

lemma packet_count_covers:
  assumes "0 < cb"
  shows "n \<le> packet_count n cb * cb"
  using packet_count_iff [OF assms, of "packet_count n cb" n] by simp

lemma ec_fill_eq:
  assumes "unat data_bytes \<le> length buffer" and "unat data_bytes \<le> unat total_bytes"
  shows "ec_fill total_bytes data_bytes buffer
    = Some (take (unat data_bytes) buffer @ replicate (unat total_bytes - unat data_bytes) 0)"
proof -
  have "unat (min data_bytes total_bytes) = unat data_bytes" using assms(2) by (simp add: min_def word_le_nat_alt)
  then show ?thesis using assms by (simp add: ec_fill_def Let_def min_def)
qed

text \<open>The bytes of the first chunks.\<close>

lemma take_chunks:
  assumes "\<forall>c<D. chunk_of cb c st' = chunk_of cb c st" and "length st' = length st" and "n \<le> D * cb" and "D * cb \<le> length st"
  shows "take n st' = take n st"
proof (rule nth_equalityI)
  fix i assume "i < length (take n st')"
  then have i: "i < n" "i < D * cb" using assms(2,3) by auto
  then have "0 < cb" by (cases cb) simp_all
  then have c: "i div cb < D" "i mod cb < cb" using i(2) by (simp_all add: div_less_iff_less_mult)
  have "i div cb * cb + cb \<le> length st" using chunk_fits [OF c(1) assms(4)] .
  then have at: "chunk_of cb (i div cb) t ! (i mod cb) = t ! i" if "length t = length st" for t
    using c(2) that by (simp add: chunk_of_def)
  show "take n st' ! i = take n st ! i"
    using at [of st'] at [of st] assms(1,2) c(1) i(1) by simp
qed (use assms(2) in simp)

text \<open>What \<open>encode_and_send\<close> gives to the post.\<close>

lemma encode_storage:
  assumes lib: "isal_sizes lib" and p: "params = cc_params (sc_connection_ctx conn)"
    and dims: "cb = unat (guarded_chunk_bytes params)" "K = unat (ec_k cfg)" "M = unat (ec_m cfg)"
      "n = unat (ec_data_bytes cfg len)" "D = packet_count n cb" "S = packet_count D K"
    and n: "0 < n" "n \<le> length buffer" and size: "(D + S * M) * cb < 2 ^ 31"
    and ints: "K * (K + M) < 2 ^ 31" "M * K * 32 < 2 ^ 31" and cfg: "es_cfg e = cfg"
    and st0: "st0 = take n buffer @ replicate ((D + S * M) * cb - n) 0"
  shows "\<exists>st. length st = (D + S * M) * cb
    \<and> (\<forall>c<D. chunk_of cb c st = chunk_of cb c st0)
    \<and> (\<forall>s<S. \<forall>q<M. chunk_of cb (D + s * M + q) st
          = ec_encode_data lib cb K M (code_tables lib K M) (stripe_data K D cb s st0) ! q)
    \<and> encode_and_send (Some lib) e host conn buffer len evs psys =
        run_bind (sdr_send_post host conn True (Some st) (of_nat (length st)) True evs psys) (\<lambda>SP. Ret (ec_posted (ec_begin conn e) st (of_nat D) SP))"
proof -
  let ?w = "guarded_chunk_bytes params" and ?db = "ec_data_bytes cfg len"
  let ?dc = "ec_data_chunks ?db ?w"
  let ?pc = "ec_stripes ?dc (ec_k cfg) * ucast (ec_m cfg)"
  let ?total = "ucast (?dc + ?pc) * ucast ?w :: u64"
  have cb: "0 < cb" using guarded_chunk_bytes_pos dims(1) by simp
  have cover: "n \<le> D * cb" unfolding dims(5) by (rule packet_count_covers [OF cb])
  have le: "D * cb \<le> (D + S * M) * cb" "D \<le> D * cb" "(D + S * M) \<le> (D + S * M) * cb" using cb by simp_all
  have b31: "n < 2 ^ 31" "D < 2 ^ 31" "S * M < 2 ^ 31" "D + S * M < 2 ^ 31" using cover le size by linarith+
  have D: "unat ?dc = D"
    using ec_data_chunks_eq [of ?w ?db, folded dims(1) dims(4) dims(5)] cb b31(1,2) by simp
  then have dc: "of_nat D = ?dc" by (metis of_nat_unat ucast_id)
  have D0: "0 < D" using cover n(1) by (cases D) simp_all
  have k: "ec_k cfg \<noteq> 0" by (simp add: ec_k_def)
  have S: "unat (ec_stripes ?dc (ec_k cfg)) = S"
    using ec_stripes_eq [OF _ k, of ?dc] D b31(2) by (simp add: dims(2,6))
  have pc: "unat ?pc = S * M" using S b31(3) by (simp add: unat_word_ariths(2) dims(3))
  have sum: "unat (?dc + ?pc) = D + S * M" unfolding unat_word_ariths(1) pc D using b31(4) by simp
  have total: "unat ?total = (D + S * M) * cb"
    using sum size by (simp add: unat_word_ariths(2) dims(1))
  have ntotal: "unat ?db \<le> unat ?total" unfolding total dims(4) [symmetric] using cover le by linarith
  have fill: "ec_fill ?total ?db buffer = Some st0"
    using ec_fill_eq [OF _ ntotal, of buffer] n(2) by (simp only: total dims(4) [symmetric] st0)
  have "n \<le> (D + S * M) * cb" using cover le(1) by (rule le_trans)
  then have len0: "length st0 = (D + S * M) * cb" using n(2) by (simp add: st0)
  obtain st where st: "encode_stripes lib (ec_k cfg) (ec_m cfg) ?dc ?w st0 = Some st" "length st = length st0"
    "\<forall>c<D. chunk_of cb c st = chunk_of cb c st0"
    "\<forall>s<S. \<forall>q<M. chunk_of cb (D + s * M + q) st
        = ec_encode_data lib cb K M (code_tables lib K M) (stripe_data K D cb s st0) ! q"
    using encode_stripes_eq [OF lib, where k = "ec_k cfg" and m = "ec_m cfg" and data_chunks = ?dc and chunk_bytes = ?w
        and st = st0, unfolded D dims(1-3) [symmetric] dims(6) [symmetric]] ints k len0 size cb D0 by auto
  have "of_nat (length st) = (of_nat (unat ?total) :: u64)" unfolding st(2) len0 total ..
  then have ot: "of_nat (length st) = ?total" unfolding of_nat_unat ucast_id .
  then have "encode_and_send (Some lib) e host conn buffer len evs psys =
        run_bind (sdr_send_post host conn True (Some st) (of_nat (length st)) True evs psys) (\<lambda>SP. Ret (ec_posted (ec_begin conn e) st (of_nat D) SP))"
    unfolding encode_and_send_def Let_def
    by (simp add: cfg p [symmetric] fill st(1) ot dc ec_begin_def)
  then show ?thesis using st(2-4) len0 by (intro exI [of _ st]) simp
qed

section \<open>An instance of the library\<close>

text \<open>A code over bytes: coefficient 0 drops an input, any other takes it, outputs are the exclusive or.\<close>

definition demo_isal :: ISAL where
  "demo_isal =
     \<lparr> gf_gen_rs_matrix = (\<lambda>m k. map (\<lambda>i. if i div k < k \<and> i div k \<noteq> i mod k then 0 else 1) [0..<m * k]),
       gf_invert_matrix = (\<lambda>a n. (0, a, a)),
       ec_init_tables = (\<lambda>k rows a. map (\<lambda>i. if i < k * rows \<and> i < length a then a ! i else 0) [0..<32 * k * rows]),
       ec_encode_data = (\<lambda>len k rows g data. map (\<lambda>r. map (\<lambda>b.
         foldl (\<lambda>acc j. acc XOR (if g ! (r * k + j) = 0 then 0 else data ! j ! b)) 0 [0..<k]) [0..<len]) [0..<rows]) \<rparr>"

lemma foldl_xor_unit:
  "foldl (\<lambda>acc i. acc XOR (if i = j then f i else 0)) (a :: u8) [0..<k] = a XOR (if j < k then f j else 0)"
  by (induction k) (auto simp: less_Suc_eq)

lemma demo_isal_coding: "isal_coding demo_isal"
proof -
  have "isal_sizes demo_isal" by (auto simp: isal_sizes_def demo_isal_def)
  moreover have "gf_gen_rs_matrix demo_isal m k ! (i * k + j) = (if i = j then 1 else 0)"
    if "k \<le> m" "i < k" "j < k" for m k i j
  proof -
    have "i * k + j < m * k" using chunk_fits [of i m k "m * k"] that by simp
    moreover have "(i * k + j) div k = i" "(i * k + j) mod k = j" using that(3) by simp_all
    ultimately show ?thesis using that by (simp add: demo_isal_def)
  qed
  moreover have "ec_encode_data demo_isal len k rows (ec_init_tables demo_isal k rows a) data ! r = data ! j"
    if h: "r < rows" "j < k" "k * rows \<le> length a" "length data = k" "\<forall>d \<in> set data. length d = len"
      "\<forall>i<k. a ! (r * k + i) = (if i = j then 1 else 0)" for len k rows a data r j
  proof (rule nth_equalityI)
    let ?g = "ec_init_tables demo_isal k rows a"
    have g: "?g ! (r * k + i) = (if i = j then 1 else 0)" if "i < k" for i
    proof -
      have lt: "r * k + i < k * rows" using chunk_fits [of r rows k "rows * k"] h(1) that by (simp add: mult.commute)
      moreover have "k * rows \<le> 32 * k * rows" by simp
      ultimately show ?thesis using h(3,6) that by (simp add: demo_isal_def)
    qed
    have len: "length (data ! j) = len" using h(2,4,5) by simp
    show "length (ec_encode_data demo_isal len k rows ?g data ! r) = length (data ! j)"
      using h(1) len by (simp add: demo_isal_def)
    fix b assume "b < length (ec_encode_data demo_isal len k rows ?g data ! r)"
    then have b: "b < len" using h(1) by (simp add: demo_isal_def)
    have "foldl (\<lambda>acc i. acc XOR (if ?g ! (r * k + i) = 0 then 0 else data ! i ! b)) 0 [0..<k]
        = foldl (\<lambda>acc i. acc XOR (if i = j then data ! i ! b else 0)) (0 :: u8) [0..<k]"
      using g by (intro foldl_cong HOL.refl) auto
    also have "\<dots> = data ! j ! b" using foldl_xor_unit [of j "\<lambda>i. data ! i ! b" 0 k] h(2) by simp
    finally have "foldl (\<lambda>acc i. acc XOR (if ?g ! (r * k + i) = 0 then 0 else data ! i ! b)) 0 [0..<k] = data ! j ! b" .
    then show "ec_encode_data demo_isal len k rows ?g data ! r ! b = data ! j ! b"
      using h(1) b by (simp add: demo_isal_def cong: if_cong)
  qed
  ultimately show ?thesis unfolding isal_coding_def by auto
qed

lemma demo_isal_sizes: "isal_sizes demo_isal"
  using demo_isal_coding by (simp add: isal_coding_def)

section \<open>Properties\<close>

text \<open>C36: What is posted is the data followed by parity.  With a library that writes what its manual says and
  less than \<open>2^31\<close> bytes in all, \<open>encode_and_send\<close> writes inside its storage only; the storage begins with
  the data, padded with zeros to a whole number of chunks, and behind them come, stripe by stripe, the
  \<open>m\<close> outputs of the encoder for the \<open>k\<close> chunks of the stripe, where chunk 0 stands for chunks that a
  last, partial stripe lacks.  This storage is what the post is called with, and its return code is passed on.\<close>

theorem ec_encode_layout:
  assumes lib: "isal_sizes lib" and p: "params = cc_params (sc_connection_ctx conn)"
    and dims: "cb = unat (guarded_chunk_bytes params)" "K = unat (ec_k (es_cfg e))" "M = unat (ec_m (es_cfg e))"
      "n = unat (ec_data_bytes (es_cfg e) len)" "D = packet_count n cb" "S = packet_count D K"
    and n: "0 < n" "n \<le> length buffer" and size: "(D + S * M) * cb < 2 ^ 31"
    and ints: "K * (K + M) < 2 ^ 31" "M * K * 32 < 2 ^ 31"
    and post: "\<And>st. sdr_send_post host conn True (Some st) (of_nat (length st)) True evs psys = Ret (SP st)"
  shows "\<exists>st r. length st = (D + S * M) * cb
    \<and> take (D * cb) st = take n buffer @ replicate (D * cb - n) 0
    \<and> (\<forall>s<S. \<forall>q<M. chunk_of cb (D + s * M + q) st
          = ec_encode_data lib cb K M (code_tables lib K M) (stripe_data K D cb s st) ! q)
    \<and> encode_and_send (Some lib) e host conn buffer len evs psys = Ret r
    \<and> es_send_storage (est_sender r) = st \<and> est_rc r = sp_rc (SP st)
    \<and> es_chunk_acked (est_sender r) = (if sp_rc (SP st) = 0 then replicate D False else [])"
proof -
  define st0 where "st0 = take n buffer @ replicate ((D + S * M) * cb - n) 0"
  obtain st where st: "length st = (D + S * M) * cb"
    "\<forall>c<D. chunk_of cb c st = chunk_of cb c st0"
    "\<forall>s<S. \<forall>q<M. chunk_of cb (D + s * M + q) st
        = ec_encode_data lib cb K M (code_tables lib K M) (stripe_data K D cb s st0) ! q"
    and run: "encode_and_send (Some lib) e host conn buffer len evs psys =
        run_bind (sdr_send_post host conn True (Some st) (of_nat (length st)) True evs psys) (\<lambda>SP. Ret (ec_posted (ec_begin conn e) st (of_nat D) SP))"
    using encode_storage [OF lib p dims n size ints HOL.refl st0_def, of host evs psys] by (elim exE conjE) (rule that)
  have cb: "0 < cb" using guarded_chunk_bytes_pos dims(1) by simp
  have cover: "n \<le> D * cb" unfolding dims(5) by (rule packet_count_covers [OF cb])
  have le: "D * cb \<le> (D + S * M) * cb" by simp
  have len0: "length st0 = (D + S * M) * cb"
    using n(2) le_trans [OF cover le] by (simp add: st0_def)
  have "take (D * cb) st = take (D * cb) st0"
    by (rule take_chunks [OF st(2)]) (simp_all only: st(1) len0 le order_refl)
  also have "\<dots> = take n buffer @ replicate (D * cb - n) 0"
    using n(2) cover diff_le_mono [OF le, of n] by (simp only: st0_def) (simp add: min_absorb1)
  finally have data: "take (D * cb) st = take n buffer @ replicate (D * cb - n) 0" .
  have "D \<le> D * cb" using cb by simp
  then have "D \<le> (D + S * M) * cb" using le by (rule le_trans)
  then have D32: "unat (of_nat D :: u32) = D" using size by (intro unat_of_nat_small) simp
  have "0 < D" using cover n(1) by (cases D) simp_all
  then have "stripe_data K D cb s st0 = stripe_data K D cb s st" for s
    using st(2) by (intro stripe_data_cong) simp_all
  then have parity: "\<forall>s<S. \<forall>q<M. chunk_of cb (D + s * M + q) st
      = ec_encode_data lib cb K M (code_tables lib K M) (stripe_data K D cb s st) ! q" using st(3) by simp
  have "encode_and_send (Some lib) e host conn buffer len evs psys = Ret (ec_posted (ec_begin conn e) st (of_nat D) (SP st))"
    unfolding run post run_bind.simps ..
  with st(1) data parity show ?thesis
    by (intro exI [of _ st] exI [of _ "ec_posted (ec_begin conn e) st (of_nat D) (SP st)"] conjI)
      (simp_all only:, simp_all add: ec_posted_def ec_begin_def Let_def D32)
qed

definition demo_ec_cfg :: ECConfig where
  "demo_ec_cfg = \<lparr> ecc_k_data = 2, ecc_m_parity = 1, ecc_fallback_timeout_ms = 0, ecc_data_bytes = 0, ecc_max_retries = 3 \<rparr>"

text \<open>Two-byte chunks, over a connection without a client, where the post fails.\<close>

definition demo_ec_conn :: SDRConnection where
  "demo_ec_conn = SDRConnection_new\<lparr>sc_connection_ctx := ConnectionContext_new\<lparr>cc_params :=
     zero_params\<lparr>cp_mtu_bytes := 2, cp_packets_per_chunk := 1\<rparr>\<rparr>\<rparr>"

lemma demo_ec_post:
  "sdr_send_post demo_host demo_ec_conn True (Some st) len True evs psys
     = Ret \<lparr> sp_rc = - 1, sp_host = demo_host, sp_conn = demo_ec_conn, sp_handle = None, sp_out = [],
             sp_wire = [], sp_rest = evs \<rparr>"
  by (simp add: sdr_send_post_def Let_def demo_ec_conn_def SDRConnection_new_def)

lemma demo_ec_dims:
  "unat (guarded_chunk_bytes (cc_params (sc_connection_ctx demo_ec_conn))) = 2"
  "unat (ec_k demo_ec_cfg) = 2" "unat (ec_m demo_ec_cfg) = 1" "unat (ec_data_bytes demo_ec_cfg 5) = 5"
  by (simp_all add: guarded_chunk_bytes_def ec_chunk_bytes_def ec_mtu_def ec_ppc_def Let_def demo_ec_conn_def
      SDRConnection_new_def ec_k_def ec_m_def ec_data_bytes_def demo_ec_cfg_def)

theorem ec_encode_layout_witness:
  "\<exists>st r. length st = 10 \<and> take 6 st = [1, 2, 3, 4, 5, 0]
    \<and> chunk_of 2 3 st = ec_encode_data demo_isal 2 2 1 (code_tables demo_isal 2 1) (stripe_data 2 3 2 0 st) ! 0
    \<and> chunk_of 2 4 st = ec_encode_data demo_isal 2 2 1 (code_tables demo_isal 2 1) (stripe_data 2 3 2 1 st) ! 0
    \<and> encode_and_send (Some demo_isal) (ECSender_new demo_ec_cfg) demo_host demo_ec_conn [1, 2, 3, 4, 5] 5 [] demo_ssys = Ret r
    \<and> es_send_storage (est_sender r) = st \<and> est_rc r = - 1"
proof -
  let ?SP = "\<lparr> sp_rc = - 1, sp_host = demo_host, sp_conn = demo_ec_conn, sp_handle = None, sp_out = [],
    sp_wire = [], sp_rest = [] \<rparr>"
  have dims: "2 = unat (guarded_chunk_bytes (cc_params (sc_connection_ctx demo_ec_conn)))"
    "2 = unat (ec_k (es_cfg (ECSender_new demo_ec_cfg)))" "1 = unat (ec_m (es_cfg (ECSender_new demo_ec_cfg)))"
    "5 = unat (ec_data_bytes (es_cfg (ECSender_new demo_ec_cfg)) 5)" "3 = packet_count 5 2" "2 = packet_count 3 2"
    by (simp_all add: demo_ec_dims ECSender_new_def packet_count_def)
  have nums: "0 < (5 :: nat)" "5 \<le> length [1, 2, 3, 4, 5 :: u8]" "(3 + 2 * 1) * 2 < (2 ^ 31 :: nat)"
    "2 * (2 + 1) < (2 ^ 31 :: nat)" "1 * 2 * 32 < (2 ^ 31 :: nat)" by simp_all
  obtain st r where st: "length st = (3 + 2 * 1) * 2" "take (3 * 2) st = take 5 [1, 2, 3, 4, 5] @ replicate (3 * 2 - 5) 0"
    "\<forall>s<2. \<forall>q<1. chunk_of 2 (3 + s * 1 + q) st
      = ec_encode_data demo_isal 2 2 1 (code_tables demo_isal 2 1) (stripe_data 2 3 2 s st) ! q"
    and r: "encode_and_send (Some demo_isal) (ECSender_new demo_ec_cfg) demo_host demo_ec_conn [1, 2, 3, 4, 5] 5 [] demo_ssys = Ret r"
      "es_send_storage (est_sender r) = st" "est_rc r = sp_rc ?SP"
    using ec_encode_layout [OF demo_isal_sizes HOL.refl dims nums demo_ec_post, of "[]" demo_ssys] by (elim exE conjE) (rule that)
  have "chunk_of 2 (3 + 0 * 1 + 0) st = ec_encode_data demo_isal 2 2 1 (code_tables demo_isal 2 1) (stripe_data 2 3 2 0 st) ! 0"
    "chunk_of 2 (3 + 1 * 1 + 0) st = ec_encode_data demo_isal 2 2 1 (code_tables demo_isal 2 1) (stripe_data 2 3 2 1 st) ! 0"
    using st(3) [rule_format, of 0 0] st(3) [rule_format, of 1 0] by simp_all
  then show ?thesis using st(1,2) r by (intro exI [of _ st] exI [of _ r]) simp
qed

text \<open>The parity when the tables come from the top of the matrix.\<close>

lemma parity_copies:
  assumes lib: "isal_coding lib"
    and dims: "K = unat k" "M = unat m" "D = unat data_chunks" "cb = unat chunk_bytes" "S = packet_count D K"
    and ints: "K * (K + M) < 2 ^ 31" "M * K * 32 < 2 ^ 31" and k: "k \<noteq> 0"
    and st: "length st = (D + S * M) * cb" "length st < 2 ^ 31" and pos: "0 < cb" "0 < D"
  shows "\<exists>st'. encode_stripes lib k m data_chunks chunk_bytes st = Some st' \<and> length st' = length st
    \<and> (\<forall>c<D. chunk_of cb c st' = chunk_of cb c st)
    \<and> (\<forall>s<S. \<forall>q<M. q < K \<longrightarrow>
          chunk_of cb (D + s * M + q) st' = chunk_of cb (if s * K + q < D then s * K + q else 0) st)"
proof -
  have sizes: "isal_sizes lib" using lib by (simp add: isal_coding_def)
  obtain st' where st': "encode_stripes lib k m data_chunks chunk_bytes st = Some st'" "length st' = length st"
    "\<forall>c<D. chunk_of cb c st' = chunk_of cb c st"
    "\<forall>s<S. \<forall>q<M. chunk_of cb (D + s * M + q) st'
        = ec_encode_data lib cb K M (code_tables lib K M) (stripe_data K D cb s st) ! q"
    using encode_stripes_eq [OF sizes, where k = k and m = m and data_chunks = data_chunks and chunk_bytes = chunk_bytes
        and st = st, folded dims(1-4), folded dims(5)] ints k st pos by auto
  have "ec_encode_data lib cb K M (code_tables lib K M) (stripe_data K D cb s st) ! q
      = chunk_of cb (if s * K + q < D then s * K + q else 0) st" if q: "q < M" "q < K" for s q
  proof -
    let ?a = "gf_gen_rs_matrix lib (K + M) K" and ?d = "stripe_data K D cb s st"
    have "length (chunk_of cb c st) = cb" if "c < D" for c
      using length_chunk [of c "D + S * M" st cb] that st(1) by simp
    then have len: "length ?d = K" "\<forall>d \<in> set ?d. length d = cb" using pos(2) by (auto simp: stripe_data_def)
    have "length ?a = (K + M) * K" using sizes by (simp add: isal_sizes_def)
    then have a: "K * M \<le> length ?a" by (simp add: algebra_simps)
    have unit: "\<forall>i<K. ?a ! (q * K + i) = (if i = q then 1 else 0)"
      using lib q unfolding isal_coding_def by auto
    have "ec_encode_data lib cb K M (ec_init_tables lib K M ?a) ?d ! q = ?d ! q"
      by (rule isal_codingD [OF lib q a len unit])
    then show ?thesis using q(2) by (simp add: code_tables_def stripe_data_def)
  qed
  then show ?thesis using st' by auto
qed

text \<open>C39: The first parity chunks of a stripe are copies of data chunks.  The tables are built from the beginning
  of the encoding matrix, where the library puts the identity, instead of from the rows below it: with a
  library that codes as documented, and sizes that fit the code's \<open>int\<close> arithmetic, the encoding does
  not fault and parity chunk \<open>q\<close> of a stripe, for each \<open>q\<close> below both \<open>m\<close> and \<open>k\<close>, is a copy of the stripe's
  data chunk \<open>q\<close> (of chunk 0 if the stripe has none).  If moreover \<open>m\<close> is at most \<open>k\<close>, which makes these all
  the parity chunks, then the parity does not depend on the data chunks from \<open>m\<close> on of any stripe: data
  that differ from the given ones only there have the same parity.  Of the parity chunks from \<open>k\<close> on, which
  exist if \<open>m\<close> is greater than \<open>k\<close>, the property says nothing.\<close>

theorem ec_parity_copies_data:
  assumes lib: "isal_coding lib"
    and dims: "K = unat k" "M = unat m" "D = unat data_chunks" "cb = unat chunk_bytes" "S = packet_count D K"
    and ints: "K * (K + M) < 2 ^ 31" "M * K * 32 < 2 ^ 31" and k: "k \<noteq> 0"
    and st: "length st = (D + S * M) * cb" "length st < 2 ^ 31" and pos: "0 < cb" "0 < D"
  shows "\<exists>st'. encode_stripes lib k m data_chunks chunk_bytes st = Some st' \<and> length st' = length st
    \<and> (\<forall>c<D. chunk_of cb c st' = chunk_of cb c st)
    \<and> (\<forall>s<S. \<forall>q<M. q < K \<longrightarrow>
          chunk_of cb (D + s * M + q) st' = chunk_of cb (if s * K + q < D then s * K + q else 0) st)
    \<and> (M \<le> K \<longrightarrow> (\<forall>other. length other = length st
          \<and> (\<forall>c<D. c mod K < M \<longrightarrow> chunk_of cb c other = chunk_of cb c st) \<longrightarrow>
            (\<exists>other'. encode_stripes lib k m data_chunks chunk_bytes other = Some other'
              \<and> (\<forall>s<S. \<forall>q<M. chunk_of cb (D + s * M + q) other' = chunk_of cb (D + s * M + q) st'))))"
proof -
  note copies = parity_copies [OF lib dims ints k]
  obtain st' where st': "encode_stripes lib k m data_chunks chunk_bytes st = Some st'" "length st' = length st"
    "\<forall>c<D. chunk_of cb c st' = chunk_of cb c st"
    "\<forall>s<S. \<forall>q<M. q < K \<longrightarrow> chunk_of cb (D + s * M + q) st' = chunk_of cb (if s * K + q < D then s * K + q else 0) st"
    using copies [OF st pos] by blast
  have "\<exists>other'. encode_stripes lib k m data_chunks chunk_bytes other = Some other'
      \<and> (\<forall>s<S. \<forall>q<M. chunk_of cb (D + s * M + q) other' = chunk_of cb (D + s * M + q) st')"
    if le: "M \<le> K" and other: "length other = length st" "\<forall>c<D. c mod K < M \<longrightarrow> chunk_of cb c other = chunk_of cb c st" for other
  proof -
    obtain other' where o: "encode_stripes lib k m data_chunks chunk_bytes other = Some other'"
      "\<forall>s<S. \<forall>q<M. q < K \<longrightarrow> chunk_of cb (D + s * M + q) other' = chunk_of cb (if s * K + q < D then s * K + q else 0) other"
      using copies [of other] other(1) st pos by auto
    have "chunk_of cb (if s * K + q < D then s * K + q else 0) other = chunk_of cb (if s * K + q < D then s * K + q else 0) st"
      if "q < M" for s q
      using other(2) that le pos(2) by auto
    then show ?thesis using o st'(4) le by (intro exI [of _ other']) (auto dest: less_le_trans)
  qed
  then show ?thesis using st' by (intro exI [of _ st']) blast
qed

theorem ec_parity_copies_data_witness:
  "\<exists>st' other'. encode_stripes demo_isal 2 1 3 2 [1, 2, 3, 4, 5, 0, 0, 0, 0, 0] = Some st'
    \<and> chunk_of 2 3 st' = [1, 2] \<and> chunk_of 2 4 st' = [5, 0]
    \<and> encode_stripes demo_isal 2 1 3 2 [1, 2, 77, 88, 5, 0, 0, 0, 0, 0] = Some other'
    \<and> chunk_of 2 3 other' = chunk_of 2 3 st' \<and> chunk_of 2 4 other' = chunk_of 2 4 st'"
proof -
  have dims: "2 = unat (2 :: u16)" "1 = unat (1 :: u16)" "3 = unat (3 :: u32)" "2 = unat (2 :: u32)" "2 = packet_count 3 2"
    by (simp_all add: packet_count_def)
  let ?st = "[1, 2, 3, 4, 5, 0, 0, 0, 0, 0] :: u8 list" and ?other = "[1, 2, 77, 88, 5, 0, 0, 0, 0, 0] :: u8 list"
  have sizes: "2 * (2 + 1) < (2 :: nat) ^ 31" "1 * 2 * 32 < (2 :: nat) ^ 31" "(2 :: u16) \<noteq> 0"
    "length ?st = (3 + 2 * 1) * 2" "length ?st < 2 ^ 31" "0 < (2 :: nat)" "0 < (3 :: nat)" by simp_all
  obtain st' where st': "encode_stripes demo_isal 2 1 3 2 ?st = Some st'"
    and c: "\<forall>s<2. \<forall>q<1. q < 2 \<longrightarrow> chunk_of 2 (3 + s * 1 + q) st' = chunk_of 2 (if s * 2 + q < 3 then s * 2 + q else 0) ?st"
    and same: "1 \<le> (2 :: nat) \<longrightarrow> (\<forall>other. length other = length ?st
          \<and> (\<forall>c<3. c mod 2 < 1 \<longrightarrow> chunk_of 2 c other = chunk_of 2 c ?st) \<longrightarrow>
            (\<exists>other'. encode_stripes demo_isal 2 1 3 2 other = Some other'
              \<and> (\<forall>s<2. \<forall>q<1. chunk_of 2 (3 + s * 1 + q) other' = chunk_of 2 (3 + s * 1 + q) st')))"
    using ec_parity_copies_data [OF demo_isal_coding dims sizes] by (elim exE conjE) (rule that)
  have "chunk_of 2 c ?other = chunk_of 2 c ?st" if "c < 3" "c mod 2 < 1" for c
  proof -
    have "c = 0 \<or> c = 2" using that by presburger
    then show ?thesis by (elim disjE) (simp_all add: chunk_of_def)
  qed
  then have agree: "length ?other = length ?st \<and> (\<forall>c<3. c mod 2 < 1 \<longrightarrow> chunk_of 2 c ?other = chunk_of 2 c ?st)"
    by (intro conjI allI impI) simp_all
  have "1 \<le> (2 :: nat)" by simp
  from same [THEN mp, OF this, THEN spec, THEN mp, OF agree]
  obtain other' where other': "encode_stripes demo_isal 2 1 3 2 ?other = Some other'"
    "\<forall>s<2. \<forall>q<1. chunk_of 2 (3 + s * 1 + q) other' = chunk_of 2 (3 + s * 1 + q) st'" by (elim exE conjE) (rule that)
  have "chunk_of 2 (3 + 0 * 1 + 0) st' = chunk_of 2 (if 0 * 2 + 0 < (3 :: nat) then 0 * 2 + 0 else 0) ?st"
    "chunk_of 2 (3 + 1 * 1 + 0) st' = chunk_of 2 (if 1 * 2 + 0 < (3 :: nat) then 1 * 2 + 0 else 0) ?st"
    using c [rule_format, of 0 0] c [rule_format, of 1 0] by simp_all
  moreover have "chunk_of 2 (3 + 0 * 1 + 0) other' = chunk_of 2 (3 + 0 * 1 + 0) st'"
    "chunk_of 2 (3 + 1 * 1 + 0) other' = chunk_of 2 (3 + 1 * 1 + 0) st'"
    using other'(2) [rule_format, of 0 0] other'(2) [rule_format, of 1 0] by simp_all
  ultimately show ?thesis using st' other'(1) by (intro exI [of _ st'] exI [of _ other']) (simp add: chunk_of_def)
qed

end
