(* ===== verification/EC_Sender.thy ===== *)
theory EC_Sender
  imports EC_Encoding
begin

text \<open>
  The control loop of the erasure-coding sender (\<open>ECSender::poll\<close> of \<open>reliability/ec.cpp\<close>): it waits for
  an acknowledgement, and sends the chunks again that a message reports as missing.
\<close>

section \<open>Sending a chunk again\<close>

text \<open>
  One packet; \<open>Inl (Some e)\<close> is the \<open>break\<close>.  The answer of \<open>inet_pton\<close> is not looked at.
\<close>

definition ec_packet ::
    "ConnectionParams \<Rightarrow> SDRSendHandle \<Rightarrow> u32 \<Rightarrow> u16 \<Rightarrow> ECSender \<Rightarrow> ECSender option + ECSender" where
  "ec_packet params handle chunk_id pkt e =
     (let mtu = ec_mtu params; ppc = ec_ppc params;
          packet_offset = chunk_id * ucast ppc + ucast pkt;
          data_offset = ucast packet_offset * ucast mtu
      in if data_offset \<ge> sh_buffer_size handle then Inl (Some e)
         else
           let remaining = sh_buffer_size handle - data_offset;
               pkt_len = min (ucast mtu) remaining
           in case make_datagram (cp_transfer_id params) (sh_msg_id handle) packet_offset ppc
                     (drop (unat data_offset) (sh_user_buffer handle)) pkt_len of
                None \<Rightarrow> Inl None
              | Some None \<Rightarrow> Inl (Some e)
              | Some (Some bytes) \<Rightarrow> Inr (e\<lparr>es_wire := es_wire e @ [(cp_udp_server_port params, bytes)]\<rparr>))"

text \<open>\<open>socket i\<close> is the result of the \<open>i\<close>-th call of \<open>socket\<close>.\<close>

definition retransmit_chunk ::
    "(nat \<Rightarrow> int) \<Rightarrow> ConnectionParams \<Rightarrow> SDRSendHandle \<Rightarrow> u32 \<Rightarrow> ECSender \<Rightarrow> ECSender option" where
  "retransmit_chunk socket params handle chunk_id e =
     (let udp_socket = socket (es_sockets e);
          e = e\<lparr>es_sockets := es_sockets e + 1\<rparr>
      in if udp_socket < 0 then Some e
         else loop_result (for_exit 0 (ec_ppc params) (ec_packet params handle chunk_id) e))"

section \<open>Requests\<close>

text \<open>The bitmap of a message: up to 16 words, and no chunk beyond the data.\<close>

definition ec_apply_bitmap :: "u32 \<Rightarrow> ControlMessage \<Rightarrow> bool list \<Rightarrow> bool list option" where
  "ec_apply_bitmap data_chunks msg chunk_acked = mark_bitmap 16 data_chunks msg chunk_acked"

text \<open>A reported gap; \<open>num_gaps\<close> is not checked against the 16 gaps of a message.\<close>

definition ec_gap_chunk ::
    "(nat \<Rightarrow> int) \<Rightarrow> ConnectionParams \<Rightarrow> SDRSendHandle \<Rightarrow> u32 \<Rightarrow> ECSender \<Rightarrow> ECSender option" where
  "ec_gap_chunk socket params handle c e =
     (case arr_get (es_chunk_acked e) (unat c) of
        None \<Rightarrow> None
      | Some acks \<Rightarrow> if acks then Some e else retransmit_chunk socket params handle c e)"

definition ec_gap ::
    "(nat \<Rightarrow> int) \<Rightarrow> ConnectionParams \<Rightarrow> SDRSendHandle \<Rightarrow> u32 \<Rightarrow> ControlMessage \<Rightarrow> u16 \<Rightarrow> ECSender \<Rightarrow> ECSender option" where
  "ec_gap socket params handle data_chunks msg i e =
     (case (arr_get (cm_gap_start msg) (unat i), arr_get (cm_gap_len msg) (unat i)) of
        (Some g_start, Some g_len) \<Rightarrow>
          (let start = (ucast g_start :: u32); len = ucast g_len
           in for_while start (min (start + len) data_chunks) (\<lambda>_. True) (ec_gap_chunk socket params handle) e)
      | _ \<Rightarrow> None)"

text \<open>Chunks whose bit is not set are sent again, \<open>limit\<close> of them at most.\<close>

definition ec_missing_bit ::
    "(nat \<Rightarrow> int) \<Rightarrow> ConnectionParams \<Rightarrow> SDRSendHandle \<Rightarrow> u32 \<Rightarrow> u32 \<Rightarrow> u64 \<Rightarrow> u32 \<Rightarrow> u32 \<Rightarrow> u32 \<times> ECSender
      \<Rightarrow> (u32 \<times> ECSender) option + u32 \<times> ECSender" where
  "ec_missing_bit socket params handle data_chunks limit word w b st =
     (let (sent, e) = st; chunk_id = w * 64 + b in
      if \<not> sent < limit then Inl (Some st)
      else if chunk_id \<ge> data_chunks then Inl (Some st)
      else if word AND push_bit (unat b) 1 = 0
      then (case retransmit_chunk socket params handle chunk_id e of
              None \<Rightarrow> Inl None | Some e \<Rightarrow> Inr (sent + 1, e))
      else Inr st)"

definition retransmit_missing_bitmap ::
    "(nat \<Rightarrow> int) \<Rightarrow> ConnectionParams \<Rightarrow> SDRSendHandle \<Rightarrow> u32 \<Rightarrow> ControlMessage \<Rightarrow> u32 \<Rightarrow> ECSender \<Rightarrow> ECSender option" where
  "retransmit_missing_bitmap socket params handle data_chunks msg limit e =
     map_option snd (for_while 0 (min (ucast (cm_chunk_bitmap_words msg)) 16 :: u32) (\<lambda>(sent, e). sent < limit)
       (\<lambda>w st. case arr_get (cm_chunk_bitmap msg) (unat w) of
          None \<Rightarrow> None
        | Some word \<Rightarrow>
            loop_result (for_exit 0 64 (ec_missing_bit socket params handle data_chunks limit word w) st)) (0, e))"

definition ec_all_done :: "u32 \<Rightarrow> bool list \<Rightarrow> bool option" where
  "ec_all_done data_chunks acks =
     loop_result (for_exit 0 data_chunks
       (\<lambda>c u. case arr_get acks (unat c) of
          None \<Rightarrow> Inl None
        | Some a \<Rightarrow> if a then Inr u else Inl (Some False)) True)"

definition ec_wants_chunks :: "ControlMessage \<Rightarrow> bool" where
  "ec_wants_chunks msg \<longleftrightarrow> wanted EC_NACK msg \<or> wanted EC_FALLBACK_SR msg \<or> wanted SR_NACK msg \<or> wanted SR_ACK msg"

text \<open>The handling of such a message; the answer says whether every data chunk is acknowledged now.\<close>

definition on_ec_request ::
    "(nat \<Rightarrow> int) \<Rightarrow> ConnectionParams \<Rightarrow> SDRSendHandle \<Rightarrow> u32 \<Rightarrow> ControlMessage \<Rightarrow> ECSender \<Rightarrow> (bool \<times> ECSender) option" where
  "on_ec_request socket params handle data_chunks msg e =
     (case ec_apply_bitmap data_chunks msg (es_chunk_acked e) of
        None \<Rightarrow> None
      | Some acks \<Rightarrow>
          (case for_while 0 (cm_num_gaps msg) (\<lambda>_. True) (ec_gap socket params handle data_chunks msg)
                  (e\<lparr>es_chunk_acked := acks\<rparr>) of
             None \<Rightarrow> None
           | Some e \<Rightarrow>
               (case retransmit_missing_bitmap socket params handle data_chunks msg 8 e of
                  None \<Rightarrow> None
                | Some e \<Rightarrow> map_option (\<lambda>done. (done, e)) (ec_all_done data_chunks (es_chunk_acked e)))))"

section \<open>The loop\<close>

definition ec_set_client :: "TCPControlClient option \<Rightarrow> SDRConnection \<Rightarrow> ECSender \<Rightarrow> ECSender" where
  "ec_set_client cl conn e = e\<lparr>es_conn := Some (conn\<lparr>sc_tcp_client := cl\<rparr>)\<rparr>"

text \<open>The number of data chunks is computed again, from the parameters that the CTS has set since.\<close>

definition ec_poll_chunks :: "ECConfig \<Rightarrow> ConnectionParams \<Rightarrow> u32" where
  "ec_poll_chunks cfg params = ec_data_chunks (ecc_data_bytes cfg) (ec_chunk_bytes params)"

text \<open>One iteration; \<open>Some rc\<close> returns, \<open>None\<close> goes on.\<close>

definition ec_poll_step ::
    "(nat \<Rightarrow> int) \<Rightarrow> ECSender \<Rightarrow> NetEvent list \<Rightarrow> (int option \<times> ECSender \<times> NetEvent list) run" where
  "ec_poll_step socket e evs =
     (case (es_sends e, es_conn e) of
        (handle # _, Some conn) \<Rightarrow>
          (case sc_tcp_client conn of
             None \<Rightarrow> Ret (Some (- 1), e, evs)
           | Some cl \<Rightarrow>
               (let params = cc_params (sc_connection_ctx conn);
                    data_chunks = ec_poll_chunks (es_cfg e) params
                in case client_receive cl zero_message evs of
                     None \<Rightarrow> Blocked
                   | Some (ok, msg, cl, evs) \<Rightarrow>
                       (if \<not> ok
                        then run_bind (sdr_send_poll True (Some cl) evs)
                               (\<lambda>(rc, cl, evs).
                                  Ret (if rc = 0 then Some 0
                                       else if \<not> (case cl of None \<Rightarrow> False | Some c \<Rightarrow> is_connected c)
                                       then Some (- 1) else None, ec_set_client cl conn e, evs))
                        else
                          let e = ec_set_client (Some cl) conn e in
                          if wanted EC_ACK msg \<or> wanted COMPLETE_ACK msg then Ret (Some 0, e, evs)
                          else if ec_wants_chunks msg
                          then (case on_ec_request socket params handle data_chunks msg e of
                                  None \<Rightarrow> Crash
                                | Some (done, e) \<Rightarrow> Ret (if done then Some 0 else None, e, evs))
                          else Ret (None, e, evs))))
      | _ \<Rightarrow> Ret (Some (- 1), e, evs))"

lemma ec_poll_step_uses:
  assumes "ec_poll_step socket e evs = Ret (None, e', evs')"
  shows "net_size evs' < net_size evs"
proof -
  obtain h hs conn cl ok msg cl1 evs1 where c: "es_sends e = h # hs" "es_conn e = Some conn" "sc_tcp_client conn = Some cl"
    "client_receive cl zero_message evs = Some (ok, msg, cl1, evs1)"
    using assms by (auto simp: ec_poll_step_def Let_def split: option.splits prod.splits list.splits)
  note u = client_receive_uses [OF c(4)]
  have le: "net_size evs' \<le> net_size evs1"
    using assms send_poll_uses(1) [of cl1 evs1]
    by (cases "sdr_send_poll True (Some cl1) evs1")
      (auto simp: ec_poll_step_def c Let_def split: if_splits option.splits prod.splits)
  have "is_connected cl"
  proof (rule ccontr)
    assume "\<not> is_connected cl"
    then have "\<not> ok" "\<not> is_connected cl1" using u(1) by simp_all
    then show False using assms by (simp add: ec_poll_step_def c sdr_send_poll_def Let_def)
  qed
  then show ?thesis using u(1) le by simp
qed

function ec_poll :: "(nat \<Rightarrow> int) \<Rightarrow> ECSender \<Rightarrow> NetEvent list \<Rightarrow> (int \<times> ECSender \<times> NetEvent list) run" where
  "ec_poll socket e evs =
     (case ec_poll_step socket e evs of
        Crash \<Rightarrow> Crash
      | Blocked \<Rightarrow> Blocked
      | Ret (Some rc, e', evs') \<Rightarrow> Ret (rc, e', evs')
      | Ret (None, e', evs') \<Rightarrow> ec_poll socket e' evs')"
  by pat_completeness auto
termination
  by (relation "measure (\<lambda>(socket, e, evs). net_size evs)") (auto dest: ec_poll_step_uses)

declare ec_poll.simps [simp del]

section \<open>Sending again stays inside the storage\<close>

text \<open>\<open>e'\<close> differs from \<open>e\<close> by sending.\<close>

definition ec_sent :: "ECSender \<Rightarrow> ECSender \<Rightarrow> bool" where
  "ec_sent e e' \<longleftrightarrow> (\<exists>n w. e' = e\<lparr>es_sockets := n, es_wire := es_wire e @ w\<rparr>)"

lemma ec_sent_refl [simp]: "ec_sent e e"
  unfolding ec_sent_def by (intro exI [of _ "es_sockets e"] exI [of _ "[]"]) simp

lemma ec_sent_trans: "ec_sent e e' \<Longrightarrow> ec_sent e' e'' \<Longrightarrow> ec_sent e e''"
  by (auto simp: ec_sent_def) (metis append_assoc)

lemma ec_sent_fields:
  assumes "ec_sent e e'"
  shows "es_cfg e' = es_cfg e" "es_sends e' = es_sends e" "es_conn e' = es_conn e" "es_chunk_acked e' = es_chunk_acked e"
    "es_send_storage e' = es_send_storage e"
  using assms by (auto simp: ec_sent_def)

lemma ec_mtu_bounds: "0 < unat (ec_mtu params)" "unat (ec_mtu params) \<le> 65496"
  by (simp_all add: ec_mtu_def Let_def word_less_nat_alt unat_gt_0 not_less split: if_splits)

lemma ec_ppc_pos: "0 < unat (ec_ppc params)"
  by (simp add: ec_ppc_def unat_gt_0)

lemma ec_packet_safe:
  assumes "unat (sh_buffer_size h) = length (sh_user_buffer h)"
  shows "\<exists>e'. ec_sent e e' \<and> (ec_packet params h c pkt e = Inr e' \<or> ec_packet params h c pkt e = Inl (Some e'))"
proof -
  let ?off = "ucast (c * ucast (ec_ppc params) + ucast pkt) * ucast (ec_mtu params) :: u64"
  let ?len = "min (ucast (ec_mtu params)) (sh_buffer_size h - ?off)"
  show ?thesis
  proof (cases "?off \<ge> sh_buffer_size h")
    case True
    then have "ec_packet params h c pkt e = Inl (Some e)" by (simp add: ec_packet_def Let_def)
    then show ?thesis by (intro exI [of _ e]) simp
  next
    case False
    have "unat ?len \<le> unat (sh_buffer_size h - ?off)" by (simp add: min_def word_le_nat_alt)
    also have "\<dots> = length (drop (unat ?off) (sh_user_buffer h))"
      using False assms by (subst unat_sub) (simp_all add: not_le order_less_imp_le)
    finally have "unat ?len \<le> length (drop (unat ?off) (sh_user_buffer h))" .
    moreover have "?len \<le> MAX_PAYLOAD_SIZE"
    proof -
      have "?len \<le> ucast (ec_mtu params)" by simp
      moreover have "(ucast (ec_mtu params) :: u64) \<le> MAX_PAYLOAD_SIZE"
        using ec_mtu_bounds(2) [of params] by (simp add: word_le_nat_alt)
      ultimately show ?thesis by (rule order_trans)
    qed
    ultimately obtain bytes where d: "make_datagram (cp_transfer_id params) (sh_msg_id h)
        (c * ucast (ec_ppc params) + ucast pkt) (ec_ppc params) (drop (unat ?off) (sh_user_buffer h)) ?len = Some (Some bytes)"
      unfolding make_datagram_def by (simp only: create_data_packet_ok option.map)
    have "ec_packet params h c pkt e = Inr (e\<lparr>es_wire := es_wire e @ [(cp_udp_server_port params, bytes)]\<rparr>)"
      unfolding ec_packet_def Let_def d using False by simp
    moreover have "ec_sent e (e\<lparr>es_wire := es_wire e @ [(cp_udp_server_port params, bytes)]\<rparr>)"
      unfolding ec_sent_def by (intro exI [of _ "es_sockets e"] exI [of _ "[(cp_udp_server_port params, bytes)]"]) simp
    ultimately show ?thesis by blast
  qed
qed

lemma ec_packets_safe:
  assumes "unat (sh_buffer_size h) = length (sh_user_buffer h)"
  shows "\<exists>e'. loop_result (for_exit i n (ec_packet params h c) e) = Some e' \<and> ec_sent e e'"
proof (induction i n "ec_packet params h c" e rule: for_exit.induct)
  case (1 i n e)
  show ?case
  proof (cases "i < n")
    case True
    obtain e1 where e1: "ec_sent e e1"
      "ec_packet params h c i e = Inr e1 \<or> ec_packet params h c i e = Inl (Some e1)"
      using ec_packet_safe [OF assms] by blast
    then show ?thesis
      using 1 [OF True, of e1] True ec_sent_trans [OF e1(1)] by (auto simp: for_exit_step)
  qed simp
qed

lemma retransmit_chunk_safe:
  assumes "unat (sh_buffer_size h) = length (sh_user_buffer h)"
  shows "\<exists>e'. retransmit_chunk socket params h c e = Some e' \<and> ec_sent e e'"
proof -
  let ?e = "e\<lparr>es_sockets := es_sockets e + 1\<rparr>"
  have s: "ec_sent e ?e"
    unfolding ec_sent_def by (intro exI [of _ "es_sockets e + 1"] exI [of _ "[]"]) simp
  obtain e' where "loop_result (for_exit 0 (ec_ppc params) (ec_packet params h c) ?e) = Some e'" "ec_sent ?e e'"
    using ec_packets_safe [OF assms] by blast
  with ec_sent_trans [OF s] s show ?thesis by (auto simp: retransmit_chunk_def Let_def)
qed

text \<open>A loop whose turns send; \<open>proj\<close> picks the sender out of the loop's state.\<close>

lemma for_while_sends:
  assumes "\<And>k t. unat a \<le> k \<Longrightarrow> k < unat n \<Longrightarrow> ec_sent (proj st) (proj t) \<Longrightarrow>
      \<exists>t'. f (of_nat k) t = Some t' \<and> ec_sent (proj t) (proj t')"
  shows "\<exists>st'. for_while a n g f st = Some st' \<and> ec_sent (proj st) (proj st')"
proof (cases "a \<le> n")
  case True
  have "\<exists>st' j. for_while a n g f st = Some st' \<and> unat a \<le> j \<and> j \<le> unat n \<and> ec_sent (proj st) (proj st')
      \<and> (j = unat n \<or> \<not> g st')"
    by (rule for_while_total [OF _ True]) (use assms in \<open>simp, blast intro: ec_sent_trans\<close>)
  then show ?thesis by blast
next
  case False
  then have "\<not> a < n" by (metis order_less_imp_le)
  then show ?thesis by (intro exI [of _ st]) (simp only: for_while_done ec_sent_refl simp_thms)
qed

lemma ec_gap_safe:
  assumes h: "unat (sh_buffer_size h) = length (sh_user_buffer h)" and len: "unat data_chunks \<le> length (es_chunk_acked e)"
    and wf: "wf_message msg" and i: "i < 16"
  shows "\<exists>e'. ec_gap socket params h data_chunks msg (of_nat i) e = Some e' \<and> ec_sent e e'"
proof -
  have ui: "unat (of_nat i :: u16) = i" using i by (simp add: unat_of_nat_small)
  have get: "arr_get (cm_gap_start msg) i = Some (cm_gap_start msg ! i)"
    "arr_get (cm_gap_len msg) i = Some (cm_gap_len msg ! i)" using wf i by (simp_all add: wf_message_def)
  have "\<exists>e'. for_while a (min b data_chunks) (\<lambda>_. True) (ec_gap_chunk socket params h) e = Some e' \<and> ec_sent e e'" for a b
  proof (rule for_while_sends [where proj = "\<lambda>e. e"])
    fix k t assume k: "k < unat (min b data_chunks)" and t: "ec_sent e t"
    have kD: "k < unat data_chunks" using k by (simp add: min_def word_le_nat_alt split: if_splits)
    have "unat (of_nat k :: u32) = k" using kD by (rule unat_of_nat_below)
    moreover have "k < length (es_chunk_acked t)" using kD len ec_sent_fields(4) [OF t] by simp
    ultimately show "\<exists>t'. ec_gap_chunk socket params h (of_nat k) t = Some t' \<and> ec_sent t t'"
      using retransmit_chunk_safe [OF h, of socket params "of_nat k" t] by (auto simp: ec_gap_chunk_def)
  qed
  then show ?thesis by (simp add: ec_gap_def ui get Let_def)
qed

lemma missing_bits_safe:
  assumes h: "unat (sh_buffer_size h) = length (sh_user_buffer h)"
  shows "\<exists>st'. loop_result (for_exit b n (ec_missing_bit socket params h data_chunks limit word w) st) = Some st'
    \<and> ec_sent (snd st) (snd st')"
proof (induction b n "ec_missing_bit socket params h data_chunks limit word w" st rule: for_exit.induct)
  case (1 b n st)
  let ?f = "ec_missing_bit socket params h data_chunks limit word w"
  show ?case
  proof (cases "b < n")
    case True
    obtain sent e where st: "st = (sent, e)" by (cases st)
    obtain e' where e': "retransmit_chunk socket params h (w * 64 + b) e = Some e'" "ec_sent e e'"
      using retransmit_chunk_safe [OF h] by blast
    have "?f b st = Inl (Some st) \<or> ?f b st = Inr st \<or> ?f b st = Inr (sent + 1, e')"
      using e'(1) by (simp add: ec_missing_bit_def st Let_def)
    then show ?thesis
      using 1 [OF True] True ec_sent_trans [OF e'(2)] by (elim disjE) (auto simp: for_exit_step st)
  qed simp
qed

lemma missing_bitmap_safe:
  assumes h: "unat (sh_buffer_size h) = length (sh_user_buffer h)" and wf: "wf_message msg"
  shows "\<exists>e'. retransmit_missing_bitmap socket params h data_chunks msg limit e = Some e' \<and> ec_sent e e'"
proof -
  let ?n = "min (ucast (cm_chunk_bitmap_words msg)) 16 :: u32"
  let ?f = "\<lambda>w st. case arr_get (cm_chunk_bitmap msg) (unat w) of None \<Rightarrow> None
    | Some word \<Rightarrow> loop_result (for_exit 0 64 (ec_missing_bit socket params h data_chunks limit word w) st)"
  have "\<exists>st'. for_while 0 ?n (\<lambda>(sent, e). sent < limit) ?f (0, e) = Some st' \<and> ec_sent e (snd st')"
  proof (rule for_while_sends [where proj = snd and st = "(0, e)", unfolded snd_conv])
    fix k and st :: "u32 \<times> ECSender"
    assume k: "k < unat ?n"
    have "k < 16" using k by (simp add: min_def word_le_nat_alt split: if_splits)
    then have "arr_get (cm_chunk_bitmap msg) (unat (of_nat k :: u32)) = Some (cm_chunk_bitmap msg ! k)"
      using wf by (simp add: unat_of_nat_small wf_message_def)
    then show "\<exists>st'. ?f (of_nat k) st = Some st' \<and> ec_sent (snd st) (snd st')"
      using missing_bits_safe [OF h] by simp
  qed
  then show ?thesis by (auto simp: retransmit_missing_bitmap_def)
qed

lemma ec_all_done_eq:
  assumes "unat data_chunks \<le> length l"
  shows "ec_all_done data_chunks l = Some ({..<unat data_chunks} \<subseteq> acked_list l)"
proof -
  let ?f = "\<lambda>(c :: u32) u. case arr_get l (unat c) of None \<Rightarrow> Inl None | Some a \<Rightarrow> if a then Inr u else Inl (Some False)"
  have "for_exit 0 data_chunks ?f True = (if \<forall>k. unat (0 :: u32) \<le> k \<and> k < unat data_chunks \<longrightarrow> l ! k then Inr True
      else Inl (Some False))"
  proof (rule for_exit_all)
    fix k assume "k < unat data_chunks"
    then have "unat (of_nat k :: u32) = k" "k < length l" using assms by (simp_all add: unat_of_nat_below)
    then show "?f (of_nat k) True = (if l ! k then Inr True else Inl (Some False))" by simp
  qed
  then show ?thesis using assms by (auto simp: ec_all_done_def acked_list_def)
qed

section \<open>What is sent again\<close>

definition ec_datagram :: "ConnectionParams \<Rightarrow> SDRSendHandle \<Rightarrow> nat \<Rightarrow> u16 \<times> u8 list" where
  "ec_datagram params h p = (cp_udp_server_port params, data_datagram (cp_transfer_id params) (sh_msg_id h)
     (ec_ppc params) (unat (ec_mtu params)) (sh_user_buffer h) p)"

definition ec_chunk :: "ConnectionParams \<Rightarrow> SDRSendHandle \<Rightarrow> nat \<Rightarrow> nat list" where
  "ec_chunk params h c = [c * unat (ec_ppc params) ..<
     min (Suc c * unat (ec_ppc params)) (packet_count (length (sh_user_buffer h)) (unat (ec_mtu params)))]"

lemma ec_packet_eq:
  assumes h: "unat (sh_buffer_size h) = length (sh_user_buffer h)"
    and k: "unat (c * ucast (ec_ppc params) + ucast pkt) = k" and L: "k * unat (ec_mtu params) < 2 ^ 64"
  shows "ec_packet params h c pkt e = (if k < packet_count (length (sh_user_buffer h)) (unat (ec_mtu params))
    then Inr (e\<lparr>es_wire := es_wire e @ [ec_datagram params h k]\<rparr>) else Inl (Some e))"
proof -
  let ?m = "unat (ec_mtu params)" and ?w = "ucast (ec_mtu params) :: u64"
  let ?po = "c * ucast (ec_ppc params) + ucast pkt" let ?off = "ucast ?po * ?w"
  have "unat (ucast ?po :: u64) = k" using k by simp
  then have off: "unat ?off = k * ?m" unfolding unat_word_ariths(2) using L by (simp add: mod_less)
  have w: "unat ?w = ?m" by simp
  have lt: "k < packet_count (length (sh_user_buffer h)) ?m \<longleftrightarrow> k * ?m < length (sh_user_buffer h)"
    using packet_count_iff [OF ec_mtu_bounds(1)] .
  have ge: "?off \<ge> sh_buffer_size h \<longleftrightarrow> \<not> k * ?m < length (sh_user_buffer h)"
    unfolding word_le_nat_alt off h by (simp add: not_less)
  show ?thesis
  proof (cases "k * ?m < length (sh_user_buffer h)")
    case False
    then show ?thesis using ge lt by (simp add: ec_packet_def Let_def)
  next
    case True
    note len = cut_length [OF w ec_mtu_bounds(2) h off True]
    have "\<not> min ?w (sh_buffer_size h - ?off) > MAX_PAYLOAD_SIZE"
    proof -
      have "min ?w (sh_buffer_size h - ?off) \<le> ?w" by simp
      also have "?w \<le> MAX_PAYLOAD_SIZE" using ec_mtu_bounds(2) [of params] by (simp add: word_le_nat_alt)
      finally show ?thesis by (rule leD)
    qed
    then have len': "min ?w (sh_buffer_size h - ?off) = of_nat (length (slice (sh_user_buffer h) ?m k))"
      using len by (simp only: if_False)
    have sk: "?po = of_nat k" using k by (metis of_nat_unat ucast_id)
    have "\<not> ?off \<ge> sh_buffer_size h" using True ge by blast
    then show ?thesis
      unfolding ec_packet_def Let_def len' off
      unfolding sk make_datagram_slice [OF HOL.refl ec_mtu_bounds True]
      using True lt by (simp add: sk ec_datagram_def)
  qed
qed

lemma retransmit_chunk_exact:
  assumes h: "unat (sh_buffer_size h) = length (sh_user_buffer h)" and sock: "\<forall>i. socket i \<ge> 0"
    and fit: "Suc (unat c) * unat (ec_ppc params) < 2 ^ 32"
  shows "retransmit_chunk socket params h c e = Some (e\<lparr>es_sockets := es_sockets e + 1,
    es_wire := es_wire e @ map (ec_datagram params h) (ec_chunk params h (unat c))\<rparr>)"
proof -
  let ?P = "unat (ec_ppc params)" and ?N = "packet_count (length (sh_user_buffer h)) (unat (ec_mtu params))"
  let ?e = "e\<lparr>es_sockets := es_sockets e + 1\<rparr>"
  let ?at = "\<lambda>k. ?e\<lparr>es_wire := es_wire e @ map (ec_datagram params h) [unat c * ?P ..< min (unat c * ?P + k) ?N]\<rparr>"
  let ?Q = "\<lambda>x. x = Some (?at ?P)"
  have u: "unat (c * ucast (ec_ppc params) + ucast (of_nat k :: u16)) = unat c * ?P + k" if "k < ?P" for k
  proof -
    have k: "unat (of_nat k :: u16) = k" using that by (rule unat_of_nat_below)
    have "unat c * ?P + k < 2 ^ 32" using fit that by simp
    moreover from this have "unat (c * ucast (ec_ppc params) :: u32) = unat c * ?P"
      unfolding unat_word_ariths(2) by simp
    ultimately show ?thesis unfolding unat_word_ariths(1) by (simp add: k)
  qed
  have L: "(unat c * ?P + k) * unat (ec_mtu params) < 2 ^ 64" if "k < ?P" for k
  proof -
    have "unat c * ?P + k \<le> 2 ^ 32" using fit that by simp
    then have "(unat c * ?P + k) * unat (ec_mtu params) \<le> 2 ^ 32 * 65496" using ec_mtu_bounds(2) by (rule mult_le_mono)
    then show ?thesis by simp
  qed
  note step = ec_packet_eq [OF h u L]
  have "case for_exit 0 (ec_ppc params) (ec_packet params h c) ?e of Inr t \<Rightarrow> t = ?at ?P | Inl x \<Rightarrow> ?Q x"
  proof (rule for_exit_rule [where P = "\<lambda>k t. t = ?at k"])
    show "?e = ?at (unat (0 :: u16))" by (simp add: min_def)
    show "0 \<le> ec_ppc params" by simp
  next
    fix k t t' assume k: "k < ?P" and t: "t = ?at k" and r: "ec_packet params h c (of_nat k) t = Inr t'"
    have "unat c * ?P + k < ?N" "t' = t\<lparr>es_wire := es_wire t @ [ec_datagram params h (unat c * ?P + k)]\<rparr>"
      using r step [OF k k, of t] by (auto split: if_splits)
    then show "t' = ?at (Suc k)" by (simp add: t min_def)
  next
    fix k t x assume k: "k < ?P" and t: "t = ?at k" and r: "ec_packet params h c (of_nat k) t = Inl x"
    have "\<not> unat c * ?P + k < ?N" "x = Some t" using r step [OF k k, of t] by (auto split: if_splits)
    then show "x = Some (?at ?P)" using k by (simp add: t min_def)
  qed
  then have "loop_result (for_exit 0 (ec_ppc params) (ec_packet params h c) ?e) = Some (?at ?P)"
    by (cases "for_exit 0 (ec_ppc params) (ec_packet params h c) ?e") simp_all
  moreover have "\<not> socket (es_sockets e) < 0" using sock by (simp add: not_less)
  ultimately show ?thesis by (simp add: retransmit_chunk_def Let_def ec_chunk_def add.commute)
qed

text \<open>All gaps of a message: every chunk in them that is not acknowledged is sent.\<close>

definition ec_new_wire :: "ECSender \<Rightarrow> ECSender \<Rightarrow> (u16 \<times> u8 list) list" where
  "ec_new_wire e t = drop (length (es_wire e)) (es_wire t)"

lemma ec_new_wire_append:
  assumes "ec_sent e t" and "ec_sent t t'"
  shows "\<exists>w. es_wire t' = es_wire t @ w \<and> ec_new_wire e t' = ec_new_wire e t @ w"
proof -
  obtain v w where "es_wire t = es_wire e @ v" "es_wire t' = es_wire t @ w"
    using assms by (auto simp: ec_sent_def)
  then show ?thesis by (intro exI [of _ w]) (simp add: ec_new_wire_def)
qed

definition ec_resent :: "ConnectionParams \<Rightarrow> SDRSendHandle \<Rightarrow> ECSender \<Rightarrow> nat set \<Rightarrow> ECSender \<Rightarrow> bool" where
  "ec_resent params h e M t \<longleftrightarrow> ec_sent e t
     \<and> (\<forall>c \<in> M - acked_list (es_chunk_acked e). set (map (ec_datagram params h) (ec_chunk params h c)) \<subseteq> set (ec_new_wire e t))"

lemma ec_resent_empty [simp]: "ec_resent params h e {} e"
  by (simp add: ec_resent_def)

lemma ec_resent_more:
  assumes t: "ec_resent params h e M t" and s: "ec_sent t t'"
  shows "ec_resent params h e M t'"
proof -
  from t have e: "ec_sent e t" by (simp add: ec_resent_def)
  obtain w where "ec_new_wire e t' = ec_new_wire e t @ w" using ec_new_wire_append [OF e s] by blast
  then show ?thesis using t ec_sent_trans [OF e s] by (auto simp: ec_resent_def)
qed

lemma ec_gap_chunk_resends:
  fixes data_chunks :: u32
  assumes h: "unat (sh_buffer_size h) = length (sh_user_buffer h)" and sock: "\<forall>i. socket i \<ge> 0"
    and len: "unat data_chunks \<le> length (es_chunk_acked e)" and fit: "unat data_chunks * unat (ec_ppc params) < 2 ^ 32"
    and k: "k < unat data_chunks" and t: "ec_resent params h e M t"
  shows "\<exists>t'. ec_gap_chunk socket params h (of_nat k) t = Some t' \<and> ec_resent params h e (insert k M) t'"
proof -
  have uk: "unat (of_nat k :: u32) = k" using k by (rule unat_of_nat_below)
  have "ec_sent e t" using t by (simp add: ec_resent_def)
  then have l: "es_chunk_acked t = es_chunk_acked e" by (rule ec_sent_fields)
  have get: "arr_get (es_chunk_acked t) k = Some (es_chunk_acked e ! k)" using k len by (simp add: l)
  show ?thesis
  proof (cases "es_chunk_acked e ! k")
    case True
    then have "k \<in> acked_list (es_chunk_acked e)" using k len by (simp add: acked_list_def)
    then have "ec_resent params h e (insert k M) t" using t by (simp add: ec_resent_def insert_Diff_if)
    then show ?thesis using True get by (simp add: ec_gap_chunk_def uk)
  next
    case False
    have "Suc k * unat (ec_ppc params) \<le> unat data_chunks * unat (ec_ppc params)" using k by (intro mult_le_mono1) simp
    then have "Suc (unat (of_nat k :: u32)) * unat (ec_ppc params) < 2 ^ 32" using fit unfolding uk by linarith
    note ex = retransmit_chunk_exact [OF h sock this, of t, unfolded uk]
    let ?t' = "t\<lparr>es_sockets := es_sockets t + 1, es_wire := es_wire t @ map (ec_datagram params h) (ec_chunk params h k)\<rparr>"
    have s: "ec_sent t ?t'"
      unfolding ec_sent_def
      by (intro exI [of _ "es_sockets t + 1"] exI [of _ "map (ec_datagram params h) (ec_chunk params h k)"]) simp
    obtain w where w: "es_wire ?t' = es_wire t @ w" "ec_new_wire e ?t' = ec_new_wire e t @ w"
      using ec_new_wire_append [OF \<open>ec_sent e t\<close> s] by blast
    then have "w = map (ec_datagram params h) (ec_chunk params h k)" by simp
    then have "ec_resent params h e (insert k M) ?t'"
      using ec_resent_more [OF t s] w(2) by (auto simp: ec_resent_def)
    then show ?thesis using False get ex by (intro exI [of _ ?t']) (simp add: ec_gap_chunk_def uk)
  qed
qed

lemma ec_gap_resends:
  fixes data_chunks :: u32
  assumes h: "unat (sh_buffer_size h) = length (sh_user_buffer h)" and sock: "\<forall>i. socket i \<ge> 0"
    and len: "unat data_chunks \<le> length (es_chunk_acked e)" and fit: "unat data_chunks * unat (ec_ppc params) < 2 ^ 32"
    and g: "arr_get (cm_gap_start msg) (unat i) = Some gs" "arr_get (cm_gap_len msg) (unat i) = Some gl"
    and t: "ec_resent params h e M t"
  shows "\<exists>t'. ec_gap socket params h data_chunks msg i t = Some t'
    \<and> ec_resent params h e (M \<union> ({unat gs..<unat gs + unat gl} \<inter> {..<unat data_chunks})) t'"
proof -
  let ?n = "min (ucast gs + ucast gl) data_chunks" and ?a = "unat gs"
  have sum: "unat (ucast gs + ucast gl :: u32) = unat gs + unat gl"
    using unat_width(3) [of gs] unat_width(3) [of gl] by (simp add: unat_word_ariths(1))
  have un: "unat ?n = min (unat gs + unat gl) (unat data_chunks)" by (simp add: min_def word_le_nat_alt sum)
  have run: "ec_gap socket params h data_chunks msg i t
      = for_while (ucast gs) ?n (\<lambda>_. True) (ec_gap_chunk socket params h) t" by (simp add: ec_gap_def g Let_def)
  have M: "M \<union> ({?a..<?a + unat gl} \<inter> {..<unat data_chunks}) = M \<union> {?a..<unat ?n}" by (auto simp: un)
  show ?thesis
  proof (cases "ucast gs \<le> ?n")
    case True
    have "\<exists>t' j. for_while (ucast gs) ?n (\<lambda>_. True) (ec_gap_chunk socket params h) t = Some t'
        \<and> unat (ucast gs :: u32) \<le> j \<and> j \<le> unat ?n \<and> ec_resent params h e (M \<union> {?a..<j}) t' \<and> (j = unat ?n \<or> \<not> True)"
    proof (rule for_while_total [OF _ True])
      show "ec_resent params h e (M \<union> {?a..<unat (ucast gs :: u32)}) t" using t by simp
    next
      fix k u assume k: "unat (ucast gs :: u32) \<le> k" "k < unat ?n" and u: "ec_resent params h e (M \<union> {?a..<k}) u"
      have "insert k (M \<union> {?a..<k}) = M \<union> {?a..<Suc k}" using k(1) by auto
      moreover have "k < unat data_chunks" using k(2) un by simp
      ultimately show "\<exists>u'. ec_gap_chunk socket params h (of_nat k) u = Some u' \<and> ec_resent params h e (M \<union> {?a..<Suc k}) u'"
        using ec_gap_chunk_resends [OF h sock len fit _ u] by metis
    qed
    then show ?thesis unfolding run M by blast
  next
    case False
    then have "\<not> ucast gs < ?n" by (metis order_less_imp_le)
    moreover have "{?a..<unat ?n} = {}" using False by (simp add: word_le_nat_alt)
    ultimately show ?thesis unfolding run M using t by simp
  qed
qed

text \<open>The whole request.\<close>

definition ec_acks_of :: "ControlMessage \<Rightarrow> nat set" where
  "ec_acks_of msg = bits_of (take (min (unat (cm_chunk_bitmap_words msg)) 16) (cm_chunk_bitmap msg))"

lemma on_ec_request_eq:
  fixes data_chunks :: u32
  assumes h: "unat (sh_buffer_size h) = length (sh_user_buffer h)"
    and len: "unat data_chunks \<le> length (es_chunk_acked e)" and wf: "wf_message m" and gaps: "unat (cm_num_gaps m) \<le> 16"
  shows "\<exists>l e'. on_ec_request socket params h data_chunks m e = Some ({..<unat data_chunks} \<subseteq> acked_list l, e')
    \<and> length l = length (es_chunk_acked e)
    \<and> acked_list l = acked_list (es_chunk_acked e) \<union> ec_acks_of m \<inter> {..<unat data_chunks}
    \<and> ec_sent (e\<lparr>es_chunk_acked := l\<rparr>) e'
    \<and> ((\<forall>i. socket i \<ge> 0) \<and> unat data_chunks * unat (ec_ppc params) < 2 ^ 32
        \<longrightarrow> ec_resent params h (e\<lparr>es_chunk_acked := l\<rparr>) (gaps_cover (msg_gaps m) \<inter> {..<unat data_chunks}) e')"
proof -
  let ?D = "unat data_chunks" and ?N = "unat (cm_num_gaps m)"
  obtain l where l: "ec_apply_bitmap data_chunks m (es_chunk_acked e) = Some l" "length l = length (es_chunk_acked e)"
    "acked_list l = acked_list (es_chunk_acked e) \<union> ec_acks_of m \<inter> {..<?D}"
    using mark_bitmap_eq [OF len wf, of 16] by (auto simp: ec_apply_bitmap_def ec_acks_of_def)
  let ?e = "e\<lparr>es_chunk_acked := l\<rparr>"
  have len': "?D \<le> length (es_chunk_acked ?e)" using len l(2) by simp
  let ?g = "msg_gaps m" and ?fine = "(\<forall>i. socket i \<ge> 0) \<and> ?D * unat (ec_ppc params) < 2 ^ 32"
  have lenz: "length (zip (cm_gap_start m) (cm_gap_len m)) = 16" using wf by (simp add: wf_message_def)
  have leng: "length ?g = ?N" using gaps lenz by (simp add: msg_gaps_def)
  let ?P = "\<lambda>j t. ec_sent ?e t \<and> (?fine \<longrightarrow> ec_resent params h ?e (gaps_cover (take j ?g) \<inter> {..<?D}) t)"
  have "\<exists>t j. for_while 0 (cm_num_gaps m) (\<lambda>_. True) (ec_gap socket params h data_chunks m) ?e = Some t
      \<and> unat (0 :: u16) \<le> j \<and> j \<le> ?N \<and> ?P j t \<and> (j = ?N \<or> \<not> True)"
  proof (rule for_while_total)
    show "?P (unat (0 :: u16)) ?e" by simp
  next
    fix k t assume k: "k < ?N" and P: "?P k t"
    have k16: "k < 16" using k gaps by linarith
    have uk: "unat (of_nat k :: u16) = k" using k by (rule unat_of_nat_below)
    obtain gs gl where g: "?g ! k = (gs, gl)" by (cases "?g ! k")
    have "?g ! k = (cm_gap_start m ! k, cm_gap_len m ! k)" using k k16 lenz by (simp add: msg_gaps_def)
    then have get: "arr_get (cm_gap_start m) (unat (of_nat k :: u16)) = Some gs"
      "arr_get (cm_gap_len m) (unat (of_nat k :: u16)) = Some gl"
      using g k16 wf by (simp_all add: uk wf_message_def)
    have Suc: "take (Suc k) ?g = take k ?g @ [(gs, gl)]" using k leng g by (simp add: take_Suc_conv_app_nth)
    have st: "ec_sent ?e t" using P by blast
    then have lt: "?D \<le> length (es_chunk_acked t)" using len' ec_sent_fields(4) [OF st] by simp
    obtain t' where t': "ec_gap socket params h data_chunks m (of_nat k) t = Some t'" "ec_sent t t'"
      using ec_gap_safe [OF h lt wf k16] by blast
    have "ec_resent params h ?e (gaps_cover (take (Suc k) ?g) \<inter> {..<?D}) t'" if fine: ?fine
    proof -
      obtain t'' where "ec_gap socket params h data_chunks m (of_nat k) t = Some t''"
        "ec_resent params h ?e (gaps_cover (take k ?g) \<inter> {..<?D} \<union> ({unat gs..<unat gs + unat gl} \<inter> {..<?D})) t''"
        using ec_gap_resends [OF h _ len' _ get, where params = params and t = t] fine P by blast
      then show ?thesis using t'(1) by (simp add: Suc Int_Un_distrib2)
    qed
    then show "\<exists>t'. ec_gap socket params h data_chunks m (of_nat k) t = Some t' \<and> ?P (Suc k) t'"
      using t' ec_sent_trans [OF st t'(2)] by blast
  qed simp
  then obtain e1 where e1: "for_while 0 (cm_num_gaps m) (\<lambda>_. True) (ec_gap socket params h data_chunks m) ?e = Some e1"
    "ec_sent ?e e1" "?fine \<longrightarrow> ec_resent params h ?e (gaps_cover ?g \<inter> {..<?D}) e1" using leng by auto
  obtain e2 where e2: "retransmit_missing_bitmap socket params h data_chunks m 8 e1 = Some e2" "ec_sent e1 e2"
    using missing_bitmap_safe [OF h wf] by blast
  have s: "ec_sent ?e e2" using ec_sent_trans [OF e1(2) e2(2)] .
  have "es_chunk_acked e2 = l" using ec_sent_fields(4) [OF s] by simp
  then have "ec_all_done data_chunks (es_chunk_acked e2) = Some ({..<?D} \<subseteq> acked_list l)"
    using ec_all_done_eq [of data_chunks l] len' by simp
  then have "on_ec_request socket params h data_chunks m e = Some ({..<?D} \<subseteq> acked_list l, e2)"
    using l(1) e1(1) e2(1) by (simp add: on_ec_request_def)
  then show ?thesis using l(2,3) s e1(3) ec_resent_more [OF _ e2(2)] by blast
qed

section \<open>Properties\<close>

lemma no_chunks: "ec_data_chunks 0 (ec_chunk_bytes params) = 0"
proof -
  have "unat (ec_chunk_bytes params) = unat (ec_mtu params) * unat (ec_ppc params)"
  proof -
    have "unat (ec_mtu params) * unat (ec_ppc params) \<le> 65496 * 65535"
      using ec_mtu_bounds(2) unat_width(3) [of "ec_ppc params"] by (intro mult_le_mono) simp_all
    then show ?thesis by (simp add: ec_chunk_bytes_def unat_word_ariths(2))
  qed
  then have "0 < unat (ec_chunk_bytes params)" using ec_mtu_bounds(1) ec_ppc_pos by simp
  moreover have "packet_count 0 n = 0" if "0 < n" for n using that by (simp add: packet_count_def)
  ultimately have "unat (ec_data_chunks 0 (ec_chunk_bytes params)) = 0"
    using ec_data_chunks_eq [of "ec_chunk_bytes params" 0] by simp
  then show ?thesis by (simp add: unat_eq_zero)
qed

text \<open>
  A sender that waits for its acknowledgement.  The parameters may have changed since the encoding, and
  with them the number of chunks; on an online sender it has not become larger.
\<close>

definition ec_linked :: "ECSender \<Rightarrow> SDRSendHandle \<Rightarrow> SDRConnection \<Rightarrow> TCPControlClient \<Rightarrow> bool" where
  "ec_linked e h conn cl \<longleftrightarrow> (\<exists>hs. es_sends e = h # hs) \<and> es_conn e = Some conn
     \<and> sc_tcp_client conn = Some cl \<and> is_connected cl"

lemma ec_poll_step_message:
  assumes on: "ec_linked e h conn cl" and m: "valid_message m"
  shows "ec_poll_step socket e (EvData (message_image pad m) # evs) =
    (if wanted EC_ACK m \<or> wanted COMPLETE_ACK m then Ret (Some 0, e, evs)
     else if ec_wants_chunks m
     then (case on_ec_request socket (cc_params (sc_connection_ctx conn)) h
                  (ec_poll_chunks (es_cfg e) (cc_params (sc_connection_ctx conn))) m e of
             None \<Rightarrow> Crash
           | Some (done, e) \<Rightarrow> Ret (if done then Some 0 else None, e, evs))
     else Ret (None, e, evs))"
proof -
  have rcv: "client_receive cl zero_message (EvData (message_image pad m) # evs) = Some (True, m, cl, evs)"
    using assms by (simp add: receive_one ec_linked_def valid_message_def)
  have same: "ec_set_client (Some cl) conn e = e"
    using on by (cases e; cases conn) (simp add: ec_set_client_def ec_linked_def)
  obtain hs where e: "es_sends e = h # hs" "es_conn e = Some conn" "sc_tcp_client conn = Some cl"
    using on by (auto simp: ec_linked_def)
  show ?thesis
    unfolding ec_poll_step_def e list.case option.case prod.case rcv Let_def same by simp
qed

text \<open>C35: What the erasure-coding sender does with each message, over a control connection that is up.  EC_ACK and
  COMPLETE_ACK end \<open>poll\<close> with success.  EC_NACK, EC_FALLBACK_SR, SR_NACK and SR_ACK with at most the 16
  gaps of a message are handled without a fault, on condition that \<open>poll\<close>, which counts the data chunks
  again, counts no more of them than \<open>chunk_acked_\<close> has entries; the code does not check this, and the
  programs' defaults break it (see \<open>ec_request_overrun\<close>).  Then the data chunks of the bitmap are marked;
  if moreover no socket fails and the chunks' packets can be numbered in 32 bits, every unmarked data
  chunk of every gap is given to \<open>sendto\<close> packet by packet; and \<open>poll\<close> returns 0 if all data chunks are
  marked now and goes on otherwise, with the condition still in force.  Without a configured data length
  it counts no data chunks, so it returns 0 at once.  Other messages are ignored, INCOMPLETE_NACK among
  them.\<close>

theorem ec_poll_dispatch:
  assumes on: "es_sends e = h # hs" "es_conn e = Some conn" "sc_tcp_client conn = Some cl" "is_connected cl"
    and h: "unat (sh_buffer_size h) = length (sh_user_buffer h)" and m: "valid_message m"
    and p: "params = cc_params (sc_connection_ctx conn)" and D: "D = unat (ec_poll_chunks (es_cfg e) params)"
  shows "(wanted EC_ACK m \<or> wanted COMPLETE_ACK m \<longrightarrow> ec_poll socket e (EvData (message_image pad m) # evs) = Ret (0, e, evs))
    \<and> (ec_wants_chunks m \<and> unat (cm_num_gaps m) \<le> 16 \<and> D \<le> length (es_chunk_acked e) \<longrightarrow>
        (\<exists>l e'. ec_poll socket e (EvData (message_image pad m) # evs)
            = (if {..<D} \<subseteq> acked_list l then Ret (0, e', evs) else ec_poll socket e' evs)
          \<and> es_sends e' = es_sends e \<and> es_conn e' = Some conn \<and> es_cfg e' = es_cfg e
          \<and> es_chunk_acked e' = l \<and> length l = length (es_chunk_acked e)
          \<and> acked_list l = acked_list (es_chunk_acked e) \<union> ec_acks_of m \<inter> {..<D}
          \<and> ((\<forall>i. socket i \<ge> 0) \<and> D * unat (ec_ppc params) < 2 ^ 32 \<longrightarrow>
              (\<forall>c \<in> gaps_cover (msg_gaps m). c < D \<and> c \<notin> acked_list l \<longrightarrow>
                  set (map (ec_datagram params h) (ec_chunk params h c)) \<subseteq> set (ec_new_wire e e')))
          \<and> (ecc_data_bytes (es_cfg e) = 0 \<longrightarrow> D = 0)))
    \<and> (\<not> wanted EC_ACK m \<and> \<not> wanted COMPLETE_ACK m \<and> \<not> ec_wants_chunks m \<longrightarrow>
        ec_poll socket e (EvData (message_image pad m) # evs) = ec_poll socket e evs)"
proof -
  have link: "ec_linked e h conn cl" using on by (simp add: ec_linked_def)
  note step = ec_poll.simps [of socket e "EvData (message_image pad m) # evs", unfolded ec_poll_step_message [OF link m]]
  let ?dc = "ec_poll_chunks (es_cfg e) params"
  have "\<exists>l e'. ec_poll socket e (EvData (message_image pad m) # evs)
            = (if {..<D} \<subseteq> acked_list l then Ret (0, e', evs) else ec_poll socket e' evs)
          \<and> es_sends e' = es_sends e \<and> es_conn e' = Some conn \<and> es_cfg e' = es_cfg e
          \<and> es_chunk_acked e' = l \<and> length l = length (es_chunk_acked e)
          \<and> acked_list l = acked_list (es_chunk_acked e) \<union> ec_acks_of m \<inter> {..<D}
          \<and> ((\<forall>i. socket i \<ge> 0) \<and> D * unat (ec_ppc params) < 2 ^ 32 \<longrightarrow>
              (\<forall>c \<in> gaps_cover (msg_gaps m). c < D \<and> c \<notin> acked_list l \<longrightarrow>
                  set (map (ec_datagram params h) (ec_chunk params h c)) \<subseteq> set (ec_new_wire e e')))
          \<and> (ecc_data_bytes (es_cfg e) = 0 \<longrightarrow> D = 0)"
    if w: "ec_wants_chunks m" and gaps: "unat (cm_num_gaps m) \<le> 16" and len: "D \<le> length (es_chunk_acked e)"
  proof -
    have wf: "wf_message m" using m by (simp add: valid_message_def)
    obtain l e' where r: "on_ec_request socket params h ?dc m e = Some ({..<D} \<subseteq> acked_list l, e')"
      "length l = length (es_chunk_acked e)" "acked_list l = acked_list (es_chunk_acked e) \<union> ec_acks_of m \<inter> {..<D}"
      "ec_sent (e\<lparr>es_chunk_acked := l\<rparr>) e'"
      "(\<forall>i. socket i \<ge> 0) \<and> D * unat (ec_ppc params) < 2 ^ 32
        \<longrightarrow> ec_resent params h (e\<lparr>es_chunk_acked := l\<rparr>) (gaps_cover (msg_gaps m) \<inter> {..<D}) e'"
      using on_ec_request_eq [OF h len [unfolded D] wf gaps, of socket params, folded D] by (elim exE conjE) (rule that)
    note f = ec_sent_fields [OF r(4)]
    have "\<not> wanted EC_ACK m" "\<not> wanted COMPLETE_ACK m" using w by (auto simp: ec_wants_chunks_def wanted_def)
    then have "ec_poll socket e (EvData (message_image pad m) # evs)
        = (if {..<D} \<subseteq> acked_list l then Ret (0, e', evs) else ec_poll socket e' evs)"
      using step w r(1) by (simp add: p)
    moreover have "es_sends e' = es_sends e" "es_conn e' = Some conn" "es_cfg e' = es_cfg e" using on(2) f by simp_all
    moreover have "ec_new_wire (e\<lparr>es_chunk_acked := l\<rparr>) e' = ec_new_wire e e'" by (simp add: ec_new_wire_def)
    then have "(\<forall>i. socket i \<ge> 0) \<and> D * unat (ec_ppc params) < 2 ^ 32 \<longrightarrow>
        (\<forall>c \<in> gaps_cover (msg_gaps m) \<inter> {..<D} - acked_list l.
            set (map (ec_datagram params h) (ec_chunk params h c)) \<subseteq> set (ec_new_wire e e'))"
      using r(5) by (simp add: ec_resent_def)
    then have "(\<forall>i. socket i \<ge> 0) \<and> D * unat (ec_ppc params) < 2 ^ 32 \<longrightarrow>
        (\<forall>c \<in> gaps_cover (msg_gaps m). c < D \<and> c \<notin> acked_list l \<longrightarrow>
            set (map (ec_datagram params h) (ec_chunk params h c)) \<subseteq> set (ec_new_wire e e'))"
      by blast
    moreover have "ecc_data_bytes (es_cfg e) = 0 \<longrightarrow> D = 0"
      using no_chunks [of params] by (simp add: D ec_poll_chunks_def)
    ultimately show ?thesis
      using f(4) r(2,3) by (intro exI [of _ l] exI [of _ e'] conjI) simp_all
  qed
  moreover have "ec_poll socket e (EvData (message_image pad m) # evs) = ec_poll socket e evs"
    if "\<not> wanted EC_ACK m" "\<not> wanted COMPLETE_ACK m" "\<not> ec_wants_chunks m"
    using step that by simp
  moreover have "ec_poll socket e (EvData (message_image pad m) # evs) = Ret (0, e, evs)"
    if "wanted EC_ACK m \<or> wanted COMPLETE_ACK m"
    using step that by auto
  ultimately show ?thesis by blast
qed

text \<open>A sender after the post of \<open>EC_Encoding.demo_ec_cfg\<close>'s ten bytes, and a request for chunks 1 and 2.\<close>

definition demo_ec_online :: SDRConnection where
  "demo_ec_online = demo_ec_conn\<lparr>sc_tcp_client := Some (TCPControlClient_new\<lparr>is_connected := True\<rparr>)\<rparr>"

definition demo_ec_handle :: SDRSendHandle where
  "demo_ec_handle = \<lparr> sh_msg_id = 0, sh_generation = 1, sh_user_buffer = [1, 2, 3, 4, 5, 0, 1, 2, 5, 0],
     sh_buffer_size = 10, sh_packets_sent = 0 \<rparr>"

definition demo_ec_sender :: ECSender where
  "demo_ec_sender = (ECSender_new (demo_ec_cfg\<lparr>ecc_data_bytes := 5\<rparr>))
     \<lparr>es_sends := [demo_ec_handle], es_conn := Some demo_ec_online, es_chunk_acked := [False, False, False]\<rparr>"

definition demo_ec_nack :: ControlMessage where
  "demo_ec_nack = zero_message\<lparr>cm_magic := CTL_MAGIC_VALUE, cm_msg_type := ctl_code EC_NACK, cm_num_gaps := 1,
     cm_gap_start := 1 # replicate 15 0, cm_gap_len := 2 # replicate 15 0\<rparr>"

lemma demo_ec_nack_ok: "valid_message demo_ec_nack" "ec_wants_chunks demo_ec_nack" "cm_num_gaps demo_ec_nack = 1"
  "gaps_cover (msg_gaps demo_ec_nack) = {1, 2}" "ec_acks_of demo_ec_nack = {}"
  by (auto simp: demo_ec_nack_def valid_message_def wf_message_def zero_message_def wanted_def zero_params_def
      wf_params_def bits_of_def ec_wants_chunks_def msg_gaps_def gaps_cover_def ec_acks_of_def)

lemma demo_ec_geometry:
  "unat (ec_poll_chunks (es_cfg demo_ec_sender) (cc_params (sc_connection_ctx demo_ec_online))) = 3"
  "unat (ec_ppc (cc_params (sc_connection_ctx demo_ec_online))) = 1"
  "unat (ec_mtu (cc_params (sc_connection_ctx demo_ec_online))) = 2"
  by (simp_all add: ec_poll_chunks_def ec_data_chunks_def ec_chunk_bytes_def ec_mtu_def ec_ppc_def Let_def demo_ec_online_def
      demo_ec_conn_def SDRConnection_new_def demo_ec_sender_def ECSender_new_def)

theorem ec_poll_dispatch_witness:
  "\<exists>e'. ec_poll (\<lambda>_. 3) demo_ec_sender [EvData (message_image (\<lambda>_. 0) demo_ec_nack)] = ec_poll (\<lambda>_. 3) e' []
    \<and> {ec_datagram (cc_params (sc_connection_ctx demo_ec_online)) demo_ec_handle 1,
         ec_datagram (cc_params (sc_connection_ctx demo_ec_online)) demo_ec_handle 2} \<subseteq> set (ec_new_wire demo_ec_sender e')"
proof -
  let ?p = "cc_params (sc_connection_ctx demo_ec_online)"
  have e: "es_sends demo_ec_sender = [demo_ec_handle]" "es_conn demo_ec_sender = Some demo_ec_online"
    "es_chunk_acked demo_ec_sender = [False, False, False]" by (simp_all add: demo_ec_sender_def)
  have on: "sc_tcp_client demo_ec_online = Some (TCPControlClient_new\<lparr>is_connected := True\<rparr>)"
      "is_connected (TCPControlClient_new\<lparr>is_connected := True\<rparr>)"
      "unat (sh_buffer_size demo_ec_handle) = length (sh_user_buffer demo_ec_handle)"
    by (simp_all add: demo_ec_online_def demo_ec_handle_def)
  have none: "acked_list [False, False, False] = {}" by (auto simp: acked_list_def nth_Cons' split: if_splits)
  have chunks: "ec_chunk ?p demo_ec_handle 1 = [1]" "ec_chunk ?p demo_ec_handle 2 = [2]"
    unfolding ec_chunk_def demo_ec_geometry by (simp_all add: demo_ec_handle_def packet_count_def upt_rec)
  obtain l e' where r: "ec_poll (\<lambda>_. 3) demo_ec_sender [EvData (message_image (\<lambda>_. 0) demo_ec_nack)]
      = (if {..<3} \<subseteq> acked_list l then Ret (0, e', []) else ec_poll (\<lambda>_. 3) e' [])" "acked_list l = {}"
    "\<forall>c \<in> {1, 2}. c < 3 \<and> c \<notin> acked_list l \<longrightarrow>
        set (map (ec_datagram ?p demo_ec_handle) (ec_chunk ?p demo_ec_handle c)) \<subseteq> set (ec_new_wire demo_ec_sender e')"
    using ec_poll_dispatch [OF e(1,2) on demo_ec_nack_ok(1) HOL.refl HOL.refl, of "\<lambda>_. 3" "\<lambda>_. 0" "[]"]
      demo_ec_nack_ok(2,3) unfolding demo_ec_geometry e demo_ec_nack_ok(4,5) none by auto
  have "(0 :: nat) \<in> {..<3}" by simp
  then have "\<not> {..<3} \<subseteq> ({} :: nat set)" by blast
  then have "ec_poll (\<lambda>_. 3) demo_ec_sender [EvData (message_image (\<lambda>_. 0) demo_ec_nack)] = ec_poll (\<lambda>_. 3) e' []"
    using r(1,2) by simp
  then show ?thesis using r(2,3) chunks by (intro exI [of _ e']) simp
qed

text \<open>C38: Acknowledging a chunk the sender has not counted is a write outside its table.  \<open>poll\<close> counts the chunks
  again, with the packet and chunk size that the CTS has set since the encoding.  If that gives more
  chunks than \<open>chunk_acked_\<close> has entries, the first request whose bitmap shows the receipt of a chunk
  beyond them is a fault.  The programs' defaults do this: 1 MiB is one chunk for a sender that has no
  sizes configured, and 128 chunks of the receiver's 64 packets of 128 bytes.\<close>

theorem ec_request_overrun:
  assumes on: "ec_linked e h conn cl" and m: "valid_message m" "ec_wants_chunks m"
    and c: "c \<in> ec_acks_of m" "c < unat (ec_poll_chunks (es_cfg e) (cc_params (sc_connection_ctx conn)))"
      "length (es_chunk_acked e) \<le> c"
  shows "ec_poll socket e (EvData (message_image pad m) # evs) = Crash"
proof -
  let ?dc = "ec_poll_chunks (es_cfg e) (cc_params (sc_connection_ctx conn))"
  have wf: "wf_message m" using m(1) by (simp add: valid_message_def)
  have "mark_bitmap 16 ?dc m (es_chunk_acked e) = None"
    using mark_bitmap_outside [OF wf _ c(2,3), of 16] c(1) by (simp add: ec_acks_of_def)
  then have "on_ec_request socket (cc_params (sc_connection_ctx conn)) h ?dc m e = None"
    by (simp add: on_ec_request_def ec_apply_bitmap_def)
  moreover have "\<not> wanted EC_ACK m" "\<not> wanted COMPLETE_ACK m" using m(2) by (auto simp: ec_wants_chunks_def wanted_def)
  ultimately show ?thesis
    using m(2) by (simp add: ec_poll.simps [of socket e "EvData (message_image pad m) # evs", unfolded ec_poll_step_message [OF on m(1)]])
qed

definition demo_ec_mib :: ECSender where
  "demo_ec_mib = (ECSender_new (demo_ec_cfg\<lparr>ecc_data_bytes := 1048576\<rparr>))
     \<lparr>es_sends := [demo_ec_handle],
      es_conn := Some (demo_ec_online\<lparr>sc_connection_ctx := (sc_connection_ctx demo_ec_online)
        \<lparr>cc_params := zero_params\<lparr>cp_mtu_bytes := 128, cp_packets_per_chunk := 64\<rparr>\<rparr>\<rparr>),
      es_chunk_acked := replicate (unat (ec_data_chunks 1048576 (ec_chunk_bytes zero_params))) False\<rparr>"

theorem ec_request_overrun_witness:
  "es_chunk_acked demo_ec_mib = [False]
    \<and> ec_poll (\<lambda>_. 3) demo_ec_mib [EvData (message_image (\<lambda>_. 0)
        (demo_ec_nack\<lparr>cm_chunk_bitmap_words := 2, cm_chunk_bitmap := 6 # replicate 15 0\<rparr>))] = Crash"
proof -
  let ?m = "demo_ec_nack\<lparr>cm_chunk_bitmap_words := 2, cm_chunk_bitmap := 6 # replicate 15 0\<rparr>"
  let ?conn = "demo_ec_online\<lparr>sc_connection_ctx := (sc_connection_ctx demo_ec_online)
        \<lparr>cc_params := zero_params\<lparr>cp_mtu_bytes := 128, cp_packets_per_chunk := 64\<rparr>\<rparr>\<rparr>"
  have one: "es_chunk_acked demo_ec_mib = [False]"
    by (simp add: demo_ec_mib_def ec_data_chunks_def ec_chunk_bytes_def ec_mtu_def ec_ppc_def zero_params_def MAX_PAYLOAD_SIZE_def)
  have on: "ec_linked demo_ec_mib demo_ec_handle ?conn (TCPControlClient_new\<lparr>is_connected := True\<rparr>)"
    by (simp add: ec_linked_def demo_ec_mib_def demo_ec_online_def)
  have m: "valid_message ?m" "ec_wants_chunks ?m"
    using demo_ec_nack_ok(1,2) by (simp_all add: valid_message_def wf_message_def ec_wants_chunks_def wanted_def)
  have bit: "bit (6 :: u64) (Suc 0)" by (simp add: bit_iff_odd)
  have c: "1 \<in> ec_acks_of ?m" by (simp add: ec_acks_of_def bits_of_def bit)
  have chunks: "1 < unat (ec_poll_chunks (es_cfg demo_ec_mib) (cc_params (sc_connection_ctx ?conn)))"
    by (simp add: ec_poll_chunks_def ec_data_chunks_def ec_chunk_bytes_def ec_mtu_def ec_ppc_def demo_ec_mib_def ECSender_new_def
        MAX_PAYLOAD_SIZE_def)
  show ?thesis
    using one ec_request_overrun [OF on m c chunks, of "\<lambda>_. 3" "\<lambda>_. 0" "[]"] by simp
qed

end
