(* ===== verification/EC_Receiver.thy ===== *)
theory EC_Receiver
  imports EC_Encoding SR_Feedback
begin

text \<open>
  The erasure-coding receiver (\<open>ECReceiver\<close> of \<open>reliability/ec.h\<close> and \<open>reliability/ec.cpp\<close>): posting the
  buffer for data and parity, and \<open>try_decode\<close>, which either finds the data complete, asks for chunks,
  or reconstructs the missing ones with the routines of ISA-L.
\<close>

section \<open>Posting\<close>

record ECReceiver =
  er_cfg :: ECConfig
  er_stats :: ECStats
  er_recv_handle :: "SDRRecvHandle option"
  er_conn :: "SDRConnection option"
  er_data_bytes :: u64
  er_chunk_bytes :: u32
  er_k :: u16
  er_m :: u16
  er_data_chunks :: u32
  er_parity_chunks :: u32
  er_stripes :: u32
  er_decode_attempts :: u32
  er_fallback_active :: bool

definition ECReceiver_new :: "ECConfig \<Rightarrow> ECReceiver" where
  "ECReceiver_new cfg =
     \<lparr> er_cfg = cfg, er_stats = ECStats_new, er_recv_handle = None, er_conn = None, er_data_bytes = 0,
       er_chunk_bytes = 0, er_k = 0, er_m = 0, er_data_chunks = 0, er_parity_chunks = 0, er_stripes = 0,
       er_decode_attempts = 0, er_fallback_active = False \<rparr>"

text \<open>The bookkeeping that precedes the post.\<close>

definition ec_receive_setup :: "SDRConnection \<Rightarrow> u64 \<Rightarrow> ECReceiver \<Rightarrow> ECReceiver" where
  "ec_receive_setup conn len r =
     (let chunk_bytes = guarded_chunk_bytes (cc_params (sc_connection_ctx conn));
          data_bytes = ec_data_bytes (er_cfg r) len;
          k = ec_k (er_cfg r); m = ec_m (er_cfg r);
          data_chunks = ec_data_chunks data_bytes chunk_bytes;
          stripes = ec_stripes data_chunks k
      in r\<lparr>er_conn := Some conn, er_chunk_bytes := chunk_bytes, er_data_bytes := data_bytes, er_k := k, er_m := m,
           er_data_chunks := data_chunks, er_stripes := stripes, er_parity_chunks := stripes * ucast m\<rparr>)"

text \<open>\<open>recv_handle_->msg_ctx->total_chunks = n\<close>, and what a successful decoding writes to the context.\<close>

definition set_ctx :: "SDRRecvHandle \<Rightarrow> (MessageContext \<Rightarrow> MessageContext) \<Rightarrow> SDRConnection \<Rightarrow> SDRConnection" where
  "set_ctx h f conn = conn\<lparr>sc_connection_ctx := update_message (sc_connection_ctx conn) (fst (rh_msg_ctx h)) f\<rparr>"

text \<open>The result: the return code, the receiver, and the post if it was made.\<close>

definition ec_post_receive ::
    "ECReceiver \<Rightarrow> Host \<Rightarrow> SDRConnection \<Rightarrow> BufRef \<Rightarrow> u64 \<Rightarrow> NetEvent list \<Rightarrow> RecvPostSys
      \<Rightarrow> (int \<times> ECReceiver \<times> RecvPost option) run" where
  "ec_post_receive r host conn buffer len evs psys =
     (let r = ec_receive_setup conn len r;
          all_chunks = er_data_chunks r + er_parity_chunks r;
          required_length = ucast all_chunks * ucast (er_chunk_bytes r)
      in if len < required_length then Ret (- 1, r, None)
         else
           let r = r\<lparr>er_decode_attempts := 0, er_fallback_active := False\<rparr> in
           run_bind (sdr_recv_post host conn True buffer len True evs psys)
             (\<lambda>RP.
                let r = r\<lparr>er_conn := Some (rp_conn RP)\<rparr>
                in if rp_rc RP \<noteq> 0 then Ret (rp_rc RP, r, Some RP)
                   else case rp_handle RP of
                       None \<Rightarrow> Ret (0, r, Some RP)
                     | Some h \<Rightarrow>
                         Ret (0, r\<lparr>er_recv_handle := Some h,
                                   er_conn := Some (set_ctx h (\<lambda>mc. mc\<lparr>mc_total_chunks := ucast all_chunks\<rparr>) (rp_conn RP))\<rparr>,
                              Some RP)))"

section \<open>Asking for chunks\<close>

text \<open>The chunks below \<open>n\<close> that are complete, or not, in order.\<close>

definition scan_chunks :: "bool \<Rightarrow> FrontendBitmap \<Rightarrow> u32 \<Rightarrow> u32 list option" where
  "scan_chunks complete f n =
     for_while 0 n (\<lambda>_. True)
       (\<lambda>c found. case frontend_is_chunk_complete f c of
          None \<Rightarrow> None
        | Some is_complete \<Rightarrow> Some (if is_complete = complete then found @ [c] else found)) []"

text \<open>The run that begins with \<open>start\<close> and has \<open>lenrun\<close> chunks so far: its length and what follows it.\<close>

fun run_of :: "u32 \<Rightarrow> u32 \<Rightarrow> u32 list \<Rightarrow> u32 \<times> u32 list" where
  "run_of start lenrun [] = (lenrun, [])"
| "run_of start lenrun (c # cs) =
     (if c = start + lenrun then run_of start (lenrun + 1) cs else (lenrun, c # cs))"

lemma run_of_shorter: "run_of start n cs = (n', rest) \<Longrightarrow> length rest \<le> length cs"
  by (induction start n cs arbitrary: n' rest rule: run_of.induct) (auto split: if_splits dest: le_SucI)

function collapse_gaps :: "u32 list \<Rightarrow> (u16 \<times> u16) list \<Rightarrow> (u16 \<times> u16) list" where
  "collapse_gaps [] gaps = gaps"
| "collapse_gaps (start # cs) gaps =
     (if length gaps < 16
      then (case run_of start 1 cs of
              (lenrun, rest) \<Rightarrow> collapse_gaps rest (gaps @ [(ucast start, ucast lenrun)]))
      else gaps)"
  by pat_completeness auto
termination
  by (relation "measure (length \<circ> fst)") (auto dest!: run_of_shorter [OF HOL.sym] simp: less_Suc_eq_le)

definition ec_ack_message :: "u32 \<Rightarrow> ControlMessage" where
  "ec_ack_message conn_id =
     zero_message\<lparr>cm_magic := CTL_MAGIC_VALUE, cm_msg_type := ctl_code EC_ACK, cm_connection_id := conn_id\<rparr>"

definition ec_request_message :: "u32 \<Rightarrow> bool \<Rightarrow> (u16 \<times> u16) list \<Rightarrow> ControlMessage" where
  "ec_request_message conn_id fallback gaps =
     zero_message\<lparr>cm_magic := CTL_MAGIC_VALUE, cm_connection_id := conn_id,
       cm_msg_type := ctl_code (if fallback then EC_FALLBACK_SR else EC_NACK),
       cm_num_gaps := of_nat (length gaps),
       cm_gap_start := map fst gaps @ drop (length gaps) (cm_gap_start zero_message),
       cm_gap_len := map snd gaps @ drop (length gaps) (cm_gap_len zero_message)\<rparr>"

section \<open>Reconstruction\<close>

text \<open>
  The message's buffer, read and written; addresses are computed in 32 bits.
\<close>

definition buffer_bytes :: "RecvState \<Rightarrow> BufRef \<Rightarrow> u8 list" where
  "buffer_bytes rs buf =
     (case buf of NullPtr \<Rightarrow> [] | UserBuf b \<Rightarrow> rs_mem rs b | NullSink \<Rightarrow> cc_null_sink (rs_conn rs))"

text \<open>The decoding matrix: the rows of the first \<open>k\<close> available chunks, taken by their chunk numbers.\<close>

definition decode_rows :: "u8 list \<Rightarrow> u16 \<Rightarrow> u32 list \<Rightarrow> u8 list option" where
  "decode_rows encode_matrix k idxs =
     those (concat (map (\<lambda>idx. map (\<lambda>j. arr_get encode_matrix (unat (idx * ucast k + of_nat j))) [0..<unat k]) idxs))"

text \<open>
  One turn of the recovery loop, for the \<open>mi\<close>-th missing chunk.  The tables are written over the ones
  before; the encoder reads the tables of one row.
\<close>

definition recover_chunk ::
    "ISAL \<Rightarrow> u16 \<Rightarrow> u32 \<Rightarrow> u8 list \<Rightarrow> u32 list \<Rightarrow> BufRef \<Rightarrow> nat \<Rightarrow> u32 \<Rightarrow> u8 list \<times> RecvState \<Rightarrow> (u8 list \<times> RecvState) option" where
  "recover_chunk isal k chunk_bytes matrix srcs buf mi idx st =
     (let (gftbl, rs) = st; bytes = buffer_bytes rs buf in
      if mi * unat k + unat k > length matrix then None
      else case mem_write gftbl 0 (ec_init_tables isal (unat k) 1 (take (unat k) (drop (mi * unat k) matrix))) of
          None \<Rightarrow> None
        | Some gftbl \<Rightarrow>
            (case those (map (\<lambda>src. read_at bytes (src * chunk_bytes) chunk_bytes) srcs) of
               None \<Rightarrow> None
             | Some data \<Rightarrow>
                 (let out = ec_encode_data isal (unat chunk_bytes) (unat k) 1 (take (32 * unat k) gftbl) data
                  in map_option (Pair gftbl) (buffer_write rs buf (unat (idx * chunk_bytes)) (concat out)))))"

fun recover_chunks ::
    "ISAL \<Rightarrow> u16 \<Rightarrow> u32 \<Rightarrow> u8 list \<Rightarrow> u32 list \<Rightarrow> BufRef \<Rightarrow> nat \<Rightarrow> u32 list \<Rightarrow> u8 list \<times> RecvState \<Rightarrow> RecvState option" where
  "recover_chunks isal k chunk_bytes matrix srcs buf mi [] st = Some (snd st)"
| "recover_chunks isal k chunk_bytes matrix srcs buf mi (idx # idxs) st =
     (case recover_chunk isal k chunk_bytes matrix srcs buf mi idx st of
        None \<Rightarrow> None
      | Some st \<Rightarrow> recover_chunks isal k chunk_bytes matrix srcs buf (Suc mi) idxs st)"

text \<open>
  The part after the available chunks are listed: \<open>Some None\<close> when the matrix is singular, \<open>None\<close> a fault.
  \<open>gf_invert_matrix\<close> writes the inverse to \<open>gftbl\<close>.
\<close>

definition decode_missing ::
    "ISAL \<Rightarrow> u16 \<Rightarrow> u16 \<Rightarrow> u32 \<Rightarrow> u32 list \<Rightarrow> u32 list \<Rightarrow> BufRef \<Rightarrow> RecvState \<Rightarrow> RecvState option option" where
  "decode_missing isal k m chunk_bytes avail missing_data buf rs =
     (let K = unat k; M = unat m; srcs = take K avail in
      if K * (K + M) \<ge> 2 ^ 31 \<or> M * K * 32 \<ge> 2 ^ 31 \<or> unat chunk_bytes \<ge> 2 ^ 31 then None
      else case mem_write (replicate (K * (K + M)) 0) 0 (gf_gen_rs_matrix isal (K + M) K) of
          None \<Rightarrow> None
        | Some encode_matrix \<Rightarrow>
            (case decode_rows encode_matrix k srcs of
               None \<Rightarrow> None
             | Some decode_matrix \<Rightarrow>
                 (let (rc, decode_matrix, inv_matrix) = gf_invert_matrix isal decode_matrix K in
                  case mem_write (replicate (M * K * 32) 0) 0 inv_matrix of
                    None \<Rightarrow> None
                  | Some gftbl \<Rightarrow>
                      if rc < 0 then Some None
                      else map_option Some
                             (recover_chunks isal k chunk_bytes decode_matrix srcs buf 0 missing_data (gftbl, rs)))))"

section \<open>Decoding\<close>

record ECDecode =
  ed_complete :: bool
  ed_receiver :: ECReceiver
  ed_mem :: "nat \<Rightarrow> u8 list"
  ed_out :: "u8 list"

text \<open>What the three successful ends share: the context is completed and an EC_ACK is sent.\<close>

definition ec_finish ::
    "ECReceiver \<Rightarrow> SDRRecvHandle \<Rightarrow> SDRConnection \<Rightarrow> (nat \<Rightarrow> u8 list) \<Rightarrow> padding \<Rightarrow> int \<Rightarrow> ECDecode" where
  "ec_finish r h conn mem pad sent =
     (let r = r\<lparr>er_stats := (er_stats r)\<lparr>ecs_decode_success := ecs_decode_success (er_stats r) + 1\<rparr>,
               er_conn := Some (set_ctx h (\<lambda>mc. mc\<lparr>mc_total_chunks := ucast (er_data_chunks r), mc_state := COMPLETED\<rparr>) conn)\<rparr>
      in \<lparr> ed_complete = True, ed_receiver = r, ed_mem = mem,
           ed_out = (case sc_tcp_server conn of
                       None \<Rightarrow> []
                     | Some srv \<Rightarrow> snd (server_send srv pad (ec_ack_message (cc_connection_id (sc_connection_ctx conn))) sent)) \<rparr>)"

definition ec_request ::
    "ECReceiver \<Rightarrow> SDRConnection \<Rightarrow> u32 list \<Rightarrow> (nat \<Rightarrow> u8 list) \<Rightarrow> padding \<Rightarrow> int \<Rightarrow> ECDecode" where
  "ec_request r conn missing_data mem pad sent =
     (let (r, out) =
        (case sc_tcp_server conn of
           None \<Rightarrow> (r, [])
         | Some srv \<Rightarrow>
             (let fallback = (er_decode_attempts r + 1 \<ge> ecc_max_retries (er_cfg r));
                  msg = ec_request_message (cc_connection_id (sc_connection_ctx conn)) fallback (collapse_gaps missing_data []);
                  r = (if fallback
                       then r\<lparr>er_fallback_active := True,
                              er_stats := (er_stats r)\<lparr>ecs_fallback_sr := ecs_fallback_sr (er_stats r) + 1\<rparr>\<rparr>
                       else r)
              in (r, snd (server_send srv pad msg sent))))
      in \<lparr> ed_complete = False, ed_receiver = r\<lparr>er_decode_attempts := er_decode_attempts r + 1\<rparr>, ed_mem = mem,
           ed_out = out \<rparr>)"

definition count_fallback :: "ECReceiver \<Rightarrow> ECReceiver" where
  "count_fallback r = r\<lparr>er_stats := (er_stats r)\<lparr>ecs_fallback_sr := ecs_fallback_sr (er_stats r) + 1\<rparr>\<rparr>"

text \<open>\<open>sent\<close> and \<open>pad\<close> are the result of \<open>send\<close> and the padding bytes; \<open>isal = None\<close> is a build without ISA-L.\<close>

definition try_decode ::
    "ISAL option \<Rightarrow> ECReceiver \<Rightarrow> (nat \<Rightarrow> u8 list) \<Rightarrow> padding \<Rightarrow> int \<Rightarrow> ECDecode run" where
  "try_decode isal r mem pad sent =
     (let no = (\<lambda>r. \<lparr> ed_complete = False, ed_receiver = r, ed_mem = mem, ed_out = [] \<rparr>) in
      case (er_recv_handle r, er_conn r) of
        (Some h, Some conn) \<Rightarrow>
          run_bind (sdr_recv_bitmap_get conn (Some h) True True)
            (\<lambda>(rc, _, _).
               if rc \<noteq> 0 then Ret (no r)
               else case deref_ctx conn h of
                   None \<Rightarrow> Crash
                 | Some mc \<Rightarrow>
                     (case mc_frontend mc of
                        None \<Rightarrow> Ret (no r)
                      | Some f \<Rightarrow>
                          (case scan_chunks False f (er_data_chunks r) of
                             None \<Rightarrow> Crash
                           | Some missing_data \<Rightarrow>
                               if er_fallback_active r
                               then (if missing_data = []
                                     then Ret (ec_finish (r\<lparr>er_fallback_active := False\<rparr>) h conn mem pad sent)
                                     else Ret (no r))
                               else if missing_data = [] then Ret (ec_finish r h conn mem pad sent)
                               else if length missing_data > unat (er_m r)
                               then Ret (ec_request r conn missing_data mem pad sent)
                               else case isal of
                                   None \<Rightarrow> Ret (no (count_fallback r))
                                 | Some lib \<Rightarrow>
                                     (case scan_chunks True f (er_data_chunks r + er_parity_chunks r) of
                                        None \<Rightarrow> Crash
                                      | Some avail \<Rightarrow>
                                          if length avail < unat (er_k r) then Ret (no (count_fallback r))
                                          else case decode_missing lib (er_k r) (er_m r) (er_chunk_bytes r) avail
                                                 missing_data (mc_buffer mc)
                                                 \<lparr>rs_conn = sc_connection_ctx conn, rs_mem = mem\<rparr> of
                                              None \<Rightarrow> Crash
                                            | Some None \<Rightarrow> Ret (no (count_fallback r))
                                            | Some (Some rs) \<Rightarrow>
                                                Ret (ec_finish r h (conn\<lparr>sc_connection_ctx := rs_conn rs\<rparr>) (rs_mem rs)
                                                       pad sent)))))
      | _ \<Rightarrow> Ret (no r))"

section \<open>What a request says\<close>

lemma scan_chunks_eq:
  assumes "fb_wf f"
  shows "scan_chunks complete f n = Some (map of_nat (filter (\<lambda>c. (c \<in> marked f) = complete) [0..<unat n]))"
proof -
  let ?P = "\<lambda>j xs. xs = map of_nat (filter (\<lambda>c. (c \<in> marked f) = complete) [0..<j])"
  have "\<exists>xs j. scan_chunks complete f n = Some xs \<and> unat (0 :: u32) \<le> j \<and> j \<le> unat n \<and> ?P j xs \<and> (j = unat n \<or> \<not> True)"
    unfolding scan_chunks_def
  proof (rule for_while_total)
    fix k and xs :: "u32 list" assume k: "k < unat n" and P: "?P k xs"
    have "unat (of_nat k :: u32) = k" using k by (rule unat_of_nat_below)
    then have "frontend_is_chunk_complete f (of_nat k) = Some (k \<in> marked f)"
      using frontend_is_chunk_complete_eq [OF assms] by simp
    then show "\<exists>xs'. (case frontend_is_chunk_complete f (of_nat k) of None \<Rightarrow> None
        | Some is_complete \<Rightarrow> Some (if is_complete = complete then xs @ [of_nat k] else xs)) = Some xs' \<and> ?P (Suc k) xs'"
      by (simp add: P)
  qed simp_all
  then show ?thesis by auto
qed

lemma run_of_eq:
  assumes "run_of s n cs = (n', rest)" and "\<forall>c \<in> set cs. unat c < B" and "unat s + unat n \<le> B" and "B < 2 ^ 16"
  shows "unat ` set cs = {unat s + unat n..<unat s + unat n'} \<union> unat ` set rest
    \<and> unat n \<le> unat n' \<and> unat s + unat n' \<le> B \<and> set rest \<subseteq> set cs"
  using assms
proof (induction s n cs arbitrary: n' rest rule: run_of.induct)
  case (1 s n)
  then show ?case by simp
next
  case (2 s n c cs)
  note p = "2.prems"
  show ?case
  proof (cases "c = s + n")
    case True
    have "unat (s + n) = unat s + unat n" using p(3,4) by (simp add: unat_word_ariths(1))
    then have c: "unat c = unat s + unat n" "unat c < B" using p(2) True by simp_all
    have n1: "unat (n + 1) = unat n + 1" using c p(4) by (simp add: unat_word_ariths(1))
    have r: "run_of s (n + 1) cs = (n', rest)" "\<forall>c \<in> set cs. unat c < B" "unat s + unat (n + 1) \<le> B"
      using p True c n1 by simp_all
    note IH = "2.IH" [OF True r p(4), unfolded n1]
    have "insert (unat s + unat n) {unat s + (unat n + 1)..<unat s + unat n'} = {unat s + unat n..<unat s + unat n'}"
      using IH by auto
    then show ?thesis using IH c(1) by auto
  next
    case False
    then show ?thesis using p(1,3) by auto
  qed
qed

lemma collapse_gaps_eq:
  assumes "\<forall>c \<in> set cs. unat c < B" and "B < 2 ^ 16"
  shows "gaps_cover (collapse_gaps cs gaps) \<subseteq> gaps_cover gaps \<union> unat ` set cs
    \<and> (length (collapse_gaps cs gaps) < 16 \<longrightarrow> gaps_cover (collapse_gaps cs gaps) = gaps_cover gaps \<union> unat ` set cs)
    \<and> length (collapse_gaps cs gaps) \<le> max 16 (length gaps)"
  using assms
proof (induction cs gaps rule: collapse_gaps.induct)
  case (1 gaps)
  then show ?case by simp
next
  case (2 s cs gaps)
  show ?case
  proof (cases "length gaps < 16")
    case False
    then show ?thesis by auto
  next
    case True
    obtain n rest where r: "run_of s 1 cs = (n, rest)" by (cases "run_of s 1 cs")
    have b: "unat s < B" "\<forall>c \<in> set cs. unat c < B" using "2.prems"(1) by simp_all
    then have "unat s + unat (1 :: u32) \<le> B" by simp
    note run = run_of_eq [OF r b(2) this "2.prems"(2)]
    have narrow: "unat (ucast s :: u16) = unat s" "unat (ucast n :: u16) = unat n"
      using b(1) run "2.prems"(2) by (simp_all add: unat_ucast_mod)
    have "\<forall>c \<in> set rest. unat c < B" using run b(2) by auto
    note IH = "2.IH" [OF True r [symmetric] this "2.prems"(2)]
    have step: "collapse_gaps (s # cs) gaps = collapse_gaps rest (gaps @ [(ucast s, ucast n)])" using True r by simp
    have "insert (unat s) ({unat s + 1..<unat s + unat n} \<union> unat ` set rest) = {unat s..<unat s + unat n} \<union> unat ` set rest"
      using run by auto
    then have all: "gaps_cover (gaps @ [(ucast s, ucast n)]) \<union> unat ` set rest = gaps_cover gaps \<union> unat ` set (s # cs)"
      using run narrow by auto
    show ?thesis
      unfolding step using IH True unfolding all by auto
  qed
qed

lemma ec_request_fields:
  fixes cid :: u32 and fallback :: bool
  assumes "length gaps \<le> 16"
  defines "m \<equiv> ec_request_message cid fallback gaps"
  shows "valid_message m" and "wanted (if fallback then EC_FALLBACK_SR else EC_NACK) m" and "msg_gaps m = gaps"
    and "unat (cm_num_gaps m) = length gaps"
proof -
  show "valid_message m" using assms
    by (simp add: ec_request_message_def valid_message_def wf_message_def zero_message_def zero_params_def wf_params_def)
  show "wanted (if fallback then EC_FALLBACK_SR else EC_NACK) m" by (simp add: m_def ec_request_message_def wanted_def)
  show n: "unat (cm_num_gaps m) = length gaps" using assms by (simp add: ec_request_message_def unat_of_nat_small)
  show "msg_gaps m = gaps"
    unfolding msg_gaps_def n by (simp add: m_def ec_request_message_def zip_append zip_map_fst_snd)
qed

section \<open>The inverse matrix is never used\<close>

text \<open>A library that differs in what \<open>gf_invert_matrix\<close> returns as the inverse.\<close>

definition with_inverse :: "(u8 list \<Rightarrow> u8 list) \<Rightarrow> ISAL \<Rightarrow> ISAL" where
  "with_inverse g lib = lib\<lparr>gf_invert_matrix := (\<lambda>a n. case gf_invert_matrix lib a n of
     (rc, left, inv_matrix) \<Rightarrow> (rc, left, g inv_matrix))\<rparr>"

lemma with_inverse_simps [simp]:
  "gf_gen_rs_matrix (with_inverse g lib) = gf_gen_rs_matrix lib"
  "ec_init_tables (with_inverse g lib) = ec_init_tables lib"
  "ec_encode_data (with_inverse g lib) = ec_encode_data lib"
  by (simp_all add: with_inverse_def)

text \<open>The tables of a row are written whole, so what the buffer of tables held before does not matter.\<close>

lemma recover_chunk_eq:
  assumes "isal_sizes lib"
  shows "recover_chunk lib k cb matrix srcs buf mi idx (t, rs) =
    (let tab = ec_init_tables lib (unat k) 1 (take (unat k) (drop (mi * unat k) matrix)) in
     if mi * unat k + unat k > length matrix \<or> 32 * unat k > length t then None
     else case those (map (\<lambda>src. read_at (buffer_bytes rs buf) (src * cb) cb) srcs) of
         None \<Rightarrow> None
       | Some data \<Rightarrow>
           map_option (Pair (tab @ drop (32 * unat k) t))
             (buffer_write rs buf (unat (idx * cb)) (concat (ec_encode_data lib (unat cb) (unat k) 1 tab data))))"
proof -
  define tab where "tab = ec_init_tables lib (unat k) 1 (take (unat k) (drop (mi * unat k) matrix))"
  have n: "length tab = 32 * unat k" using assms by (simp add: isal_sizes_def tab_def)
  then have w: "mem_write t 0 tab = (if 32 * unat k > length t then None else Some (tab @ drop (32 * unat k) t))"
    and tk: "take (32 * unat k) (tab @ drop (32 * unat k) t) = tab" by (simp_all add: mem_write_def)
  show ?thesis
    unfolding recover_chunk_def Let_def case_prod_conv tab_def [symmetric] w
    by (cases "32 * unat k > length t") (simp_all only: if_True if_False disj_ac simp_thms option.case tk split: if_split)
qed

lemma recover_chunk_tables:
  assumes "isal_sizes lib" and "length t = length t'"
  shows "recover_chunk (with_inverse g lib) k cb matrix srcs buf mi idx (t, rs)
      = recover_chunk lib k cb matrix srcs buf mi idx (t, rs)"
    and "map_option snd (recover_chunk lib k cb matrix srcs buf mi idx (t, rs))
      = map_option snd (recover_chunk lib k cb matrix srcs buf mi idx (t', rs))"
    and "recover_chunk lib k cb matrix srcs buf mi idx (t, rs) = Some st \<Longrightarrow> length (fst st) = length t"
proof -
  let ?tab = "ec_init_tables lib (unat k) 1 (take (unat k) (drop (mi * unat k) matrix))"
  have tab: "length ?tab = 32 * unat k" using assms(1) by (simp add: isal_sizes_def)
  show "recover_chunk (with_inverse g lib) k cb matrix srcs buf mi idx (t, rs)
      = recover_chunk lib k cb matrix srcs buf mi idx (t, rs)" unfolding recover_chunk_def with_inverse_simps ..
  show "map_option snd (recover_chunk lib k cb matrix srcs buf mi idx (t, rs))
      = map_option snd (recover_chunk lib k cb matrix srcs buf mi idx (t', rs))"
    unfolding recover_chunk_eq [OF assms(1)] Let_def using assms(2)
    by (simp add: option.map_comp comp_def split: option.split)
  show "length (fst st) = length t" if "recover_chunk lib k cb matrix srcs buf mi idx (t, rs) = Some st"
    using that tab unfolding recover_chunk_eq [OF assms(1)] Let_def
    by (auto split: if_splits option.splits)
qed

lemma recover_chunks_tables:
  assumes "isal_sizes lib" and "length t = length t'"
  shows "recover_chunks (with_inverse g lib) k cb matrix srcs buf mi idxs (t, rs)
    = recover_chunks lib k cb matrix srcs buf mi idxs (t', rs)"
  using assms(2)
proof (induction idxs arbitrary: mi t t' rs)
  case (Cons idx idxs)
  let ?r = "\<lambda>t. recover_chunk lib k cb matrix srcs buf mi idx (t, rs)"
  note tables = recover_chunk_tables [OF assms(1) Cons.prems]
  show ?case
  proof (cases "?r t")
    case None
    then have "?r t' = None" using tables(2) [of k cb matrix srcs buf mi idx rs] by simp
    with None show ?thesis by (simp add: tables(1))
  next
    case (Some st)
    then obtain st' where st': "?r t' = Some st'" "snd st' = snd st"
      using tables(2) [of k cb matrix srcs buf mi idx rs] by (cases "?r t'") simp_all
    have "length (fst st) = length (fst st')"
      using tables(3) [OF Some] recover_chunk_tables(3) [OF assms(1) HOL.refl st'(1)] Cons.prems by simp
    from Cons.IH [OF this] Some st' show ?thesis by (cases st; cases st') (simp add: tables(1))
  qed
qed simp

lemma decode_ignores_inverse:
  assumes "isal_sizes lib" and "\<forall>xs. length (g xs) = length xs"
  shows "decode_missing (with_inverse g lib) k m cb avail miss buf rs = decode_missing lib k m cb avail miss buf rs"
proof -
  have loop: "map_option Some (recover_chunks (with_inverse g lib) k cb a srcs buf 0 miss (t, rs))
      = map_option Some (recover_chunks lib k cb a srcs buf 0 miss (t', rs))" if "length t = length t'" for a srcs t t'
    using recover_chunks_tables [OF assms(1) that] by simp
  have inv: "gf_invert_matrix (with_inverse g lib) a n = (case gf_invert_matrix lib a n of (rc, left, inv_matrix) \<Rightarrow> (rc, left, g inv_matrix))"
    for a n by (simp add: with_inverse_def)
  show ?thesis
    unfolding decode_missing_def inv Let_def with_inverse_simps
    using assms(2) by (auto simp: mem_write_def intro!: loop split: option.split prod.split)
qed

section \<open>One call of try_decode\<close>

text \<open>The receiver \<open>r\<close> holds a posted message of context \<open>mc\<close> and chunk bitmap \<open>f\<close>, and its peer is connected.\<close>

definition ec_listening ::
    "ECReceiver \<Rightarrow> SDRRecvHandle \<Rightarrow> SDRConnection \<Rightarrow> TCPControlServer \<Rightarrow> MessageContext \<Rightarrow> FrontendBitmap \<Rightarrow> bool" where
  "ec_listening r h conn srv mc f \<longleftrightarrow>
     er_recv_handle r = Some h \<and> er_conn r = Some conn \<and> sc_tcp_server conn = Some srv \<and> server_alive srv
     \<and> unat (fst (rh_msg_ctx h)) < length (cc_msg_table (sc_connection_ctx conn))
     \<and> deref_ctx conn h = Some mc \<and> mc_frontend mc = Some f \<and> fb_wf f \<and> unat (er_data_chunks r) < 2 ^ 16"

text \<open>The message's context after the end of a decoding.\<close>

definition ec_finished :: "ECReceiver \<Rightarrow> SDRRecvHandle \<Rightarrow> bool" where
  "ec_finished r h \<longleftrightarrow> (\<exists>conn mc. er_conn r = Some conn \<and> deref_ctx conn h = Some mc
     \<and> mc_state mc = COMPLETED \<and> mc_total_chunks mc = ucast (er_data_chunks r))"

lemma set_ctx_deref:
  assumes "unat (fst (rh_msg_ctx h)) < length (cc_msg_table (sc_connection_ctx conn))"
    and "deref_ctx conn h = Some mc" and "mc_generation (g mc) = mc_generation mc"
  shows "deref_ctx (set_ctx h g conn) h = Some (g mc)"
  using assms by (auto simp: deref_ctx_def set_ctx_def update_message_def split: prod.splits option.splits if_splits)

lemma ec_ack_fields: "valid_message (ec_ack_message cid)" "wanted EC_ACK (ec_ack_message cid)"
  by (simp_all add: ec_ack_message_def valid_message_def wf_message_def zero_message_def zero_params_def wf_params_def
      wanted_def)

lemma ec_finish_eq:
  assumes L: "ec_listening r h conn srv mc f" and keep: "er_data_chunks r' = er_data_chunks r"
  shows "ed_complete (ec_finish r' h conn mem pad (int message_size))"
    and "ed_mem (ec_finish r' h conn mem pad (int message_size)) = mem"
    and "\<exists>m. ed_out (ec_finish r' h conn mem pad (int message_size)) = message_image pad m \<and> valid_message m \<and> wanted EC_ACK m"
    and "ec_finished (ed_receiver (ec_finish r' h conn mem pad (int message_size))) h"
proof -
  have srv: "sc_tcp_server conn = Some srv" "server_alive srv" using L by (simp_all add: ec_listening_def)
  show "ed_complete (ec_finish r' h conn mem pad (int message_size))"
    and "ed_mem (ec_finish r' h conn mem pad (int message_size)) = mem" by (simp_all add: ec_finish_def)
  have "ed_out (ec_finish r' h conn mem pad (int message_size))
      = message_image pad (ec_ack_message (cc_connection_id (sc_connection_ctx conn)))"
    using server_send_whole [OF srv(2)] ec_ack_fields(1) by (simp add: ec_finish_def srv(1) valid_message_def)
  then show "\<exists>m. ed_out (ec_finish r' h conn mem pad (int message_size)) = message_image pad m \<and> valid_message m \<and> wanted EC_ACK m"
    using ec_ack_fields by blast
  have "deref_ctx (set_ctx h (\<lambda>mc. mc\<lparr>mc_total_chunks := ucast (er_data_chunks r'), mc_state := COMPLETED\<rparr>) conn) h
      = Some (mc\<lparr>mc_total_chunks := ucast (er_data_chunks r'), mc_state := COMPLETED\<rparr>)"
    using L by (intro set_ctx_deref) (simp_all add: ec_listening_def)
  then show "ec_finished (ed_receiver (ec_finish r' h conn mem pad (int message_size))) h"
    by (simp add: ec_finished_def ec_finish_def)
qed

lemma ec_request_eq:
  fixes mem :: "nat \<Rightarrow> u8 list" and pad :: padding
  assumes L: "ec_listening r h conn srv mc f" and cs: "\<forall>c \<in> set cs. unat c < unat (er_data_chunks r)"
  defines "e \<equiv> ec_request r conn cs mem pad (int message_size)"
    and "fallback \<equiv> er_decode_attempts r + 1 \<ge> ecc_max_retries (er_cfg r)"
  shows "\<not> ed_complete e" and "ed_mem e = mem"
    and "er_decode_attempts (ed_receiver e) = er_decode_attempts r + 1"
    and "er_fallback_active (ed_receiver e) = (er_fallback_active r \<or> fallback)"
    and "\<exists>m. ed_out e = message_image pad m \<and> valid_message m
      \<and> wanted (if fallback then EC_FALLBACK_SR else EC_NACK) m \<and> unat (cm_num_gaps m) \<le> 16
      \<and> gaps_cover (msg_gaps m) \<subseteq> unat ` set cs
      \<and> (unat (cm_num_gaps m) < 16 \<longrightarrow> gaps_cover (msg_gaps m) = unat ` set cs)"
proof -
  have srv: "sc_tcp_server conn = Some srv" "server_alive srv" and D: "unat (er_data_chunks r) < 2 ^ 16"
    using L by (simp_all add: ec_listening_def)
  show "\<not> ed_complete e" and "ed_mem e = mem" and "er_decode_attempts (ed_receiver e) = er_decode_attempts r + 1"
    and "er_fallback_active (ed_receiver e) = (er_fallback_active r \<or> fallback)"
    by (simp_all add: e_def fallback_def ec_request_def srv Let_def)
  let ?gaps = "collapse_gaps cs []"
  let ?m = "ec_request_message (cc_connection_id (sc_connection_ctx conn)) fallback ?gaps"
  note gaps = collapse_gaps_eq [OF cs D, of "[]"]
  have "length ?gaps \<le> 16" using gaps by simp
  note m = ec_request_fields [OF this, where cid = "cc_connection_id (sc_connection_ctx conn)" and fallback = fallback]
  have "ed_out e = message_image pad ?m"
    using server_send_whole [OF srv(2)] m(1) by (simp add: e_def ec_request_def srv(1) Let_def valid_message_def fallback_def)
  then show "\<exists>m. ed_out e = message_image pad m \<and> valid_message m
      \<and> wanted (if fallback then EC_FALLBACK_SR else EC_NACK) m \<and> unat (cm_num_gaps m) \<le> 16
      \<and> gaps_cover (msg_gaps m) \<subseteq> unat ` set cs
      \<and> (unat (cm_num_gaps m) < 16 \<longrightarrow> gaps_cover (msg_gaps m) = unat ` set cs)"
    using m gaps by (intro exI [of _ ?m] conjI) (simp_all only: gaps_cover_simps Un_empty_left, simp_all)
qed

definition missing_chunks :: "FrontendBitmap \<Rightarrow> u32 \<Rightarrow> u32 list" where
  "missing_chunks f n = map of_nat (filter (\<lambda>c. c \<notin> marked f) [0..<unat n])"

lemma scan_missing: "fb_wf f \<Longrightarrow> scan_chunks False f n = Some (missing_chunks f n)"
  by (simp add: scan_chunks_eq missing_chunks_def)

lemma missing_chunks_set:
  fixes n :: u32 and f :: FrontendBitmap
  defines "cs \<equiv> missing_chunks f n"
  shows "unat ` set cs = missing f n" and "length cs = card (missing f n)" and "\<forall>c \<in> set cs. unat c < unat n"
    and "cs = [] \<longleftrightarrow> missing f n = {}"
proof -
  have below: "unat (of_nat c :: u32) = c" if "c < unat n" for c using that by (rule unat_of_nat_below)
  then show "unat ` set cs = missing f n" by (force simp: cs_def missing_chunks_def missing_def image_iff)
  then show "\<forall>c \<in> set cs. unat c < unat n" by (force simp: missing_def)
  have "length cs = card (set (filter (\<lambda>c. c \<notin> marked f) [0..<unat n]))"
    unfolding cs_def missing_chunks_def length_map by (rule distinct_card [symmetric]) simp
  moreover have "set (filter (\<lambda>c. c \<notin> marked f) [0..<unat n]) = missing f n"
    by (auto simp: missing_def)
  ultimately show len: "length cs = card (missing f n)" by simp
  show "cs = [] \<longleftrightarrow> missing f n = {}" using len by (metis card_0_eq finite_missing length_0_conv)
qed

text \<open>A call when the chunks \<open>cs\<close> are missing, up to the reconstruction.\<close>

lemma try_decode_eq:
  fixes mem :: "nat \<Rightarrow> u8 list"
  assumes L: "ec_listening r h conn srv mc f" and cs: "cs = missing_chunks f (er_data_chunks r)"
  defines "idle \<equiv> \<lambda>r. \<lparr> ed_complete = False, ed_receiver = r, ed_mem = mem, ed_out = [] \<rparr>"
  shows "cs = [] \<Longrightarrow> \<exists>r'. er_data_chunks r' = er_data_chunks r
        \<and> try_decode isal r mem pad sent = Ret (ec_finish r' h conn mem pad sent)"
    and "cs \<noteq> [] \<Longrightarrow> er_fallback_active r \<Longrightarrow> try_decode isal r mem pad sent = Ret (idle r)"
    and "\<not> er_fallback_active r \<Longrightarrow> length cs > unat (er_m r) \<Longrightarrow>
        try_decode isal r mem pad sent = Ret (ec_request r conn cs mem pad sent)"
    and "cs \<noteq> [] \<Longrightarrow> \<not> er_fallback_active r \<Longrightarrow> length cs \<le> unat (er_m r) \<Longrightarrow>
        try_decode None r mem pad sent = Ret (idle (count_fallback r))"
proof -
  have r: "er_recv_handle r = Some h" "er_conn r = Some conn" "deref_ctx conn h = Some mc" "mc_frontend mc = Some f"
    and f: "fb_wf f" using L by (simp_all add: ec_listening_def)
  have get: "sdr_recv_bitmap_get conn (Some h) True True = Ret (0, chunk_bitmap f, ucast (fb_num_words f) * 8)"
    by (simp add: sdr_recv_bitmap_get_def r)
  note eq = try_decode_def [of _ r mem pad sent, unfolded Let_def r option.case prod.case get run_bind.simps
      scan_missing [OF f] cs [symmetric]]
  show "\<exists>r'. er_data_chunks r' = er_data_chunks r \<and> try_decode isal r mem pad sent = Ret (ec_finish r' h conn mem pad sent)"
    if "cs = []"
    using that unfolding eq
    by (intro exI [of _ "if er_fallback_active r then r\<lparr>er_fallback_active := False\<rparr> else r"]) simp
  show "try_decode isal r mem pad sent = Ret (idle r)" if "cs \<noteq> []" "er_fallback_active r"
    using that unfolding eq by (simp add: idle_def)
  show "try_decode isal r mem pad sent = Ret (ec_request r conn cs mem pad sent)"
    if "\<not> er_fallback_active r" "length cs > unat (er_m r)"
    using that unfolding eq by (cases cs) simp_all
  show "try_decode None r mem pad sent = Ret (idle (count_fallback r))"
    if "cs \<noteq> []" "\<not> er_fallback_active r" "length cs \<le> unat (er_m r)"
    using that unfolding eq by (simp add: idle_def)
qed

section \<open>Properties\<close>

text \<open>C34: What one call of \<open>try_decode\<close> does before any reconstruction, for a message of fewer than \<open>2^16\<close> data
  chunks.  With no data chunk missing it answers true, sends one EC_ACK and completes the context, in the
  fallback too.  In the fallback it otherwise does nothing.  With more chunks missing than there are parity
  chunks in a stripe it sends one request and answers false: an EC_FALLBACK_SR, entering the fallback, if
  this attempt reaches the configured number of retries, an EC_NACK otherwise; the request names only
  missing chunks, and all of them if it holds fewer than 16 gaps.  With fewer missing chunks, a build
  without ISA-L sends nothing at all and answers false.\<close>

theorem ec_try_decode_feedback:
  assumes L: "ec_listening r h conn srv mc f" and X: "X = missing f (er_data_chunks r)" and sent: "sent = int message_size"
  shows "(X = {} \<longrightarrow> (\<exists>e m. try_decode isal r mem pad sent = Ret e \<and> ed_complete e \<and> ed_mem e = mem
        \<and> ed_out e = message_image pad m \<and> valid_message m \<and> wanted EC_ACK m \<and> ec_finished (ed_receiver e) h))
    \<and> (X \<noteq> {} \<and> er_fallback_active r \<longrightarrow>
        try_decode isal r mem pad sent = Ret \<lparr> ed_complete = False, ed_receiver = r, ed_mem = mem, ed_out = [] \<rparr>)
    \<and> (\<not> er_fallback_active r \<and> card X > unat (er_m r) \<longrightarrow> (\<exists>e m. try_decode isal r mem pad sent = Ret e
        \<and> \<not> ed_complete e \<and> ed_mem e = mem \<and> ed_out e = message_image pad m \<and> valid_message m
        \<and> wanted (if er_fallback_active (ed_receiver e) then EC_FALLBACK_SR else EC_NACK) m
        \<and> er_fallback_active (ed_receiver e) = (er_decode_attempts r + 1 \<ge> ecc_max_retries (er_cfg r))
        \<and> er_decode_attempts (ed_receiver e) = er_decode_attempts r + 1
        \<and> unat (cm_num_gaps m) \<le> 16 \<and> gaps_cover (msg_gaps m) \<subseteq> X
        \<and> (unat (cm_num_gaps m) < 16 \<longrightarrow> gaps_cover (msg_gaps m) = X)))
    \<and> (X \<noteq> {} \<and> \<not> er_fallback_active r \<and> card X \<le> unat (er_m r) \<longrightarrow> try_decode None r mem pad sent
        = Ret \<lparr> ed_complete = False, ed_receiver = count_fallback r, ed_mem = mem, ed_out = [] \<rparr>)"
proof -
  let ?cs = "missing_chunks f (er_data_chunks r)"
  note cs = missing_chunks_set [of f "er_data_chunks r", folded X] and eq = try_decode_eq [OF L HOL.refl, where mem = mem and pad = pad and sent = sent]
  have "\<exists>e m. try_decode isal r mem pad sent = Ret e \<and> ed_complete e \<and> ed_mem e = mem
        \<and> ed_out e = message_image pad m \<and> valid_message m \<and> wanted EC_ACK m \<and> ec_finished (ed_receiver e) h"
    if "X = {}"
  proof -
    have "?cs = []" using cs(4) that by simp
    from eq(1) [OF this, of isal] obtain r' where r': "er_data_chunks r' = er_data_chunks r"
      "try_decode isal r mem pad sent = Ret (ec_finish r' h conn mem pad sent)" by (elim exE conjE) (rule that)
    then show ?thesis using ec_finish_eq [OF L r'(1), of mem pad] unfolding sent by blast
  qed
  moreover have "\<exists>e m. try_decode isal r mem pad sent = Ret e
        \<and> \<not> ed_complete e \<and> ed_mem e = mem \<and> ed_out e = message_image pad m \<and> valid_message m
        \<and> wanted (if er_fallback_active (ed_receiver e) then EC_FALLBACK_SR else EC_NACK) m
        \<and> er_fallback_active (ed_receiver e) = (er_decode_attempts r + 1 \<ge> ecc_max_retries (er_cfg r))
        \<and> er_decode_attempts (ed_receiver e) = er_decode_attempts r + 1
        \<and> unat (cm_num_gaps m) \<le> 16 \<and> gaps_cover (msg_gaps m) \<subseteq> X
        \<and> (unat (cm_num_gaps m) < 16 \<longrightarrow> gaps_cover (msg_gaps m) = X)"
    if "\<not> er_fallback_active r" "card X > unat (er_m r)"
  proof -
    define e where "e = ec_request r conn ?cs mem pad sent"
    note q = ec_request_eq [OF L cs(3), of mem pad, folded sent, folded e_def, unfolded cs(1)]
    obtain m where m: "ed_out e = message_image pad m" "valid_message m"
      "wanted (if ecc_max_retries (er_cfg r) \<le> er_decode_attempts r + 1 then EC_FALLBACK_SR else EC_NACK) m"
      "unat (cm_num_gaps m) \<le> 16" "gaps_cover (msg_gaps m) \<subseteq> X"
      "unat (cm_num_gaps m) < 16 \<longrightarrow> gaps_cover (msg_gaps m) = X"
      using q(5) by (elim exE conjE) (rule that)
    have "try_decode isal r mem pad sent = Ret e" unfolding e_def using that cs(2) by (intro eq(3)) simp_all
    then show ?thesis using q(1-4) that(1) m by (intro exI [of _ e] exI [of _ m] conjI) simp_all
  qed
  ultimately show ?thesis using eq(2,4) cs(2,4) by simp
qed

definition demo_ec_receiver :: ECReceiver where
  "demo_ec_receiver = (ECReceiver_new \<lparr>ecc_k_data = 2, ecc_m_parity = 1, ecc_fallback_timeout_ms = 10, ecc_data_bytes = 5,
       ecc_max_retries = 3\<rparr>)
     \<lparr>er_recv_handle := Some demo_handle, er_conn := Some demo_posted, er_k := 2, er_m := 1, er_data_chunks := 2,
      er_parity_chunks := 1, er_stripes := 1, er_chunk_bytes := 4\<rparr>"

lemma demo_ec_listening:
  "\<exists>mc f. ec_listening demo_ec_receiver demo_handle demo_posted (TCPControlServer_new\<lparr>client_fd := 5\<rparr>) mc f
    \<and> missing f 2 = {0, 1}"
proof -
  obtain mc f where m: "deref_ctx demo_posted demo_handle = Some mc" "mc_frontend mc = Some f" "fb_wf f" "marked f = {}"
    using demo_posted_ctx by blast
  have "cc_wf (sc_connection_ctx demo_posted)" using demo_rx_inv(1) by (simp add: demo_posted_def rx_inv_def)
  then have "unat (fst (rh_msg_ctx demo_handle)) < length (cc_msg_table (sc_connection_ctx demo_posted))"
    by (simp add: cc_wf_def demo_handle_def MAX_MESSAGES_def)
  moreover have "missing f 2 = {0, 1}" by (auto simp: missing_def m(4) less_2_cases_iff)
  ultimately show ?thesis
    using m by (intro exI [of _ mc] exI [of _ f])
      (simp add: ec_listening_def demo_ec_receiver_def server_alive_def demo_posted_def demo_rconn_def)
qed

theorem ec_try_decode_feedback_witness:
  "\<exists>e m. try_decode None demo_ec_receiver (\<lambda>_. []) (\<lambda>_. 0) 288 = Ret e \<and> \<not> ed_complete e
    \<and> ed_out e = message_image (\<lambda>_. 0) m \<and> wanted EC_NACK m \<and> gaps_cover (msg_gaps m) \<subseteq> {0, 1}
    \<and> er_decode_attempts (ed_receiver e) = 1"
proof -
  obtain mc f where L: "ec_listening demo_ec_receiver demo_handle demo_posted (TCPControlServer_new\<lparr>client_fd := 5\<rparr>) mc f"
    and X: "missing f 2 = {0, 1}" using demo_ec_listening by blast
  have r: "er_data_chunks demo_ec_receiver = 2" "er_m demo_ec_receiver = 1" "\<not> er_fallback_active demo_ec_receiver"
    "er_decode_attempts demo_ec_receiver = 0" "ecc_max_retries (er_cfg demo_ec_receiver) = 3"
    by (simp_all add: demo_ec_receiver_def ECReceiver_new_def)
  have X': "{0, 1} = missing f (er_data_chunks demo_ec_receiver)" by (simp add: r X)
  note t = ec_try_decode_feedback [OF L X' HOL.refl, of None "\<lambda>_. []" "\<lambda>_. 0", THEN conjunct2, THEN conjunct2,
      THEN conjunct1, unfolded r(1,2,4,5)]
  have big: "unat (1 :: u16) < card {0, 1 :: nat}" by simp
  obtain e m where m: "try_decode None demo_ec_receiver (\<lambda>_. []) (\<lambda>_. 0) (int message_size) = Ret e" "\<not> ed_complete e"
    "ed_out e = message_image (\<lambda>_. 0) m" "wanted (if er_fallback_active (ed_receiver e) then EC_FALLBACK_SR else EC_NACK) m"
    "er_fallback_active (ed_receiver e) = ((3 :: u32) \<le> 0 + 1)" "er_decode_attempts (ed_receiver e) = 0 + 1"
    "gaps_cover (msg_gaps m) \<subseteq> {0, 1}"
    using mp [OF t conjI [OF r(3) big]] by (elim exE conjE) (rule that)
  have "\<not> er_fallback_active (ed_receiver e)" using m(5) by (simp add: word_le_nat_alt)
  then show ?thesis using m by (intro exI [of _ e] exI [of _ m] conjI) (simp_all add: message_size_def)
qed

text \<open>C40: The decoder does not use the inverse matrix: whatever \<open>gf_invert_matrix\<close> writes as the inverse,
  \<open>try_decode\<close> does the same, since it takes the coefficients from the matrix that was handed over to be
  inverted.\<close>

theorem ec_decode_ignores_inverse:
  assumes "isal_sizes lib" and "\<forall>xs. length (g xs) = length xs"
  shows "try_decode (Some (with_inverse g lib)) r mem pad sent = try_decode (Some lib) r mem pad sent"
  unfolding try_decode_def option.case decode_ignores_inverse [OF assms] ..

theorem ec_decode_ignores_inverse_witness:
  "try_decode (Some (with_inverse rev demo_isal)) demo_ec_receiver (\<lambda>_. []) (\<lambda>_. 0) 288
    = try_decode (Some demo_isal) demo_ec_receiver (\<lambda>_. []) (\<lambda>_. 0) 288"
  by (rule ec_decode_ignores_inverse) (simp_all add: demo_isal_sizes)

end
