(* ===== verification/Program_Args.thy ===== *)
theory Program_Args
  imports Api Config_Parser "HOL-Library.Signed_Division"
begin

text \<open>
  What the two example programs share (\<open>examples/sdr_test_sender.cpp\<close>, \<open>examples/sdr_test_receiver.cpp\<close>):
  the mode flag, reading numbers and options from the command line and the configuration, the bytes the
  sender sends and the check of them at the receiver.
\<close>

section \<open>The command line\<close>

datatype Mode = SDR | SR | EC

text \<open>\<open>argv\<close> holds the program's name too.  \<open>Usage\<close> ends the program with 1, \<open>Thrown\<close> is an uncaught exception.\<close>

datatype 'a parsed = Usage | Thrown | Parsed 'a

definition mode_flag :: "string list \<Rightarrow> (Mode \<times> nat) option" where
  "mode_flag argv =
     (if length argv > 1 \<and> argv ! 1 = ''--mode''
      then if length argv < 3 then None
           else Some (if argv ! 2 = ''sr'' then SR else if argv ! 2 = ''ec'' then EC else SDR, 3)
      else Some (SDR, 1))"

text \<open>\<open>std::stoi\<close> in base 10; \<open>None\<close> stands for its exceptions.  \<open>std::stoull\<close> is \<open>std::stoul\<close> of 64 bits.\<close>

definition stoi :: "string \<Rightarrow> int option" where
  "stoi s =
     (let s1 = dropWhile is_space s;
          neg = (s1 \<noteq> [] \<and> hd s1 = CHR ''-'');
          s2 = (if s1 \<noteq> [] \<and> (hd s1 = CHR ''-'' \<or> hd s1 = CHR ''+'') then tl s1 else s1);
          ds = takeWhile is_digit s2;
          n = (if neg then - int (digits_value ds) else int (digits_value ds))
      in if ds = [] \<or> n < - (2 ^ 31) \<or> n \<ge> 2 ^ 31 then None else Some n)"

record SenderArgs =
  sa_mode :: Mode
  sa_server_ip :: string
  sa_tcp_port :: u16
  sa_udp_port :: u16
  sa_message_size :: u64
  sa_config_file :: string
  sa_given :: nat

text \<open>The arguments after the flag, whose number is kept because the program asks for it again.\<close>

definition sender_args :: "string list \<Rightarrow> SenderArgs parsed" where
  "sender_args argv =
     (case mode_flag argv of
        None \<Rightarrow> Usage
      | Some (mode, argi) \<Rightarrow>
          (if length argv < argi + 3 then Usage
           else case (stoi (argv ! (argi + 1)), stoi (argv ! (argi + 2))) of
               (Some tcp, Some udp) \<Rightarrow>
                 (let args = \<lparr> sa_mode = mode, sa_server_ip = argv ! argi, sa_tcp_port = of_int tcp,
                              sa_udp_port = of_int udp, sa_message_size = 1024 * 1024, sa_config_file = [],
                              sa_given = length argv - argi \<rparr>
                  in if length argv \<ge> argi + 4
                     then (case stoul (argv ! (argi + 3)) of
                             None \<Rightarrow> Thrown
                           | Some sz \<Rightarrow>
                               Parsed (args\<lparr>sa_message_size := sz,
                                 sa_config_file := (if length argv \<ge> argi + 5 then argv ! (argi + 4) else [])\<rparr>))
                     else if length argv = argi + 3
                     then Parsed (if length argv > argi + 3 then args\<lparr>sa_config_file := argv ! (argi + 3)\<rparr> else args)
                     else Parsed args)
             | _ \<Rightarrow> Thrown))"

record ReceiverArgs =
  ra_mode :: Mode
  ra_tcp_port :: u16
  ra_udp_port :: u16
  ra_message_size :: u64
  ra_config_file :: string

definition receiver_args :: "string list \<Rightarrow> ReceiverArgs parsed" where
  "receiver_args argv =
     (case mode_flag argv of
        None \<Rightarrow> Usage
      | Some (mode, argi) \<Rightarrow>
          (if length argv < argi + 3 then Usage
           else case (stoi (argv ! argi), stoi (argv ! (argi + 1))) of
               (Some tcp, Some udp) \<Rightarrow>
                 (let args = \<lparr> ra_mode = mode, ra_tcp_port = of_int tcp, ra_udp_port = of_int udp,
                              ra_message_size = 1024 * 1024, ra_config_file = argv ! (argi + 2) \<rparr>
                  in if length argv \<ge> argi + 4
                     then (case stoul (argv ! (argi + 2)) of
                             None \<Rightarrow> Thrown
                           | Some sz \<Rightarrow>
                               Parsed (args\<lparr>ra_message_size := sz, ra_config_file := argv ! (argi + 3)\<rparr>))
                     else Parsed args)
             | _ \<Rightarrow> Thrown))"

section \<open>Configuration\<close>

definition ConfigParser_new :: ConfigParser where
  "ConfigParser_new = \<lparr> config_map = Map.empty \<rparr>"

text \<open>\<open>files\<close> gives the contents of the files that can be opened.\<close>

definition sender_config :: "(string \<Rightarrow> string option) \<Rightarrow> SenderArgs \<Rightarrow> ConfigParser" where
  "sender_config files args =
     (if sa_config_file args \<noteq> [] then snd (load_from_file ConfigParser_new (files (sa_config_file args)))
      else ConfigParser_new)"

definition sender_size :: "ConfigParser \<Rightarrow> SenderArgs \<Rightarrow> u64" where
  "sender_size cfg args =
     (if sa_given args < 4 then ucast (get_uint32 cfg ''message_size'' (ucast (sa_message_size args)))
      else sa_message_size args)"

definition sender_params :: "ConfigParser \<Rightarrow> u16 \<Rightarrow> ConnectionParams" where
  "sender_params cfg udp_port =
     zero_params\<lparr>cp_mtu_bytes := get_uint32 cfg ''mtu_bytes'' 0,
       cp_packets_per_chunk := ucast (get_uint32 cfg ''packets_per_chunk'' 0),
       cp_channel_base_port := udp_port, cp_udp_server_port := udp_port,
       cp_num_channels := ucast (get_uint32 cfg ''num_channels'' 1),
       cp_transfer_id := get_uint32 cfg ''transfer_id'' 1\<rparr>"

text \<open>The characters that \<open>c_str()\<close> points to.\<close>

definition c_str :: "string \<Rightarrow> u8 list" where
  "c_str s = map (\<lambda>c. of_nat (char_code c)) s @ [0]"

definition receiver_params :: "ConfigParser \<Rightarrow> u16 \<Rightarrow> ConnectionParams" where
  "receiver_params cfg udp_port =
     zero_params\<lparr>cp_mtu_bytes := get_uint32 cfg ''mtu_bytes'' 128,
       cp_packets_per_chunk := ucast (get_uint32 cfg ''packets_per_chunk'' 64),
       cp_udp_server_port := udp_port,
       cp_channel_base_port := ucast (get_uint32 cfg ''channel_base_port'' (ucast udp_port)),
       cp_num_channels := ucast (get_uint32 cfg ''num_channels'' 1),
       cp_udp_server_ip := set_ip (cp_udp_server_ip zero_params) (c_str (get_string cfg ''udp_server_ip'' ''127.0.0.1'')),
       cp_transfer_id := get_uint32 cfg ''transfer_id'' 1\<rparr>"

text \<open>The state of a fresh process; \<open>mem\<close> are its buffers.\<close>

definition fresh_host :: "string \<Rightarrow> (nat \<Rightarrow> u8 list) \<Rightarrow> Host" where
  "fresh_host name mem = \<lparr> hs_ctx = sdr_ctx_create (Some name), hs_next_conn_id = 1,
     hs_receiver_generation_counter = 1, hs_mem = mem \<rparr>"

section \<open>The bytes and their check\<close>

definition test_payload :: "nat \<Rightarrow> u8 list" where
  "test_payload n = map (\<lambda>i. of_nat (i mod 256)) [0..<n]"

text \<open>
  The check of the first 1024 bytes: whether they are as expected, and the offset of the first that is
  not, \<open>SIZE_MAX\<close> before there is one.  It ends soon after the first mismatch.
\<close>

definition verify_byte ::
    "u8 list \<Rightarrow> u64 \<Rightarrow> bool \<times> u64 \<Rightarrow> (bool \<times> u64) option + (bool \<times> u64)" where
  "verify_byte recv_buffer i st =
     (let (data_valid, first_mismatch) = st in
      case arr_get recv_buffer (unat i) of
        None \<Rightarrow> Inl None
      | Some actual \<Rightarrow>
          (if actual \<noteq> ucast (i mod 256)
           then let first_mismatch = (if first_mismatch = - 1 then i else first_mismatch)
                in if i - first_mismatch > 10 then Inl (Some (False, first_mismatch)) else Inr (False, first_mismatch)
           else Inr (data_valid, first_mismatch)))"

definition verify_data :: "u8 list \<Rightarrow> u64 \<Rightarrow> (bool \<times> u64) option" where
  "verify_data recv_buffer sz = loop_result (for_exit 0 (min sz 1024) (verify_byte recv_buffer) (True, - 1))"

section \<open>Properties\<close>

lemma test_payload_simps [simp]:
  "length (test_payload n) = n" "i < n \<Longrightarrow> test_payload n ! i = of_nat (i mod 256)"
  by (simp_all add: test_payload_def)

lemma take_test_payload: "k \<le> n \<Longrightarrow> take k (test_payload n) = test_payload k"
  by (rule nth_equalityI) simp_all

lemma expected_byte: "k < 2 ^ 64 \<Longrightarrow> ucast (of_nat k mod 256 :: u64) = (of_nat (k mod 256) :: u8)"
  by (simp add: word_unat_eq_iff unat_mod unat_of_nat_small unat_ucast_mod unat_of_nat)

definition first_wrong :: "u8 list \<Rightarrow> nat \<Rightarrow> bool" where
  "first_wrong buf j \<longleftrightarrow> buf ! j \<noteq> of_nat (j mod 256) \<and> (\<forall>i < j. buf ! i = of_nat (i mod 256))"

lemma verify_byte_eq:
  assumes "k < length buf" and "k < 1024"
  shows "verify_byte buf (of_nat k) (v, fm) =
    (if buf ! k = of_nat (k mod 256) then Inr (v, fm)
     else let fm = (if fm = - 1 then of_nat k else fm)
          in if of_nat k - fm > 10 then Inl (Some (False, fm)) else Inr (False, fm))"
  using assms expected_byte [of k] by (simp add: verify_byte_def unat_of_nat_small)

lemma small_not_max: "k < 1024 \<Longrightarrow> of_nat k \<noteq> (- 1 :: u64)"
proof
  assume k: "k < 1024" "of_nat k = (- 1 :: u64)"
  then have "unat (of_nat k :: u64) = unat (- 1 :: u64)" by simp
  moreover have "unat (of_nat k :: u64) = k" using k(1) by (intro unat_of_nat_small) simp
  ultimately show False using k(1) by (simp add: unsigned_minus_1_eq_mask mask_eq_exp_minus_1)
qed

lemma verify_data_eq:
  fixes sz :: u64
  defines "n \<equiv> min (unat sz) 1024"
  assumes n: "n \<le> length buf"
  shows "if take n buf = test_payload n then verify_data buf sz = Some (True, - 1)
    else \<exists>j < n. first_wrong buf j \<and> verify_data buf sz = Some (False, of_nat j)"
proof -
  let ?ok = "\<lambda>k. \<forall>i < k. buf ! i = of_nat (i mod 256)"
  let ?bad = "\<lambda>k st. \<exists>j < k. first_wrong buf j \<and> st = (False, of_nat j)"
  let ?P = "\<lambda>k st. if ?ok k then st = (True, - 1) else ?bad k st"
  let ?Q = "\<lambda>e. \<exists>st. e = Some st \<and> ?bad n st"
  have lim: "unat (min sz 1024) = n" by (simp add: n_def min_def word_le_nat_alt)
  have step: "(case verify_byte buf (of_nat k) st of Inr st' \<Rightarrow> ?P (Suc k) st' | Inl e \<Rightarrow> ?Q e)"
    if k: "k < n" and P: "?P k st" for k st
  proof -
    have k': "k < length buf" "k < 1024" using k n unfolding n_def by linarith+
    obtain v fm where st: "st = (v, fm)" by (cases st)
    show ?thesis
    proof (cases "?ok k")
      case True
      then have f: "v" "fm = - 1" using P by (simp_all add: st)
      have "?ok (Suc k) \<longleftrightarrow> buf ! k = of_nat (k mod 256)" using True by (auto simp: less_Suc_eq)
      moreover have "first_wrong buf k" if "buf ! k \<noteq> of_nat (k mod 256)" using True that by (simp add: first_wrong_def)
      ultimately show ?thesis using f by (auto simp: st verify_byte_eq [OF k'])
    next
      case False
      then obtain j where j: "j < k" "first_wrong buf j" "\<not> v" "fm = of_nat j"
        using P unfolding st if_not_P [OF False] by auto
      then have "fm \<noteq> - 1" using k'(2) small_not_max by simp
      moreover have "\<not> ?ok (Suc k)" using False by (auto simp: less_Suc_eq)
      moreover have "j < n" "j < Suc k" using j(1) k by simp_all
      then have "?bad (Suc k) (False, of_nat j)" "?bad n (False, of_nat j)" using j(2) by blast+
      ultimately show ?thesis unfolding st verify_byte_eq [OF k'] Let_def using j(3,4)
        by (simp only: if_not_P if_False not_False_eq_True simp_thms split: if_split sum.split) auto
    qed
  qed
  have "case for_exit 0 (min sz 1024) (verify_byte buf) (True, - 1) of Inr st \<Rightarrow> ?P (unat (min sz 1024)) st | Inl e \<Rightarrow> ?Q e"
  proof (rule for_exit_rule)
    show "?P (unat (0 :: u64)) (True, - 1)" by simp
  next
    fix k st st' assume "k < unat (min sz 1024)" "?P k st" "verify_byte buf (of_nat k) st = Inr st'"
    then show "?P (Suc k) st'" using step [of k st] lim by simp
  next
    fix k st e assume "k < unat (min sz 1024)" "?P k st" "verify_byte buf (of_nat k) st = Inl e"
    then show "?Q e" using step [of k st] lim by simp
  qed simp
  then have res: "\<exists>st. verify_data buf sz = Some st \<and> (?P n st \<or> ?bad n st)"
    unfolding lim verify_data_def by (cases "for_exit 0 (min sz 1024) (verify_byte buf) (True, - 1)") auto
  have eq: "take n buf = test_payload n \<longleftrightarrow> ?ok n"
    using n by (auto simp: list_eq_iff_nth_eq min_absorb2)
  show ?thesis
  proof (cases "?ok n")
    case True
    then have "\<not> ?bad n st" for st by (auto simp: first_wrong_def)
    then show ?thesis using True res eq by auto
  next
    case False
    obtain st where st: "verify_data buf sz = Some st" "?P n st \<or> ?bad n st" using res by blast
    then have "?bad n st" unfolding if_not_P [OF False] by blast
    then show ?thesis using st(1) False eq by auto
  qed
qed

lemma sender_args_given:
  assumes "sender_args argv = Parsed args"
  shows "sa_given args \<ge> 3" and "sa_given args < 4 \<Longrightarrow> sa_config_file args = [] \<and> sa_message_size args = 1048576"
  using assms
  by (auto simp: sender_args_def Let_def split: option.splits prod.splits if_splits)

lemma sender_size_eq:
  assumes "sender_args argv = Parsed args"
  shows "sender_size (sender_config files args) args = sa_message_size args"
proof (cases "sa_given args < 4")
  case True
  then have "sa_config_file args = []" "sa_message_size args = 1048576" using sender_args_given [OF assms] by simp_all
  then show ?thesis by (simp add: sender_size_def sender_config_def ConfigParser_new_def get_uint32_def)
qed (simp add: sender_size_def)

text \<open>The sender never takes the message size from its configuration.  Without a size on the command line no
  configuration is read either, so the branch that looks for \<open>message_size\<close> finds its default, 1 MiB.\<close>

theorem sender_size_from_command_line:
  assumes "sender_args argv = Parsed args"
  shows "sender_size (sender_config files args) args = sa_message_size args
    \<and> (sa_given args = 3 \<longrightarrow> sender_config files args = ConfigParser_new \<and> sa_message_size args = 1048576)"
  using sender_size_eq [OF assms] sender_args_given [OF assms] by (simp add: sender_config_def)

lemma small_numbers: "stoi ''8888'' = Some 8888" "stoi ''9999'' = Some 9999"
  by (simp_all add: stoi_def is_space_def is_digit_def char_code_def digits_value_def Let_def)

theorem sender_size_from_command_line_witness:
  "\<exists>args. sender_args [''sender'', ''127.0.0.1'', ''8888'', ''9999''] = Parsed args
    \<and> sender_size (sender_config (\<lambda>_. Some ''message_size = 5'') args) args = 1048576"
proof -
  let ?args = "\<lparr> sa_mode = SDR, sa_server_ip = ''127.0.0.1'', sa_tcp_port = 8888, sa_udp_port = 9999,
    sa_message_size = 1024 * 1024, sa_config_file = [], sa_given = 3 \<rparr>"
  have args: "sender_args [''sender'', ''127.0.0.1'', ''8888'', ''9999''] = Parsed ?args"
    by (simp add: sender_args_def mode_flag_def small_numbers)
  then have "sender_size (sender_config (\<lambda>_. Some ''message_size = 5'') ?args) ?args = 1048576"
    using trans [OF sender_size_from_command_line [THEN conjunct1], of _ ?args 1048576] by simp
  with args show ?thesis by (intro exI [of _ ?args] conjI)
qed

end
