(* ===== verification/Sender_Program.thy ===== *)
theory Sender_Program
  imports Program_Args EC_Sender
begin

text \<open>
  The sending example program, \<open>examples/sdr_test_sender.cpp\<close>: arguments, configuration, connection, and the
  transfer in one of three modes.  Timing and what is printed are left out.
\<close>

section \<open>The program\<close>

text \<open>What the system answers during a run; the events are what arrives on the control connection.\<close>

record SenderSys =
  ss_connect :: ConnectSys
  ss_post :: SendPostSys
  ss_sr :: SRSys
  ss_socket :: "nat \<Rightarrow> int"
  ss_events :: "NetEvent list"

text \<open>The exit status, what the last call of the transfer returned, and what was sent and closed.\<close>

record SenderRun =
  so_exit :: int
  so_rc :: int
  so_wire :: "(u16 \<times> u8 list) list"
  so_out :: "u8 list"
  so_closed :: "int list"

definition sender_sr_config :: "ConfigParser \<Rightarrow> SRConfig" where
  "sender_sr_config cfg =
     \<lparr> cfg_rto_ms = get_uint32 cfg ''sr_rto_ms'' 500, cfg_nack_delay_ms = get_uint32 cfg ''sr_nack_delay_ms'' 200,
       cfg_max_inflight_chunks = ucast (get_uint32 cfg ''window_size'' 0), cfg_base_rtt_ms = 100, cfg_alpha_ms = 100 \<rparr>"

definition sender_ec_config :: "u64 \<Rightarrow> ECConfig" where
  "sender_ec_config message_bytes =
     \<lparr> ecc_k_data = (if message_bytes > 0 then 4 else 4), ecc_m_parity = 2, ecc_fallback_timeout_ms = 0,
       ecc_data_bytes = message_bytes, ecc_max_retries = 3 \<rparr>"

definition send_plain :: "SenderSys \<Rightarrow> Host \<Rightarrow> SDRConnection \<Rightarrow> u64 \<Rightarrow> SenderRun run" where
  "send_plain sys host conn message_bytes =
     run_bind (sdr_send_post host conn True (Some (test_payload (unat message_bytes))) message_bytes True
                 (ss_events sys) (ss_post sys))
       (\<lambda>SP.
          let result = \<lparr> so_exit = 1, so_rc = sp_rc SP, so_wire = sp_wire SP, so_out = sp_out SP,
                         so_closed = sdr_disconnect (Some (sp_conn SP)) \<rparr>
          in if sp_rc SP \<noteq> 0 then Ret result
             else run_bind (sdr_send_poll (sp_handle SP \<noteq> None) (sc_tcp_client (sp_conn SP)) (sp_rest SP))
                    (\<lambda>(rc, cl, _).
                       Ret (result\<lparr>so_exit := 0, so_rc := rc,
                              so_closed := sdr_disconnect (Some ((sp_conn SP)\<lparr>sc_tcp_client := cl\<rparr>))\<rparr>)))"

definition send_sr :: "SenderSys \<Rightarrow> ConfigParser \<Rightarrow> Host \<Rightarrow> SDRConnection \<Rightarrow> u64 \<Rightarrow> SenderRun run" where
  "send_sr sys cfg host conn message_bytes =
     run_bind (sr_start_send (ss_sr sys) (SRSender_new (sender_sr_config cfg)) host conn
                 (Some (test_payload (unat message_bytes))) message_bytes (ss_events sys) (ss_post sys))
       (\<lambda>st.
          let result = (\<lambda>rc s. \<lparr> so_exit = 0, so_rc = rc, so_wire = srs_wire s, so_out = sst_out st,
                                 so_closed = sdr_disconnect (srs_conn s) \<rparr>)
          in if sst_rc st = 0
             then run_bind (sr_poll (ss_sr sys) (sst_sender st) (sst_rest st)) (\<lambda>(rc, s, _). Ret (result rc s))
             else Ret (result (sst_rc st) (sst_sender st)))"

definition send_ec :: "SenderSys \<Rightarrow> ISAL option \<Rightarrow> Host \<Rightarrow> SDRConnection \<Rightarrow> u64 \<Rightarrow> SenderRun run" where
  "send_ec sys isal host conn message_bytes =
     run_bind (encode_and_send isal (ECSender_new (sender_ec_config message_bytes)) host conn
                 (test_payload (unat message_bytes)) message_bytes (ss_events sys) (ss_post sys))
       (\<lambda>st.
          let result = (\<lambda>rc e. \<lparr> so_exit = 0, so_rc = rc, so_wire = es_wire e, so_out = est_out st,
                                 so_closed = sdr_disconnect (es_conn e) \<rparr>)
          in if est_rc st = 0
             then run_bind (ec_poll (ss_socket sys) (est_sender st) (est_rest st)) (\<lambda>(rc, e, _). Ret (result rc e))
             else Ret (result (est_rc st) (est_sender st)))"

definition no_run :: "int list \<Rightarrow> SenderRun" where
  "no_run closed = \<lparr> so_exit = 1, so_rc = 0, so_wire = [], so_out = [], so_closed = closed \<rparr>"

text \<open>The outcome \<open>Thrown\<close> is an exception that ends the program, \<open>Usage\<close> is exit status 1.\<close>

definition sender_main ::
    "(string \<Rightarrow> string option) \<Rightarrow> ISAL option \<Rightarrow> SenderSys \<Rightarrow> string list \<Rightarrow> SenderRun run parsed" where
  "sender_main files isal sys argv =
     (case sender_args argv of
        Usage \<Rightarrow> Usage
      | Thrown \<Rightarrow> Thrown
      | Parsed args \<Rightarrow>
          (let cfg = sender_config files args;
               message_bytes = sender_size cfg args
           in case sdr_connect (fresh_host ''sender'' (\<lambda>_. [])) True True (ss_connect sys) of
                (None, host, closed) \<Rightarrow> Parsed (Ret (no_run closed))
              | (Some conn, host, closed) \<Rightarrow>
                  (let conn = snd (sdr_set_params conn True (Some (sender_params cfg (sa_udp_port args))))
                   in Parsed (case sa_mode args of
                        SDR \<Rightarrow> send_plain sys host conn message_bytes
                      | SR \<Rightarrow> send_sr sys cfg host conn message_bytes
                      | EC \<Rightarrow> send_ec sys isal host conn message_bytes))))"

end
