(* ===== verification/Receiver_Program.thy ===== *)
theory Receiver_Program
  imports Program_Args EC_Receiver
begin

text \<open>
  The receiving example program, \<open>examples/sdr_test_receiver.cpp\<close>: it listens, posts its buffer in one of
  three modes, watches the transfer in a loop of at most a million turns and checks the bytes.  Of the
  display only what it reads and shows is kept, not how it is drawn.
\<close>

section \<open>Posting\<close>

definition receiver_sr_config :: "ConfigParser \<Rightarrow> SRConfig" where
  "receiver_sr_config cfg =
     \<lparr> cfg_rto_ms = get_uint32 cfg ''sr_rto_ms'' 0, cfg_nack_delay_ms = get_uint32 cfg ''sr_nack_delay_ms'' 0,
       cfg_max_inflight_chunks = ucast (get_uint32 cfg ''sr_max_inflight_chunks'' 0), cfg_base_rtt_ms = 100,
       cfg_alpha_ms = 100 \<rparr>"

definition receiver_ec_config :: "ConfigParser \<Rightarrow> u64 \<Rightarrow> ECConfig" where
  "receiver_ec_config cfg message_bytes =
     \<lparr> ecc_k_data = ucast (get_uint32 cfg ''ec_k_data'' 4), ecc_m_parity = ucast (get_uint32 cfg ''ec_m_parity'' 2),
       ecc_fallback_timeout_ms = get_uint32 cfg ''ec_fallback_timeout_ms'' 0, ecc_data_bytes = message_bytes,
       ecc_max_retries = get_uint32 cfg ''ec_max_retries'' 3 \<rparr>"

text \<open>The number of chunks with parity, and the length of the buffer for them; \<open>None\<close> is a division by zero.\<close>

definition ec_buffer_size :: "ConnectionParams \<Rightarrow> ECConfig \<Rightarrow> u64 \<Rightarrow> (u32 \<times> u64) option" where
  "ec_buffer_size params ec_cfg message_bytes =
     (let capped_mtu = min (cp_mtu_bytes params) (ucast MAX_PAYLOAD_SIZE);
          chunk_bytes = capped_mtu * ucast (cp_packets_per_chunk params);
          chunk_bytes = (if chunk_bytes = 0 then 1 else chunk_bytes);
          data_chunks = (ucast ((message_bytes + ucast chunk_bytes - 1) div ucast chunk_bytes) :: u32)
      in if ecc_k_data ec_cfg = 0 then None
         else
           let stripes = (data_chunks + ucast (ecc_k_data ec_cfg) - 1) div ucast (ecc_k_data ec_cfg);
               parity_chunks = stripes * ucast (ecc_m_parity ec_cfg)
           in Some (data_chunks + parity_chunks, ucast (data_chunks + parity_chunks) * ucast chunk_bytes))"

text \<open>What is there after the post: the code it returned, the connection, and the object of the mode.\<close>

record RxPosted =
  px_rc :: int
  px_host :: Host
  px_conn :: SDRConnection
  px_handle :: "SDRRecvHandle option"
  px_sr :: "SRReceiver option"
  px_ec :: "ECReceiver option"
  px_out :: "u8 list"
  px_closed :: "int list"

definition posted_of :: "RecvPost \<Rightarrow> RxPosted" where
  "posted_of RP =
     \<lparr> px_rc = rp_rc RP, px_host = rp_host RP, px_conn = rp_conn RP, px_handle = rp_handle RP, px_sr = None,
       px_ec = None, px_out = rp_out RP, px_closed = rp_closed RP \<rparr>"

text \<open>The buffer is buffer 0 of the process, a vector of zeros.\<close>

definition with_buffer :: "Host \<Rightarrow> nat \<Rightarrow> Host" where
  "with_buffer host n = host\<lparr>hs_mem := (hs_mem host)(0 := replicate n 0)\<rparr>"

definition receiver_post ::
    "Mode \<Rightarrow> ConfigParser \<Rightarrow> ConnectionParams \<Rightarrow> u64 \<Rightarrow> Host \<Rightarrow> SDRConnection \<Rightarrow> NetEvent list \<Rightarrow> RecvPostSys
      \<Rightarrow> RxPosted run" where
  "receiver_post mode cfg params message_bytes host conn evs psys =
     (case mode of
        SR \<Rightarrow>
          run_bind (sr_post_receive (SRReceiver_new (receiver_sr_config cfg))
                      (with_buffer host (unat message_bytes)) conn (UserBuf 0) message_bytes evs psys)
            (\<lambda>(RP, r). Ret ((posted_of RP)\<lparr>px_sr := Some r, px_handle := srr_recv_handle r\<rparr>))
      | EC \<Rightarrow>
          (let ec_cfg = receiver_ec_config cfg message_bytes in
           case ec_buffer_size params ec_cfg message_bytes of
             None \<Rightarrow> Crash
           | Some (chunks, total_length) \<Rightarrow>
               (let host = with_buffer host (unat total_length) in
                run_bind (ec_post_receive (ECReceiver_new ec_cfg) host conn (UserBuf 0) total_length evs psys)
                  (\<lambda>(rc, r, posted).
                     let px = (case posted of
                                 None \<Rightarrow> \<lparr> px_rc = rc, px_host = host, px_conn = conn, px_handle = None, px_sr = None,
                                           px_ec = Some r, px_out = [], px_closed = [] \<rparr>
                               | Some RP \<Rightarrow> (posted_of RP)\<lparr>px_rc := rc, px_handle := er_recv_handle r, px_ec := Some r\<rparr>);
                         conn = (case er_conn r of None \<Rightarrow> px_conn px | Some c \<Rightarrow> c)
                     in Ret (if rc \<noteq> 0 then px\<lparr>px_conn := conn\<rparr>
                             else px\<lparr>px_conn :=
                                    (case er_recv_handle r of
                                       None \<Rightarrow> conn
                                     | Some h \<Rightarrow> set_ctx h (\<lambda>mc. mc\<lparr>mc_total_chunks := ucast chunks\<rparr>) conn)\<rparr>))))
      | SDR \<Rightarrow>
          run_bind (sdr_recv_post (with_buffer host (unat message_bytes)) conn True (UserBuf 0) message_bytes True evs psys)
            (\<lambda>RP. Ret (posted_of RP)))"

section \<open>Watching the transfer\<close>

text \<open>
  What happens around one turn of the loop: what the other threads do before it and before the mode's
  own step, the clock readings, and the result of a send.
\<close>

record LoopEnv =
  le_workers :: "SDRConnection \<times> (nat \<Rightarrow> u8 list) \<Rightarrow> SDRConnection \<times> (nat \<Rightarrow> u8 list)"
  le_workers2 :: "SDRConnection \<times> (nat \<Rightarrow> u8 list) \<Rightarrow> SDRConnection \<times> (nat \<Rightarrow> u8 list)"
  le_progress_time :: int
  le_now :: int
  le_pump_first :: int
  le_pump_now :: int
  le_sent :: int
  le_pad :: padding

text \<open>
  The variables of the loop; \<open>lo_last_ctrl\<close> is the static of \<open>pump\<close>, \<open>lo_shown\<close> what the display has
  shown: chunk, packets received, whether it is complete.
\<close>

record RxLoop =
  lo_conn :: SDRConnection
  lo_mem :: "nat \<Rightarrow> u8 list"
  lo_sr :: "SRReceiver option"
  lo_ec :: "ECReceiver option"
  lo_last_ctrl :: "int option"
  lo_out :: "u8 list"
  lo_iterations :: u64
  lo_display_counter :: u64
  lo_window_index :: u64
  lo_shown :: "(u64 \<times> u32 \<times> bool) list"
  lo_chunks_received :: u64
  lo_total_chunks :: u64
  lo_last_chunks :: u64
  lo_last_progress :: int
  lo_incomplete :: bool
  lo_ec_decoded :: bool

text \<open>\<open>load_handle_ctx\<close>; the outer \<open>None\<close> is a dangling pointer.\<close>

definition load_handle_ctx :: "SDRRecvHandle option \<Rightarrow> SDRConnection \<Rightarrow> MessageContext option option" where
  "load_handle_ctx handle conn =
     (case handle of
        Some h \<Rightarrow> map_option Some (deref_ctx conn h)
      | None \<Rightarrow> Some (get_message (sc_connection_ctx conn) 0))"

definition show_chunk :: "BackendBitmap \<Rightarrow> u16 \<Rightarrow> u64 \<Rightarrow> (u64 \<times> u32 \<times> bool) list \<Rightarrow> (u64 \<times> u32 \<times> bool) list option" where
  "show_chunk b packets_per_chunk chunk_id shown =
     (case (get_chunk_packet_count b (ucast chunk_id), backend_is_chunk_complete b (ucast chunk_id)) of
        (Some packets, Some chunk_complete) \<Rightarrow>
          Some (shown @ [(chunk_id, if chunk_complete then ucast packets_per_chunk else packets, chunk_complete)])
      | _ \<Rightarrow> None)"

definition display_progress :: "SDRRecvHandle option \<Rightarrow> u64 \<Rightarrow> RxLoop \<Rightarrow> RxLoop option" where
  "display_progress handle window_size st =
     (case load_handle_ctx handle (lo_conn st) of
        None \<Rightarrow> None
      | Some None \<Rightarrow> Some st
      | Some (Some mc) \<Rightarrow>
          (case mc_backend mc of
             None \<Rightarrow> Some st
           | Some b \<Rightarrow>
               (if lo_total_chunks st = 0 \<or> mc_packets_per_chunk mc = 0 then Some st
                else if window_size = 0 then None
                else
                  let num_windows = (lo_total_chunks st + window_size - 1) div window_size;
                      start_chunk = (if num_windows > 0 then (lo_window_index st mod num_windows) * window_size else 0);
                      end_chunk = min (start_chunk + window_size) (lo_total_chunks st)
                  in case for_while start_chunk end_chunk (\<lambda>_. True) (show_chunk b (mc_packets_per_chunk mc)) [] of
                       None \<Rightarrow> None
                     | Some shown \<Rightarrow>
                         Some (st\<lparr>lo_shown := lo_shown st @ shown, lo_window_index := lo_window_index st + 1\<rparr>))))"

text \<open>The first half of a turn; \<open>Inl\<close> leaves the loop.\<close>

definition note_progress :: "SDRRecvHandle option \<Rightarrow> u64 \<Rightarrow> LoopEnv \<Rightarrow> RxLoop \<Rightarrow> RxLoop option" where
  "note_progress handle window_size env st =
     (if lo_chunks_received st > lo_last_chunks st
      then display_progress handle window_size
             (st\<lparr>lo_last_chunks := lo_chunks_received st, lo_last_progress := le_progress_time env\<rparr>)
      else if lo_display_counter st \<ge> 50
      then map_option (\<lambda>st. st\<lparr>lo_display_counter := 0\<rparr>) (display_progress handle window_size st)
      else Some st)"

definition count_chunks :: "MessageContext \<Rightarrow> RxLoop \<Rightarrow> RxLoop option" where
  "count_chunks mc st =
     (case mc_frontend mc of
        None \<Rightarrow> Some st
      | Some f \<Rightarrow>
          map_option (\<lambda>n. st\<lparr>lo_chunks_received := ucast n, lo_total_chunks := mc_total_chunks mc\<rparr>)
            (get_total_chunks_completed f))"

definition rx_observe ::
    "SDRRecvHandle option \<Rightarrow> u64 \<Rightarrow> int \<Rightarrow> LoopEnv \<Rightarrow> RxLoop \<Rightarrow> (RxLoop + RxLoop) run" where
  "rx_observe handle window_size timeout_seconds env st =
     run_bind (case handle of None \<Rightarrow> Ret True
               | Some h \<Rightarrow> run_bind (sdr_recv_bitmap_get (lo_conn st) (Some h) True True) (\<lambda>(rc, _, _). Ret (rc = 0)))
       (\<lambda>got.
          if \<not> got then Ret (Inl st)
          else case load_handle_ctx handle (lo_conn st) of
              None \<Rightarrow> Crash
            | Some None \<Rightarrow> Ret (Inr st)
            | Some (Some mc) \<Rightarrow>
                (case Option.bind (count_chunks mc st) (note_progress handle window_size env) of
                   None \<Rightarrow> Crash
                 | Some st \<Rightarrow>
                     (if lo_chunks_received st > 0 \<and> (le_now env - lo_last_progress st) sdiv 1000000000 \<ge> timeout_seconds
                         \<and> lo_chunks_received st < lo_total_chunks st
                      then Ret (Inl (st\<lparr>lo_incomplete := True\<rparr>))
                      else Ret (Inr st))))"

definition all_received :: "RxLoop \<Rightarrow> bool" where
  "all_received st \<longleftrightarrow> lo_total_chunks st > 0 \<and> lo_chunks_received st \<ge> lo_total_chunks st"

definition leave_loop :: "SDRRecvHandle option \<Rightarrow> u64 \<Rightarrow> RxLoop \<Rightarrow> (RxLoop + RxLoop) run" where
  "leave_loop handle window_size st =
     (case display_progress handle window_size st of None \<Rightarrow> Crash | Some st \<Rightarrow> Ret (Inl st))"

text \<open>The second half.  The objects of the layers hold a pointer to the connection, whose state is in \<open>lo_conn\<close>.\<close>

definition rx_attempt ::
    "ISAL option \<Rightarrow> SDRRecvHandle option \<Rightarrow> u64 \<Rightarrow> LoopEnv \<Rightarrow> RxLoop \<Rightarrow> (RxLoop + RxLoop) run" where
  "rx_attempt isal handle window_size env st =
     (case lo_sr st of
        Some r \<Rightarrow>
          run_bind (pump (r\<lparr>srr_conn := Some (lo_conn st)\<rparr>) (lo_last_ctrl st) (le_pump_first env) (le_pump_now env)
                      (le_sent env) (le_pad env))
            (\<lambda>p. let st = st\<lparr>lo_sr := Some (pu_receiver p), lo_last_ctrl := pu_last_ctrl p, lo_out := lo_out st @ pu_out p\<rparr>
                 in if pu_complete p \<and> all_received st then leave_loop handle window_size st else Ret (Inr st))
      | None \<Rightarrow>
          (case lo_ec st of
             Some r \<Rightarrow>
               run_bind (try_decode isal (r\<lparr>er_conn := Some (lo_conn st)\<rparr>) (lo_mem st) (le_pad env) (le_sent env))
                 (\<lambda>e. let st = st\<lparr>lo_ec := Some (ed_receiver e), lo_mem := ed_mem e, lo_out := lo_out st @ ed_out e,
                                  lo_conn := (case er_conn (ed_receiver e) of None \<Rightarrow> lo_conn st | Some c \<Rightarrow> c)\<rparr>
                      in if ed_complete e
                         then (case display_progress handle window_size (st\<lparr>lo_chunks_received := lo_total_chunks st\<rparr>) of
                                 None \<Rightarrow> Crash
                               | Some st \<Rightarrow> Ret (Inl (st\<lparr>lo_ec_decoded := True\<rparr>)))
                         else Ret (Inr st))
           | None \<Rightarrow> (if all_received st then leave_loop handle window_size st else Ret (Inr st))))"

text \<open>The other threads run.\<close>

definition others ::
    "(SDRConnection \<times> (nat \<Rightarrow> u8 list) \<Rightarrow> SDRConnection \<times> (nat \<Rightarrow> u8 list)) \<Rightarrow> RxLoop \<Rightarrow> RxLoop" where
  "others f st = (let (conn, mem) = f (lo_conn st, lo_mem st) in st\<lparr>lo_conn := conn, lo_mem := mem\<rparr>)"

definition rx_turn ::
    "ISAL option \<Rightarrow> SDRRecvHandle option \<Rightarrow> u64 \<Rightarrow> int \<Rightarrow> LoopEnv \<Rightarrow> RxLoop \<Rightarrow> (RxLoop + RxLoop) run" where
  "rx_turn isal handle window_size timeout_seconds env st =
     run_bind (rx_observe handle window_size timeout_seconds env
                 (others (le_workers env)
                   (st\<lparr>lo_iterations := lo_iterations st + 1, lo_display_counter := lo_display_counter st + 1\<rparr>)))
       (\<lambda>r. case r of
              Inl st \<Rightarrow> Ret (Inl st)
            | Inr st \<Rightarrow> rx_attempt isal handle window_size env (others (le_workers2 env) st))"

text \<open>The loop, with the turns that are left; it is called with \<open>MAX_ITERATIONS\<close>.\<close>

definition MAX_ITERATIONS :: nat where
  "MAX_ITERATIONS = 1000000"

primrec rx_loop ::
    "ISAL option \<Rightarrow> SDRRecvHandle option \<Rightarrow> u64 \<Rightarrow> int \<Rightarrow> (nat \<Rightarrow> LoopEnv) \<Rightarrow> nat \<Rightarrow> RxLoop \<Rightarrow> RxLoop run" where
  "rx_loop isal handle window_size timeout_seconds env 0 st = Ret st"
| "rx_loop isal handle window_size timeout_seconds env (Suc n) st =
     run_bind (rx_turn isal handle window_size timeout_seconds (env (unat (lo_iterations st))) st)
       (\<lambda>r. case r of
              Inl st \<Rightarrow> Ret st
            | Inr st \<Rightarrow> rx_loop isal handle window_size timeout_seconds env n st)"

section \<open>The program\<close>

text \<open>
  The code after the loop: the check of the bytes and the end of the transfer.  The other threads also
  run between the loop and the check (\<open>vs_workers\<close>) and between the check and \<open>sdr_recv_complete\<close>
  (\<open>vs_workers2\<close>).
\<close>

record ReceiverSys =
  vs_listen :: ListenSys
  vs_accept :: int
  vs_post :: RecvPostSys
  vs_events :: "NetEvent list"
  vs_first_progress :: int
  vs_env :: "nat \<Rightarrow> LoopEnv"
  vs_workers :: "SDRConnection \<times> (nat \<Rightarrow> u8 list) \<Rightarrow> SDRConnection \<times> (nat \<Rightarrow> u8 list)"
  vs_workers2 :: "SDRConnection \<times> (nat \<Rightarrow> u8 list) \<Rightarrow> SDRConnection \<times> (nat \<Rightarrow> u8 list)"
  vs_sent :: int
  vs_pad :: padding
  vs_locals :: ControlMessage

text \<open>The exit status and what the program reports at its end; \<open>ro_verified\<close> is \<open>None\<close> if the bytes are not checked.\<close>

record ReceiverRun =
  ro_exit :: int
  ro_received :: u64
  ro_total :: u64
  ro_incomplete :: bool
  ro_verified :: "(bool \<times> u64) option"
  ro_mem :: "nat \<Rightarrow> u8 list"
  ro_out :: "u8 list"
  ro_closed :: "int list"

definition failed_run :: "int list \<Rightarrow> u8 list \<Rightarrow> Host \<Rightarrow> ReceiverRun" where
  "failed_run closed out host =
     \<lparr> ro_exit = 1, ro_received = 0, ro_total = 0, ro_incomplete = False, ro_verified = None, ro_mem = hs_mem host,
       ro_out = out, ro_closed = closed \<rparr>"

text \<open>After a successful decoding the poller is stopped and the message completed before \<open>sdr_recv_complete\<close>.\<close>

definition close_decoded :: "Mode \<Rightarrow> SDRRecvHandle \<Rightarrow> RxLoop \<Rightarrow> SDRConnection" where
  "close_decoded mode h st =
     (if mode = EC \<and> lo_ec st \<noteq> None \<and> lo_ec_decoded st
      then set_ctx h (\<lambda>mc. mc\<lparr>mc_frontend := map_option stop_polling (mc_frontend mc), mc_state := COMPLETED\<rparr>) (lo_conn st)
      else lo_conn st)"

definition receiver_end ::
    "ReceiverSys \<Rightarrow> Mode \<Rightarrow> SDRRecvHandle option \<Rightarrow> u64 \<Rightarrow> RxLoop \<Rightarrow> ReceiverRun run" where
  "receiver_end sys mode handle message_bytes st =
     (let st = others (vs_workers sys) st;
          st_end = others (vs_workers2 sys) st;
          result = \<lparr> ro_exit = 0, ro_received = lo_chunks_received st, ro_total = lo_total_chunks st,
                     ro_incomplete = (lo_incomplete st \<or> unat (lo_iterations st) \<ge> MAX_ITERATIONS),
                     ro_verified = None, ro_mem = lo_mem st_end, ro_out = lo_out st, ro_closed = [] \<rparr>
      in run_bind
           (if all_received st
            then (case verify_data (lo_mem st 0) message_bytes of
                    None \<Rightarrow> Crash
                  | Some v \<Rightarrow> Ret (result\<lparr>ro_verified := Some v\<rparr>))
            else Ret result)
           (\<lambda>result.
              case handle of
                None \<Rightarrow> Ret (result\<lparr>ro_closed := sdr_disconnect (Some (lo_conn st_end))\<rparr>)
              | Some h \<Rightarrow>
                  run_bind (sdr_recv_complete (close_decoded mode h st_end) (Some h) (vs_sent sys) (vs_pad sys) (vs_locals sys))
                    (\<lambda>RC. Ret (result\<lparr>ro_out := ro_out result @ rc_out RC,
                                      ro_closed := sdr_disconnect (Some (rc_conn RC))\<rparr>))))"

text \<open>The loop is entered with all counters at zero.\<close>

definition loop_start :: "ReceiverSys \<Rightarrow> RxPosted \<Rightarrow> u64 \<Rightarrow> RxLoop" where
  "loop_start sys px total_chunks =
     \<lparr> lo_conn = px_conn px, lo_mem = hs_mem (px_host px), lo_sr = px_sr px, lo_ec = px_ec px, lo_last_ctrl = None,
       lo_out = px_out px, lo_iterations = 0, lo_display_counter = 0, lo_window_index = 0, lo_shown = [],
       lo_chunks_received = 0, lo_total_chunks = total_chunks, lo_last_chunks = 0,
       lo_last_progress = vs_first_progress sys, lo_incomplete = False, lo_ec_decoded = False \<rparr>"

definition receiver_transfer ::
    "ReceiverSys \<Rightarrow> ISAL option \<Rightarrow> ConfigParser \<Rightarrow> Mode \<Rightarrow> u64 \<Rightarrow> RxPosted \<Rightarrow> ReceiverRun run" where
  "receiver_transfer sys isal cfg mode message_bytes px =
     (case load_handle_ctx (px_handle px) (px_conn px) of
        None \<Rightarrow> Crash
      | Some ctx \<Rightarrow>
          (let total_chunks = (case ctx of None \<Rightarrow> 0 | Some mc \<Rightarrow> mc_total_chunks mc) in
           if total_chunks = 0
           then (if mode = SDR
                 then run_bind (sdr_recv_complete (px_conn px) (px_handle px) (vs_sent sys) (vs_pad sys) (vs_locals sys))
                        (\<lambda>RC. Ret (failed_run (sdr_disconnect (Some (rc_conn RC))) (px_out px @ rc_out RC) (px_host px)))
                 else Ret (failed_run (sdr_disconnect (Some (px_conn px))) (px_out px) (px_host px)))
           else
             run_bind (rx_loop isal (px_handle px) (ucast (get_uint32 cfg ''window_size'' 15))
                         (if mode = EC then 120 else 30) (vs_env sys) MAX_ITERATIONS (loop_start sys px total_chunks))
               (receiver_end sys mode (px_handle px) message_bytes)))"

definition receiver_main ::
    "(string \<Rightarrow> string option) \<Rightarrow> ISAL option \<Rightarrow> ReceiverSys \<Rightarrow> string list \<Rightarrow> ReceiverRun run parsed" where
  "receiver_main files isal sys argv =
     (case receiver_args argv of
        Usage \<Rightarrow> Usage
      | Thrown \<Rightarrow> Thrown
      | Parsed args \<Rightarrow>
          (let cfg = snd (load_from_file ConfigParser_new (files (ra_config_file args)));
               host = fresh_host ''receiver'' (\<lambda>_. [])
           in Parsed (case sdr_listen host True (ra_tcp_port args) (vs_listen sys) of
                (None, host, closed) \<Rightarrow> Ret (failed_run closed [] host)
              | (Some conn, host, closed) \<Rightarrow>
                  (case sc_tcp_server conn of
                     None \<Rightarrow> Crash
                   | Some srv \<Rightarrow>
                       (let (accepted, srv, closed') = accept_connection srv (vs_accept sys);
                            conn = conn\<lparr>sc_tcp_server := Some srv\<rparr>;
                            closed = closed @ closed'
                        in if \<not> accepted then Ret (failed_run (closed @ sdr_disconnect (Some conn)) [] host)
                           else
                             let params = receiver_params cfg (ra_udp_port args);
                                 (rc, conn) = sdr_set_params conn True (Some params)
                             in if rc \<noteq> 0 then Ret (failed_run (closed @ sdr_disconnect (Some conn)) [] host)
                                else run_bind (receiver_post (ra_mode args) cfg params (ra_message_size args) host conn
                                                 (vs_events sys) (vs_post sys))
                                       (\<lambda>px. if px_rc px \<noteq> 0
                                             then Ret (failed_run (closed @ px_closed px @ sdr_disconnect (Some (px_conn px)))
                                                         (px_out px) (px_host px))
                                             else receiver_transfer sys isal cfg (ra_mode args) (ra_message_size args) px))))))"

end
