(* ===== verification/Receiver_Watch.thy ===== *)
theory Receiver_Watch
  imports Receiver_Program
begin

text \<open>
  The loop of the receiving program next to its other threads: as long as these only deliver packets of
  the message and mark complete chunks, the loop does not fault, and when it counts the transfer as
  complete the buffer holds the sender's bytes.  Then the moves of the other threads (\<open>Move\<close>): any sequence
  of them is such a behaviour.
\<close>

section \<open>A message being watched\<close>

text \<open>The bitmaps of a message of \<open>tc\<close> chunks: they fit together, and only received chunks are marked.\<close>

definition bitmaps_agree :: "MessageContext \<Rightarrow> u32 \<Rightarrow> BackendBitmap \<Rightarrow> FrontendBitmap \<Rightarrow> bool" where
  "bitmaps_agree mc tc b f \<longleftrightarrow> mc_backend mc = Some b \<and> mc_frontend mc = Some f \<and> bb_wf b \<and> fb_wf f
     \<and> chunks_cover b f \<and> fb_total_chunks f = tc \<and> mc_total_chunks mc = ucast tc
     \<and> mc_packets_per_chunk mc \<noteq> 0 \<and> (\<forall>c \<in> marked f. chunk_done b c)"

definition seen_by :: "SDRConnection \<times> (nat \<Rightarrow> u8 list) \<Rightarrow> RecvState" where
  "seen_by s = \<lparr>rs_conn = sc_connection_ctx (fst s), rs_mem = snd s\<rparr>"

definition marks_of :: "SDRRecvHandle \<Rightarrow> SDRConnection \<times> (nat \<Rightarrow> u8 list) \<Rightarrow> nat set" where
  "marks_of h s =
     (case deref_ctx (fst s) h of
        None \<Rightarrow> {}
      | Some mc \<Rightarrow> (case mc_frontend mc of None \<Rightarrow> {} | Some f \<Rightarrow> marked f))"

definition watching :: "SDRRecvHandle \<Rightarrow> Target \<Rightarrow> u32 \<Rightarrow> SDRConnection \<times> (nat \<Rightarrow> u8 list) \<Rightarrow> bool" where
  "watching h T tc s \<longleftrightarrow> rx_inv T (seen_by s) \<and> fst (rh_msg_ctx h) = slot_of T
     \<and> (\<exists>mc b f. deref_ctx (fst s) h = Some mc \<and> bitmaps_agree mc tc b f)"

text \<open>What the other threads may do: they keep the message and its connection, and sets only grow.\<close>

definition advances ::
    "SDRRecvHandle \<Rightarrow> Target \<Rightarrow> u32 \<Rightarrow> (SDRConnection \<times> (nat \<Rightarrow> u8 list) \<Rightarrow> SDRConnection \<times> (nat \<Rightarrow> u8 list)) \<Rightarrow> bool" where
  "advances h T tc g \<longleftrightarrow> (\<forall>s. watching h T tc s \<longrightarrow> watching h T tc (g s)
     \<and> rx_received T (seen_by s) \<subseteq> rx_received T (seen_by (g s)) \<and> marks_of h s \<subseteq> marks_of h (g s)
     \<and> sc_tcp_server (fst (g s)) = sc_tcp_server (fst s) \<and> sc_is_receiver (fst (g s)) = sc_is_receiver (fst s)
     \<and> cc_connection_id (sc_connection_ctx (fst (g s))) = cc_connection_id (sc_connection_ctx (fst s)))"

text \<open>The loop's count says that every chunk is marked.\<close>

definition full_marks :: "SDRRecvHandle \<Rightarrow> u32 \<Rightarrow> SDRConnection \<times> (nat \<Rightarrow> u8 list) \<Rightarrow> bool" where
  "full_marks h tc s \<longleftrightarrow> {..<unat tc} \<subseteq> marks_of h s"

lemma watchingE:
  assumes "watching h T tc s"
  obtains mc b f where "deref_ctx (fst s) h = Some mc" "bitmaps_agree mc tc b f"
    "rx_received T (seen_by s) = received b" "marks_of h s = marked f"
    "\<forall>p. p < unat (bb_total_packets b) \<longleftrightarrow> p * t_mtu T < length (t_data T)"
    "snd s (t_buffer T) = overlay T (received b)"
proof -
  obtain mc b f where m: "deref_ctx (fst s) h = Some mc" "bitmaps_agree mc tc b f"
    using assms by (auto simp: watching_def)
  have rx: "rx_inv T (seen_by s)" and h: "fst (rh_msg_ctx h) = slot_of T" using assms by (simp_all add: watching_def)
  have b: "mc_backend mc = Some b" and f: "mc_frontend mc = Some f" using m(2) by (simp_all add: bitmaps_agree_def)
  have "cc_msg_table (rs_conn (seen_by s)) ! unat (t_slot T) = Some mc"
    using deref_slot [OF m(1)] h by (simp add: seen_by_def)
  with rx b have "rx_received T (seen_by s) = received b"
    "\<forall>p. p < unat (bb_total_packets b) \<longleftrightarrow> p * t_mtu T < length (t_data T)"
    "rs_mem (seen_by s) (t_buffer T) = overlay T (received b)"
    unfolding rx_inv_def rx_received_def by auto
  moreover have "marks_of h s = marked f" by (simp add: marks_of_def m(1) f)
  ultimately show ?thesis using that [OF m] by (simp add: seen_by_def)
qed

lemma full_marks_data:
  assumes "watching h T tc s" and "full_marks h tc s"
  shows "snd s (t_buffer T) = t_data T"
proof (rule watchingE [OF assms(1)])
  fix mc b f
  assume a: "bitmaps_agree mc tc b f" and m: "marks_of h s = marked f"
    and range: "\<forall>p. p < unat (bb_total_packets b) \<longleftrightarrow> p * t_mtu T < length (t_data T)"
    and buf: "snd s (t_buffer T) = overlay T (received b)"
  have f: "bb_wf b" "chunks_cover b f" "fb_total_chunks f = tc" "\<forall>c \<in> marked f. chunk_done b c"
    using a by (simp_all add: bitmaps_agree_def)
  have "\<forall>c < unat (fb_total_chunks f). chunk_done b c" using assms(2) f(3,4) m by (auto simp: full_marks_def)
  then have "received b = {..<unat (bb_total_packets b)}" using all_chunks_done_iff [OF f(2,1)] by blast
  then show ?thesis unfolding buf using range by (intro overlay_all) simp
qed

text \<open>The number of marks, as the loop reads it.\<close>

lemma count_full:
  assumes "bitmaps_agree mc tc b f"
  shows "get_total_chunks_completed f = Some (of_nat (card (marked f)))"
    and "(ucast (of_nat (card (marked f)) :: u32) :: u64) \<ge> ucast tc \<longleftrightarrow> {..<unat tc} \<subseteq> marked f"
proof -
  have f: "fb_wf f" "fb_total_chunks f = tc" using assms by (simp_all add: bitmaps_agree_def)
  note count = count_marked_eq [OF f(1), unfolded f(2)]
  show "get_total_chunks_completed f = Some (of_nat (card (marked f)))" by (rule count(1))
  have sub: "marked f \<subseteq> {..<unat tc}" using f by (simp add: fb_wf_def)
  have "unat (of_nat (card (marked f)) :: u32) = card (marked f)"
    by (rule unat_of_nat_small) (use count(2) unat_width(5) [of tc] in simp)
  then have "(ucast (of_nat (card (marked f)) :: u32) :: u64) \<ge> ucast tc \<longleftrightarrow> unat tc \<le> card (marked f)"
    by (simp add: word_le_nat_alt unat_ucast_up)
  also have "\<dots> \<longleftrightarrow> {..<unat tc} \<subseteq> marked f"
  proof
    assume "unat tc \<le> card (marked f)"
    then have "marked f = {..<unat tc}" using sub by (intro card_seteq) simp_all
    then show "{..<unat tc} \<subseteq> marked f" by simp
  next
    assume "{..<unat tc} \<subseteq> marked f"
    then have "marked f = {..<unat tc}" using sub by blast
    then show "unat tc \<le> card (marked f)" by simp
  qed
  finally show "(ucast (of_nat (card (marked f)) :: u32) :: u64) \<ge> ucast tc \<longleftrightarrow> {..<unat tc} \<subseteq> marked f" .
qed

section \<open>The display\<close>

lemma show_chunk_ok:
  assumes "bitmaps_agree mc tc b f" and "unat c < unat tc"
  shows "\<exists>shown'. show_chunk b ppc c shown = Some shown'"
proof -
  have b: "bb_wf b" "chunks_cover b f" "fb_total_chunks f = tc" using assms(1) by (simp_all add: bitmaps_agree_def)
  have c: "unat (ucast c :: u32) = unat c" using assms(2) unat_width(5) [of tc] by (simp add: unat_ucast_mod)
  have fit: "bb_room b" "unat (ucast c :: u32) * unat (bb_packets_per_chunk b) < unat (bb_total_packets b)"
    using chunks_cover_fit [OF b(2)] assms(2) b(3) c by (simp_all add: chunks_fit_def)
  show ?thesis
    unfolding show_chunk_def backend_is_chunk_complete_eq [OF b(1) fit] get_chunk_packet_count_def
    by (simp add: count_received_eq [OF b(1)] split: prod.split)
qed

lemma display_ok:
  assumes mc: "deref_ctx (lo_conn st) h = Some mc" "bitmaps_agree mc tc b f"
    and total: "lo_total_chunks st = ucast tc" and ws: "window_size \<noteq> 0"
  shows "\<exists>sh w. display_progress (Some h) window_size st = Some (st\<lparr>lo_shown := sh, lo_window_index := w\<rparr>)"
proof -
  have mb: "mc_backend mc = Some b" using mc(2) by (simp add: bitmaps_agree_def)
  have same: "\<exists>sh w. Some st = Some (st\<lparr>lo_shown := sh, lo_window_index := w\<rparr>)"
    by (intro exI [of _ "lo_shown st"] exI [of _ "lo_window_index st"]) simp
  show ?thesis
  proof (cases "lo_total_chunks st = 0 \<or> mc_packets_per_chunk mc = 0")
    case True
    then show ?thesis using same by (simp add: display_progress_def load_handle_ctx_def mc(1) mb)
  next
    case False
    have rows: "\<exists>shown. for_while s (min e (lo_total_chunks st)) (\<lambda>_. True) (show_chunk b (mc_packets_per_chunk mc)) [] = Some shown"
      for s e
    proof (cases "s \<le> min e (lo_total_chunks st)")
      case True
      have "\<exists>shown j. for_while s (min e (lo_total_chunks st)) (\<lambda>_. True) (show_chunk b (mc_packets_per_chunk mc)) [] = Some shown
          \<and> unat s \<le> j \<and> j \<le> unat (min e (lo_total_chunks st)) \<and> True \<and> (j = unat (min e (lo_total_chunks st)) \<or> \<not> True)"
      proof (rule for_while_total [OF _ True])
        fix k and shown :: "(u64 \<times> u32 \<times> bool) list" assume k: "k < unat (min e (lo_total_chunks st))"
        have "unat (min e (lo_total_chunks st)) \<le> unat tc"
          by (simp add: total min_def word_le_nat_alt unat_ucast_up)
        moreover have "unat (of_nat k :: u64) = k" using k by (rule unat_of_nat_below)
        ultimately have "unat (of_nat k :: u64) < unat tc" using k by linarith
        from show_chunk_ok [OF mc(2) this]
        show "\<exists>shown'. show_chunk b (mc_packets_per_chunk mc) (of_nat k) shown = Some shown' \<and> True" by simp
      qed simp
      then show ?thesis by blast
    next
      case False
      then have "\<not> s < min e (lo_total_chunks st)" by (meson order.strict_implies_order)
      then show ?thesis by (intro exI [of _ "[]"]) (rule for_while_done)
    qed
    let ?num = "(lo_total_chunks st + window_size - 1) div window_size"
    let ?start = "if ?num > 0 then (lo_window_index st mod ?num) * window_size else 0"
    obtain shown where r: "for_while ?start (min (?start + window_size) (lo_total_chunks st)) (\<lambda>_. True)
        (show_chunk b (mc_packets_per_chunk mc)) [] = Some shown" using rows by blast
    show ?thesis
      unfolding display_progress_def load_handle_ctx_def option.case mc(1) option.map mb if_not_P [OF False]
        if_not_P [OF ws] Let_def r
      by (intro exI [of _ "lo_shown st @ shown"] exI [of _ "lo_window_index st + 1"]) simp
  qed
qed

section \<open>One turn\<close>

text \<open>The loop gives up in a turn only if the time since some progress it noted is too long.\<close>

definition late :: "int \<Rightarrow> int \<Rightarrow> int \<Rightarrow> bool" where
  "late timeout_seconds now t \<longleftrightarrow> (now - t) sdiv 1000000000 \<ge> timeout_seconds"

definition gives_up :: "int \<Rightarrow> (nat \<Rightarrow> LoopEnv) \<Rightarrow> int set \<Rightarrow> bool" where
  "gives_up timeout_seconds env noted \<longleftrightarrow> (\<exists>i. \<exists>t \<in> noted. late timeout_seconds (le_now (env i)) t)"

text \<open>What a turn leaves alone in the plain mode, and what it knows when it ends the loop.\<close>

definition plain_loop :: "SDRRecvHandle \<Rightarrow> Target \<Rightarrow> u32 \<Rightarrow> RxLoop \<Rightarrow> bool" where
  "plain_loop h T tc st \<longleftrightarrow> lo_sr st = None \<and> lo_ec st = None \<and> lo_total_chunks st = ucast tc
     \<and> watching h T tc (lo_conn st, lo_mem st) \<and> \<not> lo_ec_decoded st
     \<and> (all_received st \<longrightarrow> full_marks h tc (lo_conn st, lo_mem st))"

definition same_peer :: "SDRConnection \<Rightarrow> SDRConnection \<Rightarrow> bool" where
  "same_peer c c' \<longleftrightarrow> sc_tcp_server c' = sc_tcp_server c \<and> sc_is_receiver c' = sc_is_receiver c
     \<and> cc_connection_id (sc_connection_ctx c') = cc_connection_id (sc_connection_ctx c)"

lemma same_peer_refl [simp]: "same_peer c c" by (simp add: same_peer_def)

lemma same_peer_trans: "same_peer a b \<Longrightarrow> same_peer b c \<Longrightarrow> same_peer a c" by (simp add: same_peer_def)

lemma others_ok:
  assumes "advances h T tc g" and "plain_loop h T tc st"
  shows "plain_loop h T tc (others g st)" and "same_peer (lo_conn st) (lo_conn (others g st))"
    and "others g st = st\<lparr>lo_conn := lo_conn (others g st), lo_mem := lo_mem (others g st)\<rparr>"
    and "marks_of h (lo_conn st, lo_mem st) \<subseteq> marks_of h (lo_conn (others g st), lo_mem (others g st))"
proof -
  obtain c m where g: "g (lo_conn st, lo_mem st) = (c, m)" by (cases "g (lo_conn st, lo_mem st)")
  then have o: "others g st = st\<lparr>lo_conn := c, lo_mem := m\<rparr>" by (simp add: others_def)
  have a: "watching h T tc (c, m)" "marks_of h (lo_conn st, lo_mem st) \<subseteq> marks_of h (c, m)" "same_peer (lo_conn st) c"
    using assms(1) [unfolded advances_def, THEN spec, of "(lo_conn st, lo_mem st)"] assms(2)
    by (simp_all add: g plain_loop_def same_peer_def)
  have all: "all_received (st\<lparr>lo_conn := c, lo_mem := m\<rparr>) = all_received st" by (simp add: all_received_def)
  show "plain_loop h T tc (others g st)"
    using assms(2) a(1,2) unfolding o by (auto simp: plain_loop_def all full_marks_def)
  show "same_peer (lo_conn st) (lo_conn (others g st))" using a(3) by (simp add: o)
  show "others g st = st\<lparr>lo_conn := lo_conn (others g st), lo_mem := lo_mem (others g st)\<rparr>" by (simp add: o)
  show "marks_of h (lo_conn st, lo_mem st) \<subseteq> marks_of h (lo_conn (others g st), lo_mem (others g st))"
    using a(2) by (simp add: o)
qed

text \<open>The first half reads the number of marks, and only changes the variables of the loop.\<close>

lemma observe_ok:
  assumes L: "plain_loop h T tc st" and ws: "window_size \<noteq> 0"
  shows "\<exists>st'. (rx_observe (Some h) window_size to env st = Ret (Inr st')
          \<and> lo_incomplete st' = lo_incomplete st
        \<or> rx_observe (Some h) window_size to env st = Ret (Inl st') \<and> \<not> all_received st' \<and> lo_incomplete st')
    \<and> plain_loop h T tc st' \<and> lo_conn st' = lo_conn st \<and> lo_mem st' = lo_mem st
    \<and> lo_iterations st' = lo_iterations st \<and> lo_out st' = lo_out st
    \<and> (full_marks h tc (lo_conn st, lo_mem st) \<longrightarrow>
        rx_observe (Some h) window_size to env st = Ret (Inr st') \<and> (0 < unat tc \<longrightarrow> all_received st'))
    \<and> lo_last_progress st' \<in> {lo_last_progress st, le_progress_time env}
    \<and> (rx_observe (Some h) window_size to env st = Ret (Inr st') \<or> late to (le_now env) (lo_last_progress st'))"
proof -
  let ?s = "(lo_conn st, lo_mem st)"
  have w: "watching h T tc ?s" "lo_sr st = None" "lo_ec st = None" "\<not> lo_ec_decoded st"
    using L by (simp_all add: plain_loop_def)
  obtain mc b f where m: "deref_ctx (lo_conn st) h = Some mc" "bitmaps_agree mc tc b f" "marks_of h ?s = marked f"
    using watchingE [OF w(1)] by (metis fst_conv)
  have f: "mc_frontend mc = Some f" "mc_total_chunks mc = ucast tc" using m(2) by (simp_all add: bitmaps_agree_def)
  note count = count_full [OF m(2)]
  define st1 where "st1 = st\<lparr>lo_chunks_received := ucast (of_nat (card (marked f)) :: u32), lo_total_chunks := ucast tc\<rparr>"
  have st1: "count_chunks mc st = Some st1" using f count(1) by (simp add: count_chunks_def st1_def)
  have conn1: "deref_ctx (lo_conn st1) h = Some mc" by (simp add: st1_def m(1))
  have "\<exists>sh w c lc lp. note_progress (Some h) window_size env st1 = Some (st1\<lparr>lo_shown := sh, lo_window_index := w,
      lo_display_counter := c, lo_last_chunks := lc, lo_last_progress := lp\<rparr>)
      \<and> lp \<in> {lo_last_progress st, le_progress_time env}"
  proof -
    let ?n = "st1\<lparr>lo_last_chunks := lo_chunks_received st1, lo_last_progress := le_progress_time env\<rparr>"
    have n: "deref_ctx (lo_conn ?n) h = Some mc" "lo_total_chunks ?n = ucast tc" "lo_total_chunks st1 = ucast tc"
      "lo_last_progress st1 = lo_last_progress st"
      using conn1 by (simp_all add: st1_def)
    obtain sh w where d: "display_progress (Some h) window_size ?n = Some (?n\<lparr>lo_shown := sh, lo_window_index := w\<rparr>)"
      using display_ok [OF n(1) m(2) n(2) ws] by blast
    obtain sh' w' where d': "display_progress (Some h) window_size st1 = Some (st1\<lparr>lo_shown := sh', lo_window_index := w'\<rparr>)"
      using display_ok [OF conn1 m(2) n(3) ws] by blast
    show ?thesis
    proof (cases "lo_chunks_received st1 > lo_last_chunks st1")
      case True
      then show ?thesis
        by (intro exI [of _ sh] exI [of _ w] exI [of _ "lo_display_counter st1"] exI [of _ "lo_chunks_received st1"]
            exI [of _ "le_progress_time env"]) (simp add: note_progress_def d)
    next
      case False
      then show ?thesis
      proof (cases "lo_display_counter st1 \<ge> 50")
        case True
        then show ?thesis using False
          by (intro exI [of _ sh'] exI [of _ w'] exI [of _ 0] exI [of _ "lo_last_chunks st1"]
              exI [of _ "lo_last_progress st1"]) (simp add: note_progress_def d' n(4))
      next
        case few: False
        then show ?thesis using False
          by (intro exI [of _ "lo_shown st1"] exI [of _ "lo_window_index st1"] exI [of _ "lo_display_counter st1"]
              exI [of _ "lo_last_chunks st1"] exI [of _ "lo_last_progress st1"]) (simp add: note_progress_def n(4))
      qed
    qed
  qed
  then obtain sh w c lc lp where np: "note_progress (Some h) window_size env st1 = Some (st1\<lparr>lo_shown := sh,
      lo_window_index := w, lo_display_counter := c, lo_last_chunks := lc, lo_last_progress := lp\<rparr>)"
    and lp: "lp \<in> {lo_last_progress st, le_progress_time env}" by (elim exE conjE) (rule that)
  define st2 where "st2 = st1\<lparr>lo_shown := sh, lo_window_index := w, lo_display_counter := c, lo_last_chunks := lc,
    lo_last_progress := lp\<rparr>"
  have bind: "Option.bind (count_chunks mc st) (note_progress (Some h) window_size env) = Some st2"
    by (simp add: st1 np st2_def)
  have "sdr_recv_bitmap_get (lo_conn st) (Some h) True True = Ret (0, chunk_bitmap f, ucast (fb_num_words f) * 8)"
    by (simp add: sdr_recv_bitmap_get_def m(1) f(1))
  then have obs: "rx_observe (Some h) window_size to env st =
    (if lo_chunks_received st2 > 0 \<and> (le_now env - lo_last_progress st2) sdiv 1000000000 \<ge> to
        \<and> lo_chunks_received st2 < lo_total_chunks st2
     then Ret (Inl (st2\<lparr>lo_incomplete := True\<rparr>)) else Ret (Inr st2))"
    by (simp add: rx_observe_def load_handle_ctx_def m(1) bind)
  have vars: "lo_chunks_received st2 = ucast (of_nat (card (marked f)) :: u32)" "lo_total_chunks st2 = ucast tc"
    "lo_conn st2 = lo_conn st" "lo_mem st2 = lo_mem st" "lo_iterations st2 = lo_iterations st" "lo_out st2 = lo_out st"
    "lo_sr st2 = None" "lo_ec st2 = None" "\<not> lo_ec_decoded st2" "lo_incomplete st2 = lo_incomplete st"
    "lo_last_progress st2 = lp"
    using w by (simp_all add: st2_def st1_def)
  have full: "full_marks h tc ?s \<longleftrightarrow> lo_chunks_received st2 \<ge> lo_total_chunks st2"
    unfolding full_marks_def m(3) vars count(2) ..
  have P: "plain_loop h T tc st2" "plain_loop h T tc (st2\<lparr>lo_incomplete := True\<rparr>)"
    using w(1) full by (auto simp: plain_loop_def vars all_received_def)
  have pos: "0 < unat tc \<Longrightarrow> lo_total_chunks st2 > 0"
    by (simp add: vars word_less_nat_alt unat_ucast_up)
  show ?thesis
  proof (cases "lo_chunks_received st2 > 0 \<and> (le_now env - lo_last_progress st2) sdiv 1000000000 \<ge> to
        \<and> lo_chunks_received st2 < lo_total_chunks st2")
    case True
    then have "\<not> full_marks h tc ?s" using full by (simp only: not_le)
    moreover have "\<not> all_received (st2\<lparr>lo_incomplete := True\<rparr>)" using True by (simp add: all_received_def not_le)
    moreover have "late to (le_now env) lp" using True vars by (simp add: late_def)
    ultimately show ?thesis using P(2) vars obs True lp by (intro exI [of _ "st2\<lparr>lo_incomplete := True\<rparr>"]) simp
  next
    case False
    then have "rx_observe (Some h) window_size to env st = Ret (Inr st2)" using obs by simp
    then show ?thesis using P(1) vars full pos lp by (intro exI [of _ st2]) (simp add: all_received_def)
  qed
qed

lemma leave_ok:
  assumes L: "plain_loop h T tc st" and ws: "window_size \<noteq> 0"
  shows "\<exists>st'. leave_loop (Some h) window_size st = Ret (Inl st') \<and> plain_loop h T tc st'
    \<and> lo_conn st' = lo_conn st \<and> lo_iterations st' = lo_iterations st \<and> lo_out st' = lo_out st
    \<and> all_received st' = all_received st \<and> lo_incomplete st' = lo_incomplete st \<and> lo_last_progress st' = lo_last_progress st"
proof -
  have w: "watching h T tc (lo_conn st, lo_mem st)" "lo_total_chunks st = ucast tc" using L by (simp_all add: plain_loop_def)
  obtain mc b f where m: "deref_ctx (lo_conn st) h = Some mc" "bitmaps_agree mc tc b f"
    using w(1) by (auto simp: watching_def)
  obtain sh w' where d: "display_progress (Some h) window_size st = Some (st\<lparr>lo_shown := sh, lo_window_index := w'\<rparr>)"
    using display_ok [OF m w(2) ws] by blast
  have "plain_loop h T tc (st\<lparr>lo_shown := sh, lo_window_index := w'\<rparr>)" using L by (simp add: plain_loop_def all_received_def)
  then show ?thesis by (intro exI [of _ "st\<lparr>lo_shown := sh, lo_window_index := w'\<rparr>"]) (simp add: leave_loop_def d all_received_def)
qed

lemma turn_ok:
  assumes L: "plain_loop h T tc st" and ws: "window_size \<noteq> 0"
    and adv: "advances h T tc (le_workers env)" "advances h T tc (le_workers2 env)"
  shows "\<exists>st'. (rx_turn isal (Some h) window_size to env st = Ret (Inr st') \<and> lo_incomplete st' = lo_incomplete st
        \<or> rx_turn isal (Some h) window_size to env st = Ret (Inl st')
          \<and> (all_received st' \<and> lo_incomplete st' = lo_incomplete st \<or> \<not> all_received st' \<and> lo_incomplete st'))
    \<and> plain_loop h T tc st' \<and> same_peer (lo_conn st) (lo_conn st') \<and> lo_iterations st' = lo_iterations st + 1
    \<and> lo_out st' = lo_out st
    \<and> (0 < unat tc \<and> full_marks h tc (le_workers env (lo_conn st, lo_mem st)) \<longrightarrow>
        rx_turn isal (Some h) window_size to env st = Ret (Inl st') \<and> all_received st')
    \<and> (rx_turn isal (Some h) window_size to env st = Ret (Inr st') \<longrightarrow>
        (lo_conn st', lo_mem st') = le_workers2 env (le_workers env (lo_conn st, lo_mem st)))
    \<and> lo_last_progress st' \<in> {lo_last_progress st, le_progress_time env}
    \<and> (lo_incomplete st' = lo_incomplete st \<or> late to (le_now env) (lo_last_progress st'))"
proof -
  define st0 where "st0 = st\<lparr>lo_iterations := lo_iterations st + 1, lo_display_counter := lo_display_counter st + 1\<rparr>"
  define st1 where "st1 = others (le_workers env) st0"
  have L0: "plain_loop h T tc st0" using L by (simp add: st0_def plain_loop_def all_received_def)
  note o1 = others_ok [OF adv(1) L0, folded st1_def]
  have v1: "lo_iterations st1 = lo_iterations st + 1" "lo_out st1 = lo_out st" "lo_incomplete st1 = lo_incomplete st"
    "lo_last_progress st1 = lo_last_progress st"
    by (subst o1(3), simp add: st0_def)+
  have s1: "(lo_conn st1, lo_mem st1) = le_workers env (lo_conn st, lo_mem st)"
    by (simp add: st1_def st0_def others_def split: prod.split)
  obtain st2 where obs: "rx_observe (Some h) window_size to env st1 = Ret (Inr st2) \<and> lo_incomplete st2 = lo_incomplete st1
      \<or> rx_observe (Some h) window_size to env st1 = Ret (Inl st2) \<and> \<not> all_received st2 \<and> lo_incomplete st2"
    and p2: "plain_loop h T tc st2" "lo_conn st2 = lo_conn st1" "lo_iterations st2 = lo_iterations st1" "lo_out st2 = lo_out st1"
      "lo_mem st2 = lo_mem st1"
    and full: "full_marks h tc (lo_conn st1, lo_mem st1) \<longrightarrow>
        rx_observe (Some h) window_size to env st1 = Ret (Inr st2) \<and> (0 < unat tc \<longrightarrow> all_received st2)"
    and lp: "lo_last_progress st2 \<in> {lo_last_progress st1, le_progress_time env}"
      "rx_observe (Some h) window_size to env st1 = Ret (Inr st2) \<or> late to (le_now env) (lo_last_progress st2)"
    using observe_ok [OF o1(1) ws, of to env] by (elim exE conjE) (rule that)
  have peer: "same_peer (lo_conn st) (lo_conn st2)" using o1(2) p2(2) by (simp add: st0_def)
  show ?thesis
  proof (cases "rx_observe (Some h) window_size to env st1 = Ret (Inr st2)")
    case False
    then have obs': "rx_observe (Some h) window_size to env st1 = Ret (Inl st2)" "\<not> all_received st2" "lo_incomplete st2"
      using obs by auto
    have "rx_turn isal (Some h) window_size to env st = Ret (Inl st2)"
      by (simp add: rx_turn_def st0_def [symmetric] st1_def [symmetric] obs'(1))
    moreover have "\<not> full_marks h tc (le_workers env (lo_conn st, lo_mem st))" using full False s1 by simp
    moreover have "late to (le_now env) (lo_last_progress st2)" using lp(2) obs'(1) False by blast
    ultimately show ?thesis using obs' p2 v1 peer lp(1) by (intro exI [of _ st2]) simp
  next
    case True
    define st3 where "st3 = others (le_workers2 env) st2"
    note o3 = others_ok [OF adv(2) p2(1), folded st3_def]
    have s3: "(lo_conn st3, lo_mem st3) = le_workers2 env (le_workers env (lo_conn st, lo_mem st))"
      using p2(2,5) s1 by (simp add: st3_def others_def split: prod.split)
    have v3: "lo_iterations st3 = lo_iterations st2" "lo_out st3 = lo_out st2" "lo_incomplete st3 = lo_incomplete st2"
      "all_received st3 = all_received st2" "lo_last_progress st3 = lo_last_progress st2"
      by (subst o3(3), simp add: all_received_def)+
    have i: "lo_incomplete st2 = lo_incomplete st" using obs True v1(3) by auto
    have turn: "rx_turn isal (Some h) window_size to env st = rx_attempt isal (Some h) window_size env st3"
      by (simp add: rx_turn_def st0_def [symmetric] st1_def [symmetric] st3_def True)
    have att: "rx_attempt isal (Some h) window_size env st3
        = (if all_received st3 then leave_loop (Some h) window_size st3 else Ret (Inr st3))"
      using o3(1) by (simp add: rx_attempt_def plain_loop_def)
    have peer3: "same_peer (lo_conn st) (lo_conn st3)" using same_peer_trans [OF peer o3(2)] .
    have all: "all_received st3" if "0 < unat tc" "full_marks h tc (le_workers env (lo_conn st, lo_mem st))"
      using full that s1 v3(4) by simp
    show ?thesis
    proof (cases "all_received st3")
      case False
      then show ?thesis using turn att o3(1) peer3 v3 v1 p2 i all s3 lp(1) by (intro exI [of _ st3]) auto
    next
      case True
      obtain st4 where "leave_loop (Some h) window_size st3 = Ret (Inl st4)" "plain_loop h T tc st4" "lo_conn st4 = lo_conn st3"
        "lo_iterations st4 = lo_iterations st3" "lo_out st4 = lo_out st3" "all_received st4" "lo_incomplete st4 = lo_incomplete st3"
        "lo_last_progress st4 = lo_last_progress st3"
        using leave_ok [OF o3(1) ws] True by blast
      then show ?thesis using turn att True peer3 v3 v1 p2 i lp(1) by (intro exI [of _ st4]) simp
    qed
  qed
qed

section \<open>The loop\<close>

text \<open>\<open>Q i\<close> is a fact about the message that the other threads have established before turn \<open>i\<close>.\<close>

lemma loop_ok:
  assumes adv: "\<forall>i. advances h T tc (le_workers (env i)) \<and> advances h T tc (le_workers2 (env i))" and ws: "window_size \<noteq> 0"
    and keeps: "\<forall>i s. watching h T tc s \<and> Q i s \<longrightarrow> Q (Suc i) (le_workers2 (env i) (le_workers (env i) s))"
    and "plain_loop h T tc st" and "unat (lo_iterations st) + n < 2 ^ 64" and "\<not> lo_incomplete st"
    and "Q (unat (lo_iterations st)) (lo_conn st, lo_mem st)" and "insert (lo_last_progress st) (range (\<lambda>i. le_progress_time (env i))) \<subseteq> noted"
  shows "\<exists>st'. rx_loop isal (Some h) window_size to env n st = Ret st' \<and> plain_loop h T tc st'
    \<and> same_peer (lo_conn st) (lo_conn st') \<and> lo_out st' = lo_out st \<and> \<not> (all_received st' \<and> lo_incomplete st')
    \<and> (lo_incomplete st' \<longrightarrow> gives_up to env noted)
    \<and> (\<forall>j. unat (lo_iterations st) \<le> j \<and> j < unat (lo_iterations st) + n \<and> 0 < unat tc
          \<and> (\<forall>s. watching h T tc s \<and> Q j s \<longrightarrow> full_marks h tc (le_workers (env j) s))
        \<longrightarrow> unat (lo_iterations st') \<le> j + 1 \<and> (all_received st' \<or> lo_incomplete st'))"
  using assms(4-8)
proof (induction n arbitrary: st)
  case 0
  then show ?case by (intro exI [of _ st]) auto
next
  case (Suc n)
  let ?i = "unat (lo_iterations st)"
  obtain st' where t: "rx_turn isal (Some h) window_size to (env ?i) st = Ret (Inr st') \<and> lo_incomplete st' = lo_incomplete st
        \<or> rx_turn isal (Some h) window_size to (env ?i) st = Ret (Inl st')
          \<and> (all_received st' \<and> lo_incomplete st' = lo_incomplete st \<or> \<not> all_received st' \<and> lo_incomplete st')"
    and p: "plain_loop h T tc st'" "same_peer (lo_conn st) (lo_conn st')" "lo_iterations st' = lo_iterations st + 1"
      "lo_out st' = lo_out st"
    and full: "0 < unat tc \<and> full_marks h tc (le_workers (env ?i) (lo_conn st, lo_mem st)) \<longrightarrow>
        rx_turn isal (Some h) window_size to (env ?i) st = Ret (Inl st') \<and> all_received st'"
    and conn: "rx_turn isal (Some h) window_size to (env ?i) st = Ret (Inr st') \<longrightarrow>
        (lo_conn st', lo_mem st') = le_workers2 (env ?i) (le_workers (env ?i) (lo_conn st, lo_mem st))"
    and lp: "lo_last_progress st' \<in> {lo_last_progress st, le_progress_time (env ?i)}"
      "lo_incomplete st' = lo_incomplete st \<or> late to (le_now (env ?i)) (lo_last_progress st')"
    using turn_ok [OF Suc.prems(1) ws conjunct1 [OF adv [THEN spec, of ?i]] conjunct2 [OF adv [THEN spec, of ?i]], of isal to]
    by (elim exE conjE) (rule that)
  have w: "watching h T tc (lo_conn st, lo_mem st)" using Suc.prems(1) by (simp add: plain_loop_def)
  have noted: "insert (lo_last_progress st') (range (\<lambda>i. le_progress_time (env i))) \<subseteq> noted" using lp(1) Suc.prems(5) by auto
  have up: "lo_incomplete st' \<longrightarrow> gives_up to env noted"
    using lp(2) Suc.prems(3) noted by (auto simp: gives_up_def)
  have i': "unat (lo_iterations st') = Suc ?i"
    unfolding p(3) using Suc.prems(2) by (simp add: unat_word_ariths(1))
  show ?case
  proof (cases "rx_turn isal (Some h) window_size to (env ?i) st = Ret (Inl st')")
    case True
    then have "all_received st' \<and> \<not> lo_incomplete st' \<or> \<not> all_received st' \<and> lo_incomplete st'"
      using t Suc.prems(3) by auto
    then show ?thesis using True p i' up by (intro exI [of _ st']) auto
  next
    case False
    then have r: "rx_turn isal (Some h) window_size to (env ?i) st = Ret (Inr st')" "\<not> lo_incomplete st'"
      using t Suc.prems(3) by auto
    have no: "\<not> (0 < unat tc \<and> (\<forall>s. watching h T tc s \<and> Q ?i s \<longrightarrow> full_marks h tc (le_workers (env ?i) s)))"
      using full False w Suc.prems(4) by blast
    have "unat (lo_iterations st') + n < 2 ^ 64" using i' Suc.prems(2) by simp
    moreover have "Q (unat (lo_iterations st')) (lo_conn st', lo_mem st')"
      using keeps [THEN spec, of ?i, THEN spec, of "(lo_conn st, lo_mem st)"] conn r(1) w Suc.prems(4) i' by simp
    ultimately have "\<exists>st''. rx_loop isal (Some h) window_size to env n st' = Ret st'' \<and> plain_loop h T tc st''
        \<and> same_peer (lo_conn st') (lo_conn st'') \<and> lo_out st'' = lo_out st' \<and> \<not> (all_received st'' \<and> lo_incomplete st'') \<and> (lo_incomplete st'' \<longrightarrow> gives_up to env noted)
        \<and> (\<forall>j. unat (lo_iterations st') \<le> j \<and> j < unat (lo_iterations st') + n \<and> 0 < unat tc
          \<and> (\<forall>s. watching h T tc s \<and> Q j s \<longrightarrow> full_marks h tc (le_workers (env j) s))
        \<longrightarrow> unat (lo_iterations st'') \<le> j + 1 \<and> (all_received st'' \<or> lo_incomplete st''))"
      using Suc.IH [OF p(1) _ r(2) _ noted] by blast
    then obtain st'' where st'': "rx_loop isal (Some h) window_size to env n st' = Ret st''"
      "plain_loop h T tc st''" "same_peer (lo_conn st') (lo_conn st'')" "lo_out st'' = lo_out st'"
      "\<not> (all_received st'' \<and> lo_incomplete st'')" "lo_incomplete st'' \<longrightarrow> gives_up to env noted"
      and later: "\<forall>j. Suc ?i \<le> j \<and> j < Suc ?i + n \<and> 0 < unat tc
          \<and> (\<forall>s. watching h T tc s \<and> Q j s \<longrightarrow> full_marks h tc (le_workers (env j) s))
        \<longrightarrow> unat (lo_iterations st'') \<le> j + 1 \<and> (all_received st'' \<or> lo_incomplete st'')"
      unfolding i' by (elim exE conjE) (rule that)
    have live: "\<forall>j. ?i \<le> j \<and> j < ?i + Suc n \<and> 0 < unat tc \<and> (\<forall>s. watching h T tc s \<and> Q j s \<longrightarrow> full_marks h tc (le_workers (env j) s))
        \<longrightarrow> unat (lo_iterations st'') \<le> j + 1 \<and> (all_received st'' \<or> lo_incomplete st'')"
    proof (intro allI impI)
      fix j
      assume j: "?i \<le> j \<and> j < ?i + Suc n \<and> 0 < unat tc \<and> (\<forall>s. watching h T tc s \<and> Q j s \<longrightarrow> full_marks h tc (le_workers (env j) s))"
      then have "j \<noteq> ?i" using no by blast
      then have "Suc ?i \<le> j" "j < Suc ?i + n" using j by simp_all
      then show "unat (lo_iterations st'') \<le> j + 1 \<and> (all_received st'' \<or> lo_incomplete st'')" using later j by blast
    qed
    have "rx_loop isal (Some h) window_size to env (Suc n) st = Ret st''" by (simp add: r(1) st''(1))
    moreover have "lo_out st'' = lo_out st" using st''(4) p(4) by simp
    ultimately show ?thesis
      by (intro exI [of _ st''] conjI st''(2,5) st''(6) same_peer_trans [OF p(2) st''(3)] live)
  qed
qed

text \<open>
  The turn that starts in \<open>st\<close> calls the display, in the state \<open>shown\<close>: the other threads have run, the chunks
  have been counted, and there is progress or it is the fiftieth turn without.
\<close>

definition turn_begins :: "LoopEnv \<Rightarrow> RxLoop \<Rightarrow> RxLoop" where
  "turn_begins env st = others (le_workers env)
     (st\<lparr>lo_iterations := lo_iterations st + 1, lo_display_counter := lo_display_counter st + 1\<rparr>)"

definition calls_display :: "SDRRecvHandle \<Rightarrow> LoopEnv \<Rightarrow> RxLoop \<Rightarrow> RxLoop \<Rightarrow> bool" where
  "calls_display h env st shown \<longleftrightarrow>
     (\<exists>mc counted. deref_ctx (lo_conn (turn_begins env st)) h = Some mc
        \<and> count_chunks mc (turn_begins env st) = Some counted
        \<and> (if lo_chunks_received counted > lo_last_chunks counted
            then shown = counted\<lparr>lo_last_chunks := lo_chunks_received counted, lo_last_progress := le_progress_time env\<rparr>
            else lo_display_counter counted \<ge> 50 \<and> shown = counted))"

text \<open>With a window of no chunks the display divides by zero, at the first progress or in the fiftieth turn.\<close>

lemma zero_turn:
  assumes L: "plain_loop h T tc st" and tc: "0 < unat tc" and zero: "lo_chunks_received st = 0" "lo_last_chunks st = 0"
    and adv: "advances h T tc (le_workers env)" "advances h T tc (le_workers2 env)"
  shows "rx_turn isal (Some h) 0 to env st = Crash
      \<and> (\<exists>shown. calls_display h env st shown \<and> display_progress (Some h) 0 shown = None
          \<and> (\<forall>w. w \<noteq> 0 \<longrightarrow> display_progress (Some h) w shown \<noteq> None))
      \<and> (marks_of h (le_workers env (lo_conn st, lo_mem st)) \<noteq> {} \<or> lo_display_counter st + 1 \<ge> 50)
    \<or> lo_display_counter st + 1 < 50 \<and> (\<exists>st'. rx_turn isal (Some h) 0 to env st = Ret (Inr st') \<and> plain_loop h T tc st'
        \<and> lo_chunks_received st' = 0 \<and> lo_last_chunks st' = 0 \<and> lo_display_counter st' = lo_display_counter st + 1
        \<and> lo_iterations st' = lo_iterations st + 1)"
proof -
  define st0 where "st0 = st\<lparr>lo_iterations := lo_iterations st + 1, lo_display_counter := lo_display_counter st + 1\<rparr>"
  define st1 where "st1 = others (le_workers env) st0"
  have L0: "plain_loop h T tc st0" using L by (simp add: st0_def plain_loop_def all_received_def)
  note o1 = others_ok [OF adv(1) L0, folded st1_def]
  have begins: "turn_begins env st = st1" by (simp add: turn_begins_def st1_def st0_def)
  have s1: "(lo_conn st1, lo_mem st1) = le_workers env (lo_conn st, lo_mem st)"
    by (simp add: st1_def st0_def others_def split: prod.split)
  have v1: "lo_chunks_received st1 = 0" "lo_last_chunks st1 = 0" "lo_display_counter st1 = lo_display_counter st + 1"
    "lo_iterations st1 = lo_iterations st + 1"
    by (subst o1(3), simp add: st0_def zero)+
  have w: "watching h T tc (lo_conn st1, lo_mem st1)" using o1(1) by (simp add: plain_loop_def)
  obtain mc b f where m: "deref_ctx (lo_conn st1) h = Some mc" "bitmaps_agree mc tc b f"
    "marks_of h (lo_conn st1, lo_mem st1) = marked f"
    using watchingE [OF w] by (metis fst_conv)
  have f: "mc_backend mc = Some b" "mc_frontend mc = Some f" "mc_total_chunks mc = ucast tc" "mc_packets_per_chunk mc \<noteq> 0"
    using m(2) by (simp_all add: bitmaps_agree_def)
  define got where "got = (ucast (of_nat (card (marked f)) :: u32) :: u64)"
  define st2 where "st2 = st1\<lparr>lo_chunks_received := got, lo_total_chunks := ucast tc\<rparr>"
  have st2: "count_chunks mc st1 = Some st2" using f(2,3) count_full(1) [OF m(2)] by (simp add: count_chunks_def st2_def got_def)
  have nz: "(ucast tc :: u64) \<noteq> 0" using tc by (simp add: word_unat_eq_iff)
  have crash: "display_progress (Some h) 0 (st2\<lparr>lo_last_chunks := c, lo_last_progress := l\<rparr>) = None"
    "display_progress (Some h) 0 st2 = None" for c l
    using nz f by (simp_all add: display_progress_def load_handle_ctx_def st2_def m(1))
  have fine: "display_progress (Some h) w (st2\<lparr>lo_last_chunks := c, lo_last_progress := l\<rparr>) \<noteq> None"
    "display_progress (Some h) w st2 \<noteq> None" if "w \<noteq> 0" for w c l
    using display_ok [OF _ m(2) _ that, of "st2\<lparr>lo_last_chunks := c, lo_last_progress := l\<rparr>"]
      display_ok [OF _ m(2) _ that, of st2] m(1) by (auto simp: st2_def)
  have get: "sdr_recv_bitmap_get (lo_conn st1) (Some h) True True = Ret (0, chunk_bitmap f, ucast (fb_num_words f) * 8)"
    by (simp add: sdr_recv_bitmap_get_def m(1) f(2))
  have turn: "rx_turn isal (Some h) 0 to env st = run_bind (rx_observe (Some h) 0 to env st1)
      (\<lambda>r. case r of Inl st \<Rightarrow> Ret (Inl st) | Inr st \<Rightarrow> rx_attempt isal (Some h) 0 env (others (le_workers2 env) st))"
    by (simp add: rx_turn_def st0_def [symmetric] st1_def [symmetric])
  show ?thesis
  proof (cases "got > 0 \<or> lo_display_counter st + 1 \<ge> 50")
    case True
    then have "note_progress (Some h) 0 env st2 = None"
      using crash v1 by (auto simp: note_progress_def st2_def)
    then have "rx_observe (Some h) 0 to env st1 = Crash" by (simp add: rx_observe_def get load_handle_ctx_def m(1) st2)
    then have fault: "rx_turn isal (Some h) 0 to env st = Crash" by (simp add: turn)
    have marks: "marks_of h (le_workers env (lo_conn st, lo_mem st)) \<noteq> {}" if "got > 0"
      using that m(3) by (auto simp: s1 got_def)
    define shown where "shown = (if got > 0
        then st2\<lparr>lo_last_chunks := lo_chunks_received st2, lo_last_progress := le_progress_time env\<rparr> else st2)"
    have "calls_display h env st shown"
      unfolding calls_display_def begins using m(1) st2 v1 True by (intro exI [of _ mc] exI [of _ st2]) (auto simp: shown_def st2_def)
    moreover have "display_progress (Some h) 0 shown = None" "\<forall>w. w \<noteq> 0 \<longrightarrow> display_progress (Some h) w shown \<noteq> None"
      using crash fine by (simp_all add: shown_def)
    ultimately show ?thesis using fault marks True by blast
  next
    case False
    then have none: "got = 0" "lo_display_counter st + 1 < 50" by (simp_all add: not_le word_greater_zero_iff)
    then have "note_progress (Some h) 0 env st2 = Some st2" using v1 none(2) [unfolded not_le [symmetric]] by (simp add: note_progress_def st2_def)
    then have obs: "rx_observe (Some h) 0 to env st1 = Ret (Inr st2)"
      by (simp add: rx_observe_def get load_handle_ctx_def m(1) st2) (simp add: st2_def none(1))
    have P2: "plain_loop h T tc st2" using o1(1) nz by (simp add: plain_loop_def st2_def all_received_def none(1))
    define st3 where "st3 = others (le_workers2 env) st2"
    note o3 = others_ok [OF adv(2) P2, folded st3_def]
    have v3: "lo_chunks_received st3 = 0" "lo_last_chunks st3 = 0" "lo_display_counter st3 = lo_display_counter st + 1"
      "\<not> all_received st3" "lo_iterations st3 = lo_iterations st + 1"
      by (subst o3(3), simp add: st2_def v1 none(1) nz all_received_def)+
    have "rx_attempt isal (Some h) 0 env st3 = Ret (Inr st3)"
      using o3(1) v3(4) by (simp add: rx_attempt_def plain_loop_def)
    then have "rx_turn isal (Some h) 0 to env st = Ret (Inr st3)" by (simp add: turn obs st3_def)
    then show ?thesis using none(2) o3(1) v3 by blast
  qed
qed

lemma zero_loop:
  assumes adv: "\<forall>i. advances h T tc (le_workers (env i)) \<and> advances h T tc (le_workers2 (env i))" and tc: "0 < unat tc"
    and "plain_loop h T tc st" and "lo_chunks_received st = 0" and "lo_last_chunks st = 0"
    and "50 \<le> unat (lo_display_counter st) + n" and "unat (lo_display_counter st) < 50"
  shows "rx_loop isal (Some h) 0 to env n st = Crash
    \<and> (\<exists>k st' shown. unat (lo_display_counter st) + k < 50 \<and> rx_loop isal (Some h) 0 to env k st = Ret st'
        \<and> lo_iterations st' = lo_iterations st + of_nat k \<and> lo_chunks_received st' = 0
        \<and> rx_turn isal (Some h) 0 to (env (unat (lo_iterations st'))) st' = Crash
        \<and> calls_display h (env (unat (lo_iterations st'))) st' shown \<and> display_progress (Some h) 0 shown = None
        \<and> (\<forall>w. w \<noteq> 0 \<longrightarrow> display_progress (Some h) w shown \<noteq> None)
        \<and> (marks_of h (le_workers (env (unat (lo_iterations st'))) (lo_conn st', lo_mem st')) \<noteq> {}
            \<or> unat (lo_display_counter st) + k = 49))"
  using assms(3-7)
proof (induction n arbitrary: st)
  case (Suc n)
  let ?env = "env (unat (lo_iterations st))"
  have count: "unat (lo_display_counter st + 1) = Suc (unat (lo_display_counter st))"
    using Suc.prems(5) by (simp add: unat_word_ariths(1))
  have fifty: "unat (lo_display_counter st) = 49" if "lo_display_counter st + 1 \<ge> 50"
    using that count Suc.prems(5) by (simp add: word_le_nat_alt)
  from zero_turn [OF Suc.prems(1) tc Suc.prems(2,3), of ?env isal to] adv
  consider shown where "rx_turn isal (Some h) 0 to ?env st = Crash" "calls_display h ?env st shown"
      "display_progress (Some h) 0 shown = None" "\<forall>w. w \<noteq> 0 \<longrightarrow> display_progress (Some h) w shown \<noteq> None"
      "marks_of h (le_workers ?env (lo_conn st, lo_mem st)) \<noteq> {} \<or> lo_display_counter st + 1 \<ge> 50"
    | st' where "rx_turn isal (Some h) 0 to ?env st = Ret (Inr st')" "plain_loop h T tc st'" "lo_chunks_received st' = 0"
      "lo_last_chunks st' = 0" "lo_display_counter st' = lo_display_counter st + 1" "lo_display_counter st + 1 < 50"
      "lo_iterations st' = lo_iterations st + 1"
    by blast
  then show ?case
  proof cases
    case 1
    then show ?thesis
      using fifty Suc.prems(2,5) by (intro conjI exI [of _ 0] exI [of _ st] exI [of _ shown]) auto
  next
    case 2
    have next_ok: "50 \<le> unat (lo_display_counter st') + n" "unat (lo_display_counter st') < 50"
      using 2(5,6) count Suc.prems(4) by (simp_all add: word_less_nat_alt)
    obtain k st2 shown where k: "unat (lo_display_counter st') + k < 50" "rx_loop isal (Some h) 0 to env k st' = Ret st2"
      "lo_iterations st2 = lo_iterations st' + of_nat k" "lo_chunks_received st2 = 0"
      "rx_turn isal (Some h) 0 to (env (unat (lo_iterations st2))) st2 = Crash"
      "calls_display h (env (unat (lo_iterations st2))) st2 shown" "display_progress (Some h) 0 shown = None"
      "\<forall>w. w \<noteq> 0 \<longrightarrow> display_progress (Some h) w shown \<noteq> None"
      "marks_of h (le_workers (env (unat (lo_iterations st2))) (lo_conn st2, lo_mem st2)) \<noteq> {}
        \<or> unat (lo_display_counter st') + k = 49" and all: "rx_loop isal (Some h) 0 to env n st' = Crash"
      using Suc.IH [OF 2(2-4) next_ok] by (elim exE conjE) (rule that)
    have run: "rx_loop isal (Some h) 0 to env (Suc k) st = Ret st2" using 2(1) k(2) by simp
    have turns: "unat (lo_display_counter st) + Suc k = unat (lo_display_counter st') + k" using 2(5) count by simp
    have it: "lo_iterations st2 = lo_iterations st + of_nat (Suc k)" using k(3) 2(7) by simp
    have crash: "rx_loop isal (Some h) 0 to env (Suc n) st = Crash" using 2(1) all by simp
    show ?thesis
      by (intro conjI exI [of _ "Suc k"] exI [of _ st2] exI [of _ shown] crash run it k(4-8)
          k(1) [folded turns] k(9) [folded turns])
  qed
qed simp

section \<open>Deliveries and polling\<close>

definition of_seen :: "SDRConnection \<Rightarrow> RecvState \<Rightarrow> SDRConnection \<times> (nat \<Rightarrow> u8 list)" where
  "of_seen conn rs = (conn\<lparr>sc_connection_ctx := rs_conn rs\<rparr>, rs_mem rs)"

text \<open>
  A move of another thread: a worker handles a datagram that has arrived, or the poller checks a chunk.
  \<open>None\<close> is a fault.
\<close>

datatype Move = Arrive "u8 list" | Check u32

definition check_message :: "u32 \<Rightarrow> MessageContext \<Rightarrow> MessageContext option" where
  "check_message c mc =
     (case (mc_backend mc, mc_frontend mc) of
        (Some b, Some f) \<Rightarrow> map_option (\<lambda>(_, f'). mc\<lparr>mc_frontend := Some f'\<rparr>) (check_and_set_chunk b f c)
      | _ \<Rightarrow> Some mc)"

definition make_move ::
    "SDRRecvHandle \<Rightarrow> Move \<Rightarrow> SDRConnection \<times> (nat \<Rightarrow> u8 list) \<Rightarrow> (SDRConnection \<times> (nat \<Rightarrow> u8 list)) option" where
  "make_move h m s =
     (case m of
        Arrive d \<Rightarrow> map_option (of_seen (fst s)) (handle_datagram (seen_by s) d)
      | Check c \<Rightarrow>
          (case deref_ctx (fst s) h of
             None \<Rightarrow> None
           | Some mc \<Rightarrow> map_option (\<lambda>mc'. (set_ctx h (\<lambda>_. mc') (fst s), snd s)) (check_message c mc)))"

text \<open>Any number of moves, of any threads, one after the other; as a function, where no move is a fault.\<close>

definition make_moves ::
    "SDRRecvHandle \<Rightarrow> Move list \<Rightarrow> SDRConnection \<times> (nat \<Rightarrow> u8 list) \<Rightarrow> (SDRConnection \<times> (nat \<Rightarrow> u8 list)) option" where
  "make_moves h = run_all (make_move h)"

definition moved :: "SDRRecvHandle \<Rightarrow> Move list \<Rightarrow> SDRConnection \<times> (nat \<Rightarrow> u8 list) \<Rightarrow> SDRConnection \<times> (nat \<Rightarrow> u8 list)" where
  "moved h ms s = (case make_moves h ms s of None \<Rightarrow> s | Some s' \<Rightarrow> s')"

lemma make_moves_simps [simp]:
  "make_moves h [] s = Some s" "make_moves h (m # ms) s = Option.bind (make_move h m s) (make_moves h ms)"
  by (simp_all add: make_moves_def)

text \<open>The moves of a message: its datagrams, and checks of its chunks.\<close>

definition legal_moves :: "u32 \<Rightarrow> u8 list set \<Rightarrow> Move set" where
  "legal_moves tc ds = Arrive ` ds \<union> Check ` {c. c < tc}"

text \<open>What a move leaves in place.\<close>

definition grown :: "SDRRecvHandle \<Rightarrow> Target \<Rightarrow> u32 \<Rightarrow> SDRConnection \<times> (nat \<Rightarrow> u8 list) \<Rightarrow> SDRConnection \<times> (nat \<Rightarrow> u8 list) \<Rightarrow> bool" where
  "grown h T tc s s' \<longleftrightarrow> watching h T tc s' \<and> rx_received T (seen_by s) \<subseteq> rx_received T (seen_by s')
     \<and> marks_of h s \<subseteq> marks_of h s' \<and> same_peer (fst s) (fst s')"

lemma grown_trans: "grown h T tc r s \<Longrightarrow> grown h T tc s s' \<Longrightarrow> grown h T tc r s'"
  using same_peer_trans by (auto simp: grown_def)

lemma grown_refl: "watching h T tc s \<Longrightarrow> grown h T tc s s"
  by (simp add: grown_def)

lemma frame_message:
  assumes inv: "rx_inv T rs" "rx_inv T rs'" and frame: "rx_frame T rs' = rx_frame T rs"
    and mc: "cc_msg_table (rs_conn rs) ! unat (t_slot T) = Some mc" "mc_backend mc = Some b"
  shows "\<exists>b'. cc_msg_table (rs_conn rs') ! unat (t_slot T) = Some (mc\<lparr>mc_backend := Some b'\<rparr>) \<and> bb_wf b'
    \<and> bb_frame b' = bb_frame b \<and> rx_received T rs' = received b'"
    and "cc_connection_id (rs_conn rs') = cc_connection_id (rs_conn rs)"
proof -
  have id: "cc_connection_id (rs_conn (rx_frame T rs)) = cc_connection_id (rs_conn rs)" for rs
    by (simp add: rx_frame_def update_message_def)
  then show "cc_connection_id (rs_conn rs') = cc_connection_id (rs_conn rs)" using frame by metis
  obtain mc' b' where s': "cc_msg_table (rs_conn rs') ! unat (t_slot T) = Some mc'" "mc_backend mc' = Some b'"
    "bb_wf b'" "rx_received T rs' = received b'" "unat (t_slot T) < length (cc_msg_table (rs_conn rs'))"
    using rx_invE [OF inv(2)] by metis
  have l: "unat (t_slot T) < length (cc_msg_table (rs_conn rs))" by (rule rx_invE [OF inv(1)]) blast
  have "cc_msg_table (rs_conn (rx_frame T rs')) ! unat (t_slot T) =
      cc_msg_table (rs_conn (rx_frame T rs)) ! unat (t_slot T)" by (simp add: frame)
  then have eq: "mc'\<lparr>mc_backend := Some (b'\<lparr>packet_bitmap := []\<rparr>)\<rparr> = mc\<lparr>mc_backend := Some (b\<lparr>packet_bitmap := []\<rparr>)\<rparr>"
    using s' mc l by (simp add: rx_frame_def update_message_def)
  from arg_cong [OF eq, of mc_backend] have "bb_frame b' = bb_frame b"
    by (cases b; cases b') (simp add: bb_frame_def)
  moreover have "mc' = mc\<lparr>mc_backend := Some b'\<rparr>"
    using arg_cong [OF eq, of "\<lambda>m. m\<lparr>mc_backend := Some b'\<rparr>"] s'(2) by (cases mc') simp
  ultimately show "\<exists>b'. cc_msg_table (rs_conn rs') ! unat (t_slot T) = Some (mc\<lparr>mc_backend := Some b'\<rparr>) \<and> bb_wf b'
    \<and> bb_frame b' = bb_frame b \<and> rx_received T rs' = received b'" using s' by blast
qed

text \<open>A handler that keeps the message's frame and adds packets leaves it watched.\<close>

lemma frame_watching:
  assumes W: "watching h T tc s" and inv: "rx_inv T rs" and frame: "rx_frame T rs = rx_frame T (seen_by s)"
    and more_received: "rx_received T (seen_by s) \<subseteq> rx_received T rs"
  shows "watching h T tc (of_seen (fst s) rs)" and "marks_of h (of_seen (fst s) rs) = marks_of h s"
    and "seen_by (of_seen (fst s) rs) = rs" and "same_peer (fst s) (fst (of_seen (fst s) rs))"
proof -
  let ?s = "of_seen (fst s) rs"
  show seen: "seen_by ?s = rs" by (simp add: of_seen_def seen_by_def)
  have rx: "rx_inv T (seen_by s)" and slot: "fst (rh_msg_ctx h) = slot_of T" using W by (simp_all add: watching_def)
  obtain mc b f where m: "deref_ctx (fst s) h = Some mc" "bitmaps_agree mc tc b f" using W by (auto simp: watching_def)
  have mb: "mc_backend mc = Some b" and f: "mc_frontend mc = Some f" "fb_wf f" "chunks_cover b f" "fb_total_chunks f = tc"
    "mc_total_chunks mc = ucast tc" "\<forall>c \<in> marked f. chunk_done b c" "mc_packets_per_chunk mc \<noteq> 0" using m(2) by (simp_all add: bitmaps_agree_def)
  have tab: "cc_msg_table (rs_conn (seen_by s)) ! unat (t_slot T) = Some mc"
    using deref_slot [OF m(1)] slot by (simp add: seen_by_def)
  have rec: "rx_received T (seen_by s) = received b" by (simp add: rx_received_def tab mb)
  obtain b' where b': "cc_msg_table (rs_conn rs) ! unat (t_slot T) = Some (mc\<lparr>mc_backend := Some b'\<rparr>)" "bb_wf b'"
    "bb_frame b' = bb_frame b" "rx_received T rs = received b'"
    using frame_message(1) [OF rx inv frame tab mb] by blast
  have gen: "snd (rh_msg_ctx h) = mc_generation mc"
    using m(1) by (auto simp: deref_ctx_def split: prod.splits option.splits if_splits)
  have d: "deref_ctx (fst ?s) h = Some (mc\<lparr>mc_backend := Some b'\<rparr>)"
    using b'(1) slot gen by (auto simp: deref_ctx_def of_seen_def split: prod.split)
  have grow: "bb_grows b b'" using b'(3,4) more_received rec by (simp add: bb_grows_def)
  have "\<forall>c \<in> marked f. chunk_done b' c"
    using f(6) more_received b'(3,4) rec unfolding chunk_done_def chunk_packets_def bb_frame_def by (simp, blast)
  moreover have "chunks_cover b' f" using chunks_cover_frame [OF b'(3) HOL.refl] f(3) by simp
  ultimately have "bitmaps_agree (mc\<lparr>mc_backend := Some b'\<rparr>) tc b' f" using f b'(2) by (simp add: bitmaps_agree_def)
  then show "watching h T tc ?s" using inv slot d by (auto simp: watching_def seen)
  show "marks_of h ?s = marks_of h s" by (simp add: marks_of_def d m(1))
  show "same_peer (fst s) (fst ?s)"
    using frame_message(2) [OF rx inv frame tab mb] by (simp add: same_peer_def of_seen_def seen_by_def)
qed

lemma arrive_ok:
  assumes "T = sender_target t m mtu data b old" and mtu: "mtu \<le> 65496"
    and few: "\<forall>p. p * mtu < length data \<longrightarrow> p < 2 ^ 18" and p: "p * mtu < length data" and W: "watching h T tc s"
  shows "\<exists>s'. make_move h (Arrive (data_datagram t m ppc mtu data p)) s = Some s' \<and> grown h T tc s s'
    \<and> p \<in> rx_received T (seen_by s')"
proof -
  let ?d = "data_datagram t m ppc mtu data p"
  have T: "t_mtu T = mtu" "t_data T = data" using assms(1) by simp_all
  have inv: "rx_inv T (seen_by s)" using W by (simp add: watching_def)
  have one: "\<forall>q \<in> set [p]. q < 2 ^ 18 \<and> q * mtu < length data" using p few by simp
  obtain rs where rs: "run_all (\<lambda>d rs. handle_datagram rs d) [?d] (seen_by s) = Some rs" "rx_inv T rs"
      "rx_frame T rs = rx_frame T (seen_by s)" "rx_received T rs = rx_received T (seen_by s) \<union> {p}"
    using cut_source.all_handled [of t m mtu data b old "seen_by s" "[p]" ppc, folded assms(1)] inv mtu one unfolding T by auto
  have run: "handle_datagram (seen_by s) ?d = Some rs" using rs(1) by (auto split: Option.bind_splits)
  have "rx_received T (seen_by s) \<subseteq> rx_received T rs" unfolding rs(4) by (rule Un_upper1)
  note k = frame_watching [OF W rs(2,3) this]
  have "make_move h (Arrive ?d) s = Some (of_seen (fst s) rs)" by (simp add: make_move_def run)
  then show ?thesis using k rs(4) by (intro exI [of _ "of_seen (fst s) rs"]) (auto simp: grown_def)
qed

lemma check_ok:
  assumes W: "watching h T tc s" and c: "c < tc"
  shows "\<exists>s'. make_move h (Check c) s = Some s' \<and> grown h T tc s s'
    \<and> ({p. p * t_mtu T < length (t_data T)} \<subseteq> rx_received T (seen_by s) \<longrightarrow> unat c \<in> marks_of h s')"
proof -
  have rx: "rx_inv T (seen_by s)" and slot: "fst (rh_msg_ctx h) = slot_of T" using W by (simp_all add: watching_def)
  obtain mc b f where m: "deref_ctx (fst s) h = Some mc" "bitmaps_agree mc tc b f" "rx_received T (seen_by s) = received b"
    "marks_of h s = marked f" "\<forall>p. p < unat (bb_total_packets b) \<longleftrightarrow> p * t_mtu T < length (t_data T)"
    by (rule watchingE [OF W])
  have b: "mc_backend mc = Some b" and f: "mc_frontend mc = Some f" "bb_wf b" "fb_wf f" "chunks_cover b f"
    "fb_total_chunks f = tc" "mc_total_chunks mc = ucast tc" "\<forall>c \<in> marked f. chunk_done b c" "mc_packets_per_chunk mc \<noteq> 0"
    using m(2) by (simp_all add: bitmaps_agree_def)
  have c': "c < fb_total_chunks f" using c f(5) by simp
  obtain f' where f': "check_and_set_chunk b f c = Some (unat c \<in> marked f \<or> chunk_done b (unat c), f')" "fb_wf f'"
    "fb_frame f' = fb_frame f" "marked f' = marked f \<union> (if chunk_done b (unat c) then {unat c} else {})"
    by (rule check_and_set_chunk_eq [OF f(3,2) chunks_cover_fit [OF f(4)] c'])
  let ?mc = "mc\<lparr>mc_frontend := Some f'\<rparr>"
  define s' where "s' = (set_ctx h (\<lambda>_. ?mc) (fst s), snd s)"
  have move: "make_move h (Check c) s = Some s'"
    by (simp add: make_move_def m(1) check_message_def b f(1) f'(1) s'_def)
  have tab: "cc_msg_table (sc_connection_ctx (fst s)) ! unat (t_slot T) = Some mc" using deref_slot [OF m(1)] slot by simp
  have l: "unat (t_slot T) < length (cc_msg_table (sc_connection_ctx (fst s)))"
    by (rule rx_invE [OF rx]) (simp add: seen_by_def)
  have tab': "cc_msg_table (sc_connection_ctx (fst s')) ! unat (t_slot T) = Some ?mc"
    using l tab by (simp add: s'_def set_ctx_def update_message_def slot)
  have gen: "snd (rh_msg_ctx h) = mc_generation mc"
    using m(1) by (auto simp: deref_ctx_def split: prod.splits option.splits if_splits)
  have d: "deref_ctx (fst s') h = Some ?mc"
    using tab' slot gen by (auto simp: deref_ctx_def split: prod.split)
  have cc: "cc_wf (sc_connection_ctx (fst s))" using rx by (simp add: rx_inv_def seen_by_def)
  then have id: "unat (mc_msg_id mc) = unat (t_slot T)" using tab by (simp add: cc_wf_def)
  have upd: "update_message (sc_connection_ctx (fst s)) (fst (rh_msg_ctx h)) (\<lambda>_. ?mc)
      = update_message (sc_connection_ctx (fst s)) (fst (rh_msg_ctx h)) (\<lambda>m. m\<lparr>mc_frontend := Some f'\<rparr>)"
    by (simp add: update_message_def slot tab)
  have wf: "cc_wf (sc_connection_ctx (fst s'))"
    unfolding s'_def set_ctx_def using cc_wf_update [OF cc] by (simp add: upd)
  have r: "0 < t_mtu T" "length (t_old T) = length (t_data T)" "length (t_data T) + 2 ^ 16 \<le> 2 ^ 64"
    "mc_generation mc = t_generation T" "mc_state mc = ACTIVE" "mc_buffer mc = UserBuf (t_buffer T)"
    "unat (mc_buffer_size mc) = length (t_data T)" "effective_mtu mc = t_mtu T" "snd s (t_buffer T) = overlay T (received b)"
    using rx unfolding rx_inv_def by (simp_all add: seen_by_def tab b)
  have "effective_mtu ?mc = effective_mtu mc" by (simp add: effective_mtu_def)
  then have mtu: "effective_mtu ?mc = t_mtu T" using r(8) by simp
  have inv: "rx_inv T (seen_by s')"
    unfolding rx_inv_def using r wf f(2) mtu by (simp add: seen_by_def tab' b m(5)) (simp add: s'_def)
  have rec: "rx_received T (seen_by s') = rx_received T (seen_by s)"
    by (simp add: rx_received_def seen_by_def tab tab')
  have "bitmaps_agree ?mc tc b f'"
    using f f' b chunks_cover_frame [OF HOL.refl f'(3), of b] by (auto simp: bitmaps_agree_def fb_frame_def)
  then have W': "watching h T tc s'" using inv slot d by (auto simp: watching_def)
  have marks: "marks_of h s' = marked f'" by (simp add: marks_of_def d)
  have peer: "same_peer (fst s) (fst s')" by (simp add: same_peer_def s'_def set_ctx_def update_message_def)
  have "unat c \<in> marked f'" if all: "{p. p * t_mtu T < length (t_data T)} \<subseteq> rx_received T (seen_by s)"
  proof -
    have "received b = {..<unat (bb_total_packets b)}" using all m(3,5) f(2) by (auto simp: bb_wf_def)
    then have "chunk_done b (unat c)" using all_chunks_done_iff [OF f(4,2)] c' by (simp add: word_less_nat_alt)
    then show ?thesis using f'(4) by simp
  qed
  then show ?thesis using move W' rec marks m(4) f'(4) peer by (intro exI [of _ s']) (auto simp: grown_def)
qed

text \<open>Any sequence of the message's moves: none is a fault, what arrives is received, and a check that comes when
  everything has arrived marks its chunk.\<close>

lemma moves_ok:
  assumes T: "T = sender_target t m mtu data b old" and mtu: "mtu \<le> 65496"
    and few: "\<forall>p. p * mtu < length data \<longrightarrow> p < 2 ^ 18"
    and D: "D = data_datagram t m ppc mtu data ` {p. p * mtu < length data}"
  shows "watching h T tc s \<Longrightarrow> set ms \<subseteq> legal_moves tc D \<Longrightarrow> \<exists>s'. make_moves h ms s = Some s' \<and> grown h T tc s s'
    \<and> {p. p * mtu < length data \<and> Arrive (data_datagram t m ppc mtu data p) \<in> set ms} \<subseteq> rx_received T (seen_by s')
    \<and> ({p. p * mtu < length data} \<subseteq> rx_received T (seen_by s) \<longrightarrow> {unat c | c. Check c \<in> set ms} \<subseteq> marks_of h s')"
proof (induction ms arbitrary: s)
  case Nil
  then show ?case by (simp add: grown_refl)
next
  case (Cons x ms)
  have tail: "set ms \<subseteq> legal_moves tc D" and x: "x \<in> legal_moves tc D" using Cons.prems(2) by simp_all
  have T': "t_mtu T = mtu" "t_data T = data" using T by simp_all
  have inj: "p = q" if "p * mtu < length data" "q * mtu < length data"
    "data_datagram t m ppc mtu data p = data_datagram t m ppc mtu data q" for p q
  proof -
    have "0 < mtu" using Cons.prems(1) T' by (auto simp: watching_def rx_inv_def)
    then show ?thesis using cut_source.dgram_inj [of t m mtu data b old p q ppc] mtu that few by auto
  qed
  obtain s1 where s1: "make_move h x s = Some s1" "grown h T tc s s1"
    "\<forall>p. p * mtu < length data \<and> x = Arrive (data_datagram t m ppc mtu data p) \<longrightarrow> p \<in> rx_received T (seen_by s1)"
    "{p. p * mtu < length data} \<subseteq> rx_received T (seen_by s) \<longrightarrow> (\<forall>c. x = Check c \<longrightarrow> unat c \<in> marks_of h s1)"
  proof (cases x)
    case (Arrive d)
    then obtain p where p: "d = data_datagram t m ppc mtu data p" "p * mtu < length data"
      using x by (auto simp: legal_moves_def D)
    obtain s1 where s1: "make_move h x s = Some s1" "grown h T tc s s1" "p \<in> rx_received T (seen_by s1)"
      using arrive_ok [OF T mtu few p(2) Cons.prems(1), of ppc] Arrive p(1) by blast
    show thesis by (rule that [OF s1(1,2)]) (use s1(3) Arrive p inj in \<open>auto\<close>)
  next
    case (Check c)
    then have c: "c < tc" using x by (auto simp: legal_moves_def)
    obtain s1 where s1: "make_move h x s = Some s1" "grown h T tc s s1"
      "{p. p * t_mtu T < length (t_data T)} \<subseteq> rx_received T (seen_by s) \<longrightarrow> unat c \<in> marks_of h s1"
      using check_ok [OF Cons.prems(1) c] Check by blast
    show thesis by (rule that [OF s1(1,2)]) (use s1(3) Check T' in auto)
  qed
  have W1: "watching h T tc s1" and mono: "rx_received T (seen_by s) \<subseteq> rx_received T (seen_by s1)"
    using s1(2) by (simp_all add: grown_def)
  obtain s' where s': "make_moves h ms s1 = Some s'" "grown h T tc s1 s'"
    "{p. p * mtu < length data \<and> Arrive (data_datagram t m ppc mtu data p) \<in> set ms} \<subseteq> rx_received T (seen_by s')"
    "{p. p * mtu < length data} \<subseteq> rx_received T (seen_by s1) \<longrightarrow> {unat c | c. Check c \<in> set ms} \<subseteq> marks_of h s'"
    using Cons.IH [OF W1 tail] by (elim exE conjE) (rule that)
  have up: "rx_received T (seen_by s1) \<subseteq> rx_received T (seen_by s')" "marks_of h s1 \<subseteq> marks_of h s'"
    using s'(2) by (simp_all add: grown_def)
  have "make_moves h (x # ms) s = Some s'" by (simp add: s1(1) s'(1))
  moreover have "grown h T tc s s'" using grown_trans [OF s1(2) s'(2)] .
  moreover have "{p. p * mtu < length data \<and> Arrive (data_datagram t m ppc mtu data p) \<in> set (x # ms)} \<subseteq> rx_received T (seen_by s')"
    using s1(3) s'(3) up(1) by auto
  moreover have "{unat c | c. Check c \<in> set (x # ms)} \<subseteq> marks_of h s'" if "{p. p * mtu < length data} \<subseteq> rx_received T (seen_by s)"
    using that s1(4) s'(4) up(2) mono by auto
  ultimately show ?case by blast
qed

lemma make_moves_append: "make_moves h (ms @ ms') s = Option.bind (make_moves h ms s) (make_moves h ms')"
  by (induction ms arbitrary: s) (auto split: Option.bind_splits)

lemma moved_append:
  "make_moves h (ms @ ms') s \<noteq> None \<Longrightarrow> moved h ms' (moved h ms s) = moved h (ms @ ms') s"
  by (auto simp: moved_def make_moves_append split: option.splits Option.bind_splits)

lemma moved_advances:
  assumes "T = sender_target t m mtu data b old" and "mtu \<le> 65496"
    and "\<forall>p. p * mtu < length data \<longrightarrow> p < 2 ^ 18"
    and "D = data_datagram t m ppc mtu data ` {p. p * mtu < length data}" and "set ms \<subseteq> legal_moves tc D"
  shows "advances h T tc (moved h ms)"
  unfolding advances_def
proof (intro allI impI)
  fix s assume W: "watching h T tc s"
  obtain s' where "make_moves h ms s = Some s'" "grown h T tc s s'"
    using moves_ok [OF assms(1-4) W assms(5)] by blast
  then show "watching h T tc (moved h ms s) \<and> rx_received T (seen_by s) \<subseteq> rx_received T (seen_by (moved h ms s))
      \<and> marks_of h s \<subseteq> marks_of h (moved h ms s) \<and> sc_tcp_server (fst (moved h ms s)) = sc_tcp_server (fst s)
      \<and> sc_is_receiver (fst (moved h ms s)) = sc_is_receiver (fst s)
      \<and> cc_connection_id (sc_connection_ctx (fst (moved h ms s))) = cc_connection_id (sc_connection_ctx (fst s))"
    by (simp add: moved_def grown_def same_peer_def)
qed

section \<open>The run\<close>

text \<open>A posted message in the plain mode, whose handle is \<open>h\<close> and whose sender sends the test bytes.\<close>

definition plain_posted :: "RxPosted \<Rightarrow> SDRRecvHandle \<Rightarrow> Target \<Rightarrow> u32 \<Rightarrow> u64 \<Rightarrow> bool" where
  "plain_posted px h T tc message_bytes \<longleftrightarrow> px_handle px = Some h \<and> px_sr px = None \<and> px_ec px = None
     \<and> watching h T tc (px_conn px, hs_mem (px_host px)) \<and> tc \<noteq> 0
     \<and> rh_msg_id h = fst (rh_msg_ctx h) \<and> t_buffer T = 0 \<and> t_data T = test_payload (unat message_bytes)
     \<and> sc_is_receiver (px_conn px) \<and> (\<exists>srv. sc_tcp_server (px_conn px) = Some srv \<and> server_alive srv)"

lemma watching_complete:
  assumes W: "watching h T tc (conn, mem)" and h: "rh_msg_id h = fst (rh_msg_ctx h)" and tc: "tc \<noteq> 0"
    and srv: "sc_is_receiver conn" "sc_tcp_server conn = Some srv" "server_alive srv" and out: "wf_message locals"
  shows "\<exists>RC ok. sdr_recv_complete conn (Some h) (int message_size) pad locals = Ret RC
    \<and> rc_out RC = message_image pad (completion_message locals ok (cc_connection_id (sc_connection_ctx conn)))
    \<and> (ok \<longleftrightarrow> full_marks h tc (conn, mem))"
proof -
  have cc: "cc_wf (sc_connection_ctx conn)" and slot: "fst (rh_msg_ctx h) = slot_of T"
    using W by (simp_all add: watching_def rx_inv_def seen_by_def)
  obtain mc b f where m: "deref_ctx conn h = Some mc" "bitmaps_agree mc tc b f" "marks_of h (conn, mem) = marked f"
    using watchingE [OF W] by (metis fst_conv)
  have f: "mc_frontend mc = Some f" "fb_wf f" "mc_total_chunks mc = ucast tc" using m(2) by (simp_all add: bitmaps_agree_def)
  have total: "unat (ucast (mc_total_chunks mc) :: u32) = unat tc" using unat_width(5) [of tc] by (simp add: f(3) unat_ucast_mod)
  have h': "rh_msg_ctx h = (rh_msg_id h, snd (rh_msg_ctx h))" "unat (rh_msg_id h) < 1024"
    using slot unat_width(2) [of "t_slot T"] by (simp_all add: h prod_eq_iff)
  let ?ok = "mc_state mc = COMPLETED \<or> 0 < unat tc \<and> unat tc \<le> card (marked f)"
  obtain RC where RC: "sdr_recv_complete conn (Some h) (int message_size) pad locals = Ret RC"
    "rc_out RC = message_image pad (completion_message locals ?ok (cc_connection_id (sc_connection_ctx conn)))"
    using recv_complete_eq [OF cc h' m(1) f(1,2) srv out HOL.refl, of pad, unfolded total Let_def] by blast
  have "mc_state mc = ACTIVE"
    using W deref_slot [OF m(1)] slot by (auto simp: watching_def rx_inv_def seen_by_def)
  moreover have "unat tc \<le> card (marked f) \<longleftrightarrow> full_marks h tc (conn, mem)"
  proof -
    have fin: "finite (marked f)" "marked f \<subseteq> {..<unat tc}"
      using f(2) m(2) by (auto simp: fb_wf_def bitmaps_agree_def intro: finite_subset)
    show ?thesis
    proof
      assume "unat tc \<le> card (marked f)"
      then have "marked f = {..<unat tc}" using fin(2) by (intro card_seteq) simp_all
      then show "full_marks h tc (conn, mem)" by (simp add: full_marks_def m(3))
    next
      assume "full_marks h tc (conn, mem)"
      then have "card {..<unat tc} \<le> card (marked f)" using fin(1) by (intro card_mono) (simp_all add: full_marks_def m(3))
      then show "unat tc \<le> card (marked f)" by simp
    qed
  qed
  ultimately have "?ok \<longleftrightarrow> full_marks h tc (conn, mem)" using tc by (simp add: unat_gt_0)
  then show ?thesis using RC by blast
qed

text \<open>
  The receiving program tells the truth.  Let a message of test bytes be posted in the plain mode, and let
  the other threads do nothing, in every turn of the loop, but deliver packets of it and mark complete
  chunks.  Then the program does not fault and ends with status 0; if it checks the bytes at all the check
  passes, and the sender is told COMPLETE_ACK; and if in one of the million turns every chunk has been
  marked, then it does check them, unless in some turn the last progress it has noted is 30 seconds ago.
\<close>

definition stalls :: "ReceiverSys \<Rightarrow> bool" where
  "stalls sys \<longleftrightarrow> gives_up 30 (vs_env sys) (insert (vs_first_progress sys) (range (\<lambda>i. le_progress_time (vs_env sys i))))"

lemma plain_receiver_runs:
  assumes P: "plain_posted px h T tc message_bytes"
    and adv: "\<forall>i. advances h T tc (le_workers (vs_env sys i)) \<and> advances h T tc (le_workers2 (vs_env sys i))"
    and keeps: "\<forall>i s. watching h T tc s \<and> Q i s \<longrightarrow> Q (Suc i) (le_workers2 (vs_env sys i) (le_workers (vs_env sys i) s))"
    and start: "Q 0 (px_conn px, hs_mem (px_host px))"
    and window: "get_uint32 cfg ''window_size'' 15 \<noteq> 0"
    and out: "vs_sent sys = int message_size" "wf_message (vs_locals sys)"
    and late_moves: "advances h T tc (vs_workers sys)" "advances h T tc (vs_workers2 sys)"
  shows "\<exists>R ok. receiver_transfer sys isal cfg SDR message_bytes px = Ret R \<and> ro_exit R = 0
    \<and> ro_out R = px_out px @ message_image (vs_pad sys)
        (completion_message (vs_locals sys) ok (cc_connection_id (sc_connection_ctx (px_conn px))))
    \<and> (ok \<longrightarrow> ro_mem R 0 = test_payload (unat message_bytes)) \<and> (ro_verified R = None \<or> ro_verified R = Some (True, - 1) \<and> ok)
    \<and> (\<forall>j < MAX_ITERATIONS. (\<forall>s. watching h T tc s \<and> Q j s \<longrightarrow> full_marks h tc (le_workers (vs_env sys j) s)) \<longrightarrow>
          ro_verified R \<noteq> None \<or> stalls sys)"
proof -
  have px: "px_handle px = Some h" "px_sr px = None" "px_ec px = None" "watching h T tc (px_conn px, hs_mem (px_host px))"
    "tc \<noteq> 0" "rh_msg_id h = fst (rh_msg_ctx h)" "t_buffer T = 0" "t_data T = test_payload (unat message_bytes)"
    "sc_is_receiver (px_conn px)" using P by (simp_all add: plain_posted_def)
  obtain srv where srv: "sc_tcp_server (px_conn px) = Some srv" "server_alive srv" using P by (auto simp: plain_posted_def)
  obtain mc b f where m: "deref_ctx (px_conn px) h = Some mc" "bitmaps_agree mc tc b f"
    using px(4) by (auto simp: watching_def)
  have total: "mc_total_chunks mc = ucast tc" using m(2) by (simp add: bitmaps_agree_def)
  have pos: "0 < unat tc" using px(5) by (simp add: unat_gt_0)
  have nz: "(ucast tc :: u64) \<noteq> 0" using pos by (simp add: word_unat_eq_iff)
  let ?ws = "ucast (get_uint32 cfg ''window_size'' 15) :: u64"
  have ws: "?ws \<noteq> 0" using window by (simp add: word_unat_eq_iff)
  let ?st = "loop_start sys px (ucast tc)"
  have "\<not> all_received ?st" using nz by (simp add: all_received_def loop_start_def)
  then have L: "plain_loop h T tc ?st" using px by (simp add: plain_loop_def loop_start_def)
  have i: "unat (lo_iterations ?st) = 0" "\<not> lo_incomplete ?st" by (simp_all add: loop_start_def)
  have q0: "Q (unat (lo_iterations ?st)) (lo_conn ?st, lo_mem ?st)" using start by (simp add: loop_start_def)
  have few: "unat (lo_iterations ?st) + MAX_ITERATIONS < 2 ^ 64" by (simp add: i MAX_ITERATIONS_def)
  have t0: "insert (lo_last_progress ?st) (range (\<lambda>i. le_progress_time (vs_env sys i)))
      \<subseteq> insert (vs_first_progress sys) (range (\<lambda>i. le_progress_time (vs_env sys i)))" by (simp add: loop_start_def)
  obtain st where st: "rx_loop isal (Some h) ?ws 30 (vs_env sys) MAX_ITERATIONS ?st = Ret st" "plain_loop h T tc st"
    "same_peer (lo_conn ?st) (lo_conn st)" "lo_out st = lo_out ?st" "lo_incomplete st \<longrightarrow> stalls sys"
    and live: "\<forall>j. unat (lo_iterations ?st) \<le> j \<and> j < unat (lo_iterations ?st) + MAX_ITERATIONS \<and> 0 < unat tc
          \<and> (\<forall>s. watching h T tc s \<and> Q j s \<longrightarrow> full_marks h tc (le_workers (vs_env sys j) s))
        \<longrightarrow> unat (lo_iterations st) \<le> j + 1 \<and> (all_received st \<or> lo_incomplete st)"
    using loop_ok [OF adv ws keeps L few i(2) q0 t0, of isal 30, folded stalls_def] by (elim exE conjE) (rule that)
  have run: "receiver_transfer sys isal cfg SDR message_bytes px = receiver_end sys SDR (Some h) message_bytes st"
    by (simp add: receiver_transfer_def load_handle_ctx_def px(1) m(1) total nz st(1))
  define st1 where "st1 = others (vs_workers sys) st"
  define st2 where "st2 = others (vs_workers2 sys) st1"
  note o1 = others_ok [OF late_moves(1) st(2), folded st1_def]
  note o2 = others_ok [OF late_moves(2) o1(1), folded st2_def]
  have vars: "lo_out st1 = px_out px" "all_received st1 = all_received st" "all_received st2 = all_received st1"
    by (subst o1(3), simp add: st(4) loop_start_def all_received_def)
      ((subst o1(3), simp add: all_received_def), subst o2(3), simp add: all_received_def)
  have W1: "watching h T tc (lo_conn st1, lo_mem st1)" and full1: "all_received st1 \<longrightarrow> full_marks h tc (lo_conn st1, lo_mem st1)"
    using o1(1) by (simp_all add: plain_loop_def)
  have W: "watching h T tc (lo_conn st2, lo_mem st2)" and full: "all_received st2 \<longrightarrow> full_marks h tc (lo_conn st2, lo_mem st2)"
    using o2(1) by (simp_all add: plain_loop_def)
  have peer: "sc_is_receiver (lo_conn st2)" "sc_tcp_server (lo_conn st2) = Some srv"
    "cc_connection_id (sc_connection_ctx (lo_conn st2)) = cc_connection_id (sc_connection_ctx (px_conn px))"
    using same_peer_trans [OF same_peer_trans [OF st(3) o1(2)] o2(2)] px(9) srv(1) by (simp_all add: same_peer_def loop_start_def)
  obtain RC ok where RC: "sdr_recv_complete (lo_conn st2) (Some h) (vs_sent sys) (vs_pad sys) (vs_locals sys) = Ret RC"
    "rc_out RC = message_image (vs_pad sys) (completion_message (vs_locals sys) ok (cc_connection_id (sc_connection_ctx (px_conn px))))"
    "ok \<longleftrightarrow> full_marks h tc (lo_conn st2, lo_mem st2)"
    using watching_complete [OF W px(6,5) peer(1,2) srv(2) out(2), of "vs_pad sys"] unfolding out(1) peer(3) by blast
  have truth: "ok \<longrightarrow> lo_mem st2 0 = test_payload (unat message_bytes)"
    using full_marks_data [OF W] RC(3) px(7,8) by simp
  have "lo_ec_decoded st2 = lo_ec_decoded st" by (subst o2(3), simp, subst o1(3), simp)
  then have close: "close_decoded SDR h st2 = lo_conn st2" by (simp add: close_decoded_def)
  show ?thesis
  proof (cases "all_received st1")
    case True
    then have data: "lo_mem st1 0 = test_payload (unat message_bytes)" and ok
      using full_marks_data [OF W1] full1 full RC(3) px(7,8) vars(3) by simp_all
    have "verify_data (lo_mem st1 0) message_bytes = Some (True, - 1)"
      using verify_data_eq [of message_bytes "lo_mem st1 0"] by (simp add: data take_test_payload)
    then show ?thesis
      using True RC(1,2) truth \<open>ok\<close>
      by (auto simp: run receiver_end_def Let_def st1_def [symmetric] st2_def [symmetric] close vars(1))
  next
    case False
    then have "\<forall>j < MAX_ITERATIONS. (\<forall>s. watching h T tc s \<and> Q j s \<longrightarrow> full_marks h tc (le_workers (vs_env sys j) s)) \<longrightarrow> stalls sys"
      using live st(5) i(1) pos vars(2) by auto
    then show ?thesis
      using False RC(1,2) truth
      by (auto simp: run receiver_end_def Let_def st1_def [symmetric] st2_def [symmetric] close vars(1))
  qed
qed

text \<open>With a window of no chunks a posted message ends the program.\<close>

lemma zero_window_transfer:
  assumes P: "plain_posted px h T tc message_bytes"
    and adv: "\<forall>i. advances h T tc (le_workers (vs_env sys i)) \<and> advances h T tc (le_workers2 (vs_env sys i))"
    and window: "get_uint32 cfg ''window_size'' 15 = 0"
  shows "receiver_transfer sys isal cfg SDR message_bytes px = Crash
    \<and> (\<exists>k st shown. k < 50 \<and> rx_loop isal (Some h) 0 30 (vs_env sys) k (loop_start sys px (ucast tc)) = Ret st
        \<and> lo_iterations st = of_nat k \<and> lo_chunks_received st = 0
        \<and> rx_turn isal (Some h) 0 30 (vs_env sys k) st = Crash
        \<and> calls_display h (vs_env sys k) st shown \<and> display_progress (Some h) 0 shown = None
        \<and> (\<forall>w. w \<noteq> 0 \<longrightarrow> display_progress (Some h) w shown \<noteq> None)
        \<and> (marks_of h (le_workers (vs_env sys k) (lo_conn st, lo_mem st)) \<noteq> {} \<or> k = 49))"
    and "load_handle_ctx (px_handle px) (px_conn px) = Some (Some mc) \<Longrightarrow> mc_total_chunks mc = ucast tc"
proof -
  have px: "px_handle px = Some h" "px_sr px = None" "px_ec px = None" "watching h T tc (px_conn px, hs_mem (px_host px))" "tc \<noteq> 0"
    using P by (simp_all add: plain_posted_def)
  obtain mc' b f where m: "deref_ctx (px_conn px) h = Some mc'" "bitmaps_agree mc' tc b f"
    using px(4) by (auto simp: watching_def)
  have total: "mc_total_chunks mc' = ucast tc" using m(2) by (simp add: bitmaps_agree_def)
  then show "mc_total_chunks mc = ucast tc" if "load_handle_ctx (px_handle px) (px_conn px) = Some (Some mc)"
    using that m(1) by (simp add: load_handle_ctx_def px(1))
  have pos: "0 < unat tc" using px(5) by (simp add: unat_gt_0)
  then have nz: "(ucast tc :: u64) \<noteq> 0" by (simp add: word_unat_eq_iff)
  let ?st = "loop_start sys px (ucast tc)"
  have "\<not> all_received ?st" using nz by (simp add: all_received_def loop_start_def)
  then have L: "plain_loop h T tc ?st" using px by (simp add: plain_loop_def loop_start_def)
  have zero: "lo_chunks_received ?st = 0" "lo_last_chunks ?st = 0" "unat (lo_display_counter ?st) = 0" "lo_iterations ?st = 0"
    by (simp_all add: loop_start_def)
  have n: "50 \<le> unat (lo_display_counter ?st) + MAX_ITERATIONS" "unat (lo_display_counter ?st) < 50"
    by (simp_all add: zero(3) MAX_ITERATIONS_def)
  obtain k st shown where k: "unat (lo_display_counter ?st) + k < 50" "rx_loop isal (Some h) 0 30 (vs_env sys) k ?st = Ret st"
      "lo_iterations st = lo_iterations ?st + of_nat k" "lo_chunks_received st = 0"
      "rx_turn isal (Some h) 0 30 (vs_env sys (unat (lo_iterations st))) st = Crash"
      "calls_display h (vs_env sys (unat (lo_iterations st))) st shown" "display_progress (Some h) 0 shown = None"
      "\<forall>w. w \<noteq> 0 \<longrightarrow> display_progress (Some h) w shown \<noteq> None"
      "marks_of h (le_workers (vs_env sys (unat (lo_iterations st))) (lo_conn st, lo_mem st)) \<noteq> {}
        \<or> unat (lo_display_counter ?st) + k = 49" and all: "rx_loop isal (Some h) 0 30 (vs_env sys) MAX_ITERATIONS ?st = Crash"
    using zero_loop [OF adv pos L zero(1,2) n, of isal 30] by (elim exE conjE) (rule that)
  have k50: "k < 50" using k(1) zero(3) by simp
  then have "unat (of_nat k :: u64) = k" by (intro unat_of_nat_small) simp
  then have idx: "unat (lo_iterations st) = k" using k(3) zero(4) by simp
  have it: "lo_iterations st = of_nat k" using k(3) zero(4) by simp
  have "receiver_transfer sys isal cfg SDR message_bytes px = Crash"
    using nz all by (simp add: receiver_transfer_def load_handle_ctx_def px(1) m(1) total window)
  then show "receiver_transfer sys isal cfg SDR message_bytes px = Crash
    \<and> (\<exists>k st shown. k < 50 \<and> rx_loop isal (Some h) 0 30 (vs_env sys) k (loop_start sys px (ucast tc)) = Ret st
        \<and> lo_iterations st = of_nat k \<and> lo_chunks_received st = 0
        \<and> rx_turn isal (Some h) 0 30 (vs_env sys k) st = Crash
        \<and> calls_display h (vs_env sys k) st shown \<and> display_progress (Some h) 0 shown = None
        \<and> (\<forall>w. w \<noteq> 0 \<longrightarrow> display_progress (Some h) w shown \<noteq> None)
        \<and> (marks_of h (le_workers (vs_env sys k) (lo_conn st, lo_mem st)) \<noteq> {} \<or> k = 49))"
    using k50 k(2,4-9) it zero(3) unfolding idx by (intro conjI exI [of _ k] exI [of _ st] exI [of _ shown]) simp_all
qed

end
