(* ===== verification/Programs_Run.thy ===== *)
theory Programs_Run
  imports Sender_Program Receiver_Watch
begin

text \<open>
  The two example programs run against each other in the plain mode: what each of them sends is what the
  other one is given, and between the steps of the receiver's main thread its other threads handle the
  sender's datagrams and check chunks, in any order.
\<close>

section \<open>Starting up\<close>

definition connects :: "ConnectSys \<Rightarrow> bool" where
  "connects sys \<longleftrightarrow> cs_socket sys \<ge> 0 \<and> cs_inet_pton sys > 0 \<and> cs_connect sys \<ge> 0"

definition listens :: "ListenSys \<Rightarrow> bool" where
  "listens sys \<longleftrightarrow> ls_socket sys \<ge> 0 \<and> ls_setsockopt sys \<ge> 0 \<and> ls_bind sys \<ge> 0 \<and> ls_listen sys \<ge> 0"

definition sender_works :: "SenderSys \<Rightarrow> bool" where
  "sender_works sys \<longleftrightarrow> connects (ss_connect sys) \<and> sps_offer (ss_post sys) = int message_size
     \<and> sps_accept (ss_post sys) = int message_size \<and> sps_socket (ss_post sys) \<ge> 0
     \<and> (\<forall>ip. sps_inet_pton (ss_post sys) ip > 0) \<and> (\<forall>k. sps_sendto (ss_post sys) k > 0)"

definition receiver_works :: "ReceiverSys \<Rightarrow> bool" where
  "receiver_works sys \<longleftrightarrow> listens (vs_listen sys) \<and> vs_accept sys \<ge> 0
     \<and> (\<forall>k. channel_opens (rps_channels (vs_post sys) k)) \<and> rps_send (vs_post sys) = int message_size
     \<and> wf_message (rps_locals (vs_post sys)) \<and> vs_sent sys = int message_size \<and> wf_message (vs_locals sys)"

text \<open>The connection context of a program when it posts.\<close>

definition program_ctx :: "ConnectionParams \<Rightarrow> ConnectionContext" where
  "program_ctx params =
     snd (cc_initialize (snd (cc_initialize ConnectionContext_new 1 zero_params)) 1 params)"

lemma program_ctx_simps [simp]:
  "cc_params (program_ctx params) = params" "cc_connection_id (program_ctx params) = 1"
  "cc_auto_send_data (program_ctx params)" "cc_msg_table (program_ctx params) = replicate MAX_MESSAGES None"
  "cc_generation_counters (program_ctx params) = replicate MAX_MESSAGES 1"
  by (simp_all add: program_ctx_def cc_initialize_def ConnectionContext_new_def)

lemma program_ctx_wf: "cc_wf (program_ctx params)"
  by (auto simp: cc_wf_def program_ctx_def cc_initialize_def ConnectionContext_new_def)

lemma program_params_wf: "wf_params (sender_params cfg udp)" "wf_params (receiver_params cfg udp)"
  by (simp_all add: sender_params_def receiver_params_def wf_params_def zero_params_def strncpy_length)

definition sender_conn :: "ConfigParser \<Rightarrow> u16 \<Rightarrow> TCPControlClient \<Rightarrow> SDRConnection" where
  "sender_conn cfg udp cl = SDRConnection_new\<lparr>sc_is_receiver := False, sc_tcp_client := Some cl,
     sc_connection_ctx := program_ctx (sender_params cfg udp)\<rparr>"

definition receiver_conn :: "ConfigParser \<Rightarrow> u16 \<Rightarrow> TCPControlServer \<Rightarrow> SDRConnection" where
  "receiver_conn cfg udp srv = SDRConnection_new\<lparr>sc_is_receiver := True, sc_tcp_server := Some srv,
     sc_connection_ctx := program_ctx (receiver_params cfg udp)\<rparr>"


lemma receiver_starts:
  assumes "receiver_args argv = Parsed r" and "ra_mode r = SDR" and "receiver_works sys"
  shows "\<exists>srv closed. server_alive srv \<and> receiver_main files isal sys argv =
    (let cfg = snd (load_from_file ConfigParser_new (files (ra_config_file r))) in
     Parsed (run_bind (receiver_post SDR cfg (receiver_params cfg (ra_udp_port r)) (ra_message_size r)
         ((fresh_host ''receiver'' (\<lambda>_. []))\<lparr>hs_next_conn_id := 2\<rparr>)
         (receiver_conn cfg (ra_udp_port r) srv) (vs_events sys) (vs_post sys))
       (\<lambda>px. if px_rc px \<noteq> 0
             then Ret (failed_run (closed @ px_closed px @ sdr_disconnect (Some (px_conn px))) (px_out px) (px_host px))
             else receiver_transfer sys isal cfg SDR (ra_message_size r) px)))"
proof -
  let ?l = "TCPControlServer_new\<lparr>listen_fd := ls_socket (vs_listen sys), listen_port := ra_tcp_port r, is_listening := True\<rparr>"
  let ?srv = "?l\<lparr>client_fd := vs_accept sys\<rparr>"
  have ok: "listens (vs_listen sys)" "vs_accept sys \<ge> 0" using assms(3) by (simp_all add: receiver_works_def)
  have "start_listening TCPControlServer_new (ra_tcp_port r) (vs_listen sys) = (True, ?l, [])"
    using ok(1) by (simp add: start_listening_def listens_def TCPControlServer_new_def not_le not_less)
  then have listen: "sdr_listen (fresh_host ''receiver'' (\<lambda>_. [])) True (ra_tcp_port r) (vs_listen sys)
    = (Some (SDRConnection_new\<lparr>sc_is_receiver := True, sc_tcp_server := Some ?l,
        sc_connection_ctx := snd (cc_initialize ConnectionContext_new 1 zero_params)\<rparr>),
       (fresh_host ''receiver'' (\<lambda>_. []))\<lparr>hs_next_conn_id := 2\<rparr>, [])"
    by (simp add: sdr_listen_def new_connection_ctx_def allocate_connection_id_def fresh_host_def)
  obtain closed where acc: "accept_connection ?l (vs_accept sys) = (True, ?srv, closed)"
    using ok(2) by (simp add: accept_connection_def Let_def not_less)
  have alive: "server_alive ?srv" using ok(2) by (simp add: server_alive_def)
  show ?thesis
    using assms(1,2) acc alive
    by (intro exI [of _ ?srv] exI [of _ closed]) (simp add: receiver_main_def listen sdr_set_params_def receiver_conn_def
        program_ctx_def cc_initialize_def Let_def cong: if_cong)
qed

section \<open>The post\<close>

text \<open>The packet size and the other parameters the two programs agree on.\<close>

definition program_params :: "ConfigParser \<Rightarrow> u16 \<Rightarrow> ConfigParser \<Rightarrow> u16 \<Rightarrow> u64 \<Rightarrow> ConnectionParams" where
  "program_params cfgR udpR cfgS udpS n =
     negotiate (receiver_params cfgR udpR) (desired_params (sender_params cfgS udpS) n) n"

text \<open>The messages that the programs exchange: the OFFER, the CTS and the last message.\<close>

definition program_offer :: "ConfigParser \<Rightarrow> u16 \<Rightarrow> u64 \<Rightarrow> ControlMessage" where
  "program_offer cfg udp n = offer_message (program_ctx (sender_params cfg udp)) n"

definition program_cts :: "RecvPostSys \<Rightarrow> ConfigParser \<Rightarrow> u16 \<Rightarrow> ConfigParser \<Rightarrow> u16 \<Rightarrow> u64 \<Rightarrow> ControlMessage" where
  "program_cts sys cfgR udpR cfgS udpS n =
     cts_message (rps_locals sys) 1 ((program_params cfgR udpR cfgS udpS n)\<lparr>cp_transfer_id := 1\<rparr>)"

definition program_handle :: "u64 \<Rightarrow> SDRRecvHandle" where
  "program_handle n = \<lparr> rh_msg_id = 0, rh_generation = 1, rh_msg_ctx = (0, 1), rh_user_buffer = UserBuf 0, rh_buffer_size = n \<rparr>"

definition program_target :: "nat \<Rightarrow> u64 \<Rightarrow> Target" where
  "program_target mtu n = sender_target 1 0 mtu (test_payload (unat n)) 0 (replicate (unat n) 0)"

definition program_datagrams :: "ConnectionParams \<Rightarrow> u64 \<Rightarrow> u8 list set" where
  "program_datagrams p n = data_datagram 1 0 (cp_packets_per_chunk p) (unat (cp_mtu_bytes p)) (test_payload (unat n))
     ` {k. k * unat (cp_mtu_bytes p) < unat n}"

lemma program_params_usable:
  "cp_mtu_bytes (program_params cfgR udpR cfgS udpS n) \<noteq> 0" "cp_packets_per_chunk (program_params cfgR udpR cfgS udpS n) \<noteq> 0"
  "unat (cp_mtu_bytes (program_params cfgR udpR cfgS udpS n)) \<le> 65496"
proof -
  have "program_params cfgR udpR cfgS udpS n
      = agreed (receiver_conn cfgR udpR TCPControlServer_new) n (sender_conn cfgS udpS TCPControlClient_new) n"
    by (simp add: program_params_def agreed_def receiver_conn_def sender_conn_def)
  then show "cp_mtu_bytes (program_params cfgR udpR cfgS udpS n) \<noteq> 0" "cp_packets_per_chunk (program_params cfgR udpR cfgS udpS n) \<noteq> 0"
    "unat (cp_mtu_bytes (program_params cfgR udpR cfgS udpS n)) \<le> 65496"
    using agreed_usable by metis+
qed

text \<open>The message that a post leaves is one to be watched.\<close>

lemma posted_watching:
  assumes alloc: "allocate_message_slot (snd (cc_initialize (program_ctx q) 1 p)) 0 1 = (Some mc, cc1)"
    and mc: "mc_generation mc = 1" and sizes: "calculate_bitmap_sizes n (cp_mtu_bytes p) (cp_packets_per_chunk p) = (tp, tc)"
    and p: "cp_mtu_bytes p \<noteq> 0" "cp_packets_per_chunk p \<noteq> 0" and n: "n \<noteq> 0" "unat n + 2 ^ 33 \<le> 2 ^ 64"
    and few: "packet_count (unat n) (unat (cp_mtu_bytes p)) \<le> 2 ^ 18" and mem: "mem 0 = replicate (unat n) 0"
    and conn: "sc_connection_ctx conn = (update_message cc1 0
        (setup_message (UserBuf 0) n tp tc (p\<lparr>cp_transfer_id := 1\<rparr>)))\<lparr>cc_udp_socket_fd := fd\<rparr>"
  shows "watching (program_handle n) (program_target (unat (cp_mtu_bytes p)) n) (ucast tc) (conn, mem)" and "(ucast tc :: u32) \<noteq> 0"
    and "\<forall>c :: u32. c < ucast tc \<longleftrightarrow> unat c * (unat (cp_packets_per_chunk p) * unat (cp_mtu_bytes p)) < unat n"
proof -
  let ?T = "program_target (unat (cp_mtu_bytes p)) n" and ?mc = "setup_message (UserBuf 0) n tp tc (p\<lparr>cp_transfer_id := 1\<rparr>) mc"
  have pos: "0 < unat (cp_mtu_bytes p)" "0 < unat (cp_packets_per_chunk p)" using p by (simp_all add: unat_gt_0)
  have inv: "rx_inv ?T (seen_by (conn, mem))"
    using posted_state [OF program_ctx_wf alloc mc _ p _ _ sizes, of "test_payload (unat n)" mem 0 fd] few mem n(2)
    by (simp add: program_target_def seen_by_def conn)
  have d: "(\<forall>k. unat tp \<le> k \<longleftrightarrow> unat n \<le> k * unat (cp_mtu_bytes p))
      \<and> (\<forall>k. unat tc \<le> k \<longleftrightarrow> unat tp \<le> k * unat (cp_packets_per_chunk p))
      \<and> (unat tp + unat (cp_packets_per_chunk p) \<le> 2 ^ 32 \<and> unat tp + 63 < 2 ^ 32 \<longrightarrow>
           dims_ok (ucast tp) (cp_packets_per_chunk p) (ucast tc))"
    using bitmap_sizes [of n "cp_mtu_bytes p" "cp_packets_per_chunk p"] sizes p n(2)
      unat_width(3) [of "cp_packets_per_chunk p"] unat_width(5) [of "cp_mtu_bytes p"] by simp
  have "unat n \<le> packet_count (unat n) (unat (cp_mtu_bytes p)) * unat (cp_mtu_bytes p)"
    using packet_count_iff [OF pos(1), of "packet_count (unat n) (unat (cp_mtu_bytes p))" "unat n"] by simp
  then have tp: "unat tp \<le> 2 ^ 18" using d few by (meson order_trans)
  have "unat tp \<le> unat tp * unat (cp_packets_per_chunk p)" using pos(2) by simp
  then have tc: "unat tc \<le> unat tp" using d by blast
  have u: "unat (ucast tp :: u32) = unat tp" "unat (ucast tc :: u32) = unat tc" using tp tc by (simp_all add: unat_ucast_mod)
  have "unat tp + unat (cp_packets_per_chunk p) \<le> 2 ^ 32" "unat tp + 63 < 2 ^ 32"
    using tp unat_width(3) [of "cp_packets_per_chunk p"] by simp_all
  then have dims: "dims_ok (ucast tp) (cp_packets_per_chunk p) (ucast tc)" using d by blast
  have "unat tp \<le> 0 \<longleftrightarrow> unat n \<le> 0" using conjunct1 [OF d, THEN spec, of 0] by (simp only: mult_zero_left)
  then have "\<not> unat tp \<le> 0" using n(1) by (simp add: unat_gt_0)
  then have "\<not> unat tc \<le> 0" using d by (metis mult_zero_left)
  then show "(ucast tc :: u32) \<noteq> 0" using u(2) by auto
  have "unat tc \<le> k \<longleftrightarrow> unat n \<le> k * (unat (cp_packets_per_chunk p) * unat (cp_mtu_bytes p))" for k
    using d by (simp add: mult.assoc)
  then show "\<forall>c :: u32. c < ucast tc \<longleftrightarrow> unat c * (unat (cp_packets_per_chunk p) * unat (cp_mtu_bytes p)) < unat n"
    by (simp add: word_less_nat_alt u not_le [symmetric])
  have wide: "ucast (ucast tc :: u32) = tc" by (simp add: word_unat_eq_iff u)
  have slot: "cc_msg_table (sc_connection_ctx conn) ! 0 = Some ?mc"
  proof -
    have "slot_reusable (cc_msg_table (snd (cc_initialize (program_ctx q) 1 p)) ! unat (0 :: u32)) 1"
      using alloc by (auto simp: allocate_message_slot_def split: if_splits)
    from allocate_slot [OF cc_wf_initialize [OF program_ctx_wf] _ this]
    have "cc_msg_table cc1 = (cc_msg_table (snd (cc_initialize (program_ctx q) 1 p)))[0 := Some mc]"
      using alloc by (metis MAX_MESSAGES_def option.inject prod.inject unat_0 zero_less_numeral)
    then have "cc_msg_table cc1 ! 0 = Some mc" "0 < length (cc_msg_table cc1)"
      by (simp_all add: cc_initialize_def MAX_MESSAGES_def)
    then show ?thesis by (simp add: conn update_message_def)
  qed
  have deref: "deref_ctx conn (program_handle n) = Some ?mc"
    by (simp add: deref_ctx_def program_handle_def slot mc)
  let ?b = "BackendBitmap_new (ucast tp) (cp_packets_per_chunk p)"
  let ?f = "snd (start_polling (FrontendBitmap_new (Some ?b) (ucast tc)) 100)"
  have "bitmaps_agree ?mc (ucast tc) ?b ?f"
  proof -
    have "mc_frontend ?mc = Some ?f" "mc_backend ?mc = Some ?b" "mc_total_chunks ?mc = tc" "mc_packets_per_chunk ?mc \<noteq> 0"
      using p(2) by (simp_all add: setup_message_def Let_def)
    moreover have "bb_wf ?b" using new_wf [of "ucast tp"] tp u by simp
    moreover have "fb_wf (FrontendBitmap_new (Some ?b) (ucast tc))" "marked (FrontendBitmap_new (Some ?b) (ucast tc)) = {}"
      using fb_new_wf [of "ucast tc"] tp tc u by simp_all
    then have "fb_wf ?f" "marked ?f = {}" by (simp_all add: start_polling_def)
    moreover have "chunks_cover ?b ?f" "fb_total_chunks ?f = ucast tc"
      using dims by (simp_all add: start_polling_def chunks_cover_def bb_room_def dims_ok_def)
    ultimately show ?thesis by (simp add: bitmaps_agree_def wide)
  qed
  then show "watching (program_handle n) ?T (ucast tc) (conn, mem)"
    using inv deref by (auto simp: watching_def program_handle_def program_target_def slot_of_def)
qed

section \<open>The receiving program\<close>

text \<open>
  The other threads of the receiver move in the gaps between the steps of the main thread: in turn \<open>i\<close>
  before it reads the bitmaps and before it may leave the loop, after the loop before the bytes are
  checked, and before \<open>sdr_recv_complete\<close>.  In every gap they make any number of moves in any order: the
  sender's datagrams arrive, lost, reordered and repeated as the network likes, and the poller checks
  chunks of the message.
\<close>

datatype Gap = Reading nat | Attempting nat | Verifying | Completing

definition program_chunks :: "ConnectionParams \<Rightarrow> u64 \<Rightarrow> u32 set" where
  "program_chunks p n = {c. unat c * (unat (cp_packets_per_chunk p) * unat (cp_mtu_bytes p)) < unat n}"

definition program_moves :: "ConnectionParams \<Rightarrow> u64 \<Rightarrow> Move set" where
  "program_moves p n = Arrive ` program_datagrams p n \<union> Check ` program_chunks p n"

definition program_net :: "ConnectionParams \<Rightarrow> u64 \<Rightarrow> (Gap \<Rightarrow> Move list) \<Rightarrow> ReceiverSys \<Rightarrow> bool" where
  "program_net p n moves sys \<longleftrightarrow> (\<forall>g. set (moves g) \<subseteq> program_moves p n)
     \<and> (\<forall>i. le_workers (vs_env sys i) = moved (program_handle n) (moves (Reading i))
          \<and> le_workers2 (vs_env sys i) = moved (program_handle n) (moves (Attempting i)))
     \<and> vs_workers sys = moved (program_handle n) (moves Verifying)
     \<and> vs_workers2 sys = moved (program_handle n) (moves Completing)"

text \<open>The moves made before turn \<open>j\<close>, and all that has to be made in time: every datagram has arrived and every
  chunk has been checked after that, before one of the million turns reads the bitmaps.\<close>

definition so_far :: "(Gap \<Rightarrow> Move list) \<Rightarrow> nat \<Rightarrow> Move list" where
  "so_far moves j = concat (map (\<lambda>i. moves (Reading i) @ moves (Attempting i)) [0..<j])"

definition in_time :: "u8 list set \<Rightarrow> u32 set \<Rightarrow> (Gap \<Rightarrow> Move list) \<Rightarrow> bool" where
  "in_time ds chunks moves \<longleftrightarrow> (\<exists>j < MAX_ITERATIONS. \<exists>first_moves then_moves.
     so_far moves j @ moves (Reading j) = first_moves @ then_moves
     \<and> Arrive ` ds \<subseteq> set first_moves \<and> Check ` chunks \<subseteq> set then_moves)"


lemma net_moves:
  fixes p :: ConnectionParams and n :: u64
  defines "T \<equiv> program_target (unat (cp_mtu_bytes p)) n" and "h \<equiv> program_handle n"
  assumes chunks: "\<forall>c. c < tc \<longleftrightarrow> c \<in> program_chunks p n"
    and mtu: "unat (cp_mtu_bytes p) \<noteq> 0" "unat (cp_mtu_bytes p) \<le> 65496"
    and few: "packet_count (unat n) (unat (cp_mtu_bytes p)) \<le> 2 ^ 18" and ms: "set ms \<subseteq> program_moves p n"
  shows "watching h T tc s \<Longrightarrow> \<exists>s'. make_moves h ms s = Some s' \<and> moved h ms s = s' \<and> watching h T tc s'
      \<and> (Arrive ` program_datagrams p n \<subseteq> set ms \<longrightarrow> {k. k * unat (cp_mtu_bytes p) < unat n} \<subseteq> rx_received T (seen_by s'))
      \<and> ({k. k * unat (cp_mtu_bytes p) < unat n} \<subseteq> rx_received T (seen_by s) \<and> Check ` program_chunks p n \<subseteq> set ms \<longrightarrow>
            full_marks h tc s')"
    and "advances h T tc (moved h ms)"
proof -
  let ?mtu = "unat (cp_mtu_bytes p)"
  let ?dgram = "data_datagram 1 0 (cp_packets_per_chunk p) ?mtu (test_payload (unat n))"
  have few': "\<forall>k. k * ?mtu < length (test_payload (unat n)) \<longrightarrow> k < 2 ^ 18"
  proof (intro allI impI)
    fix k assume "k * ?mtu < length (test_payload (unat n))"
    then have "k < packet_count (unat n) ?mtu" using packet_count_iff [of ?mtu k "unat n"] mtu(1) by simp
    then show "k < 2 ^ 18" using few by (rule less_le_trans)
  qed
  have T': "T = sender_target 1 0 ?mtu (test_payload (unat n)) 0 (replicate (unat n) 0)"
    by (simp add: T_def program_target_def)
  have D: "program_datagrams p n = ?dgram ` {k. k * ?mtu < length (test_payload (unat n))}" by (simp add: program_datagrams_def)
  have ms': "set ms \<subseteq> legal_moves tc (program_datagrams p n)" using ms chunks by (auto simp: legal_moves_def program_moves_def)
  show "advances h T tc (moved h ms)" by (rule moved_advances [OF T' mtu(2) few' D ms'])
  show "\<exists>s'. make_moves h ms s = Some s' \<and> moved h ms s = s' \<and> watching h T tc s'
      \<and> (Arrive ` program_datagrams p n \<subseteq> set ms \<longrightarrow> {k. k * ?mtu < unat n} \<subseteq> rx_received T (seen_by s'))
      \<and> ({k. k * ?mtu < unat n} \<subseteq> rx_received T (seen_by s) \<and> Check ` program_chunks p n \<subseteq> set ms \<longrightarrow> full_marks h tc s')"
    if W: "watching h T tc s"
  proof -
    obtain s' where s': "make_moves h ms s = Some s'" "grown h T tc s s'"
      "{k. k * ?mtu < length (test_payload (unat n)) \<and> Arrive (?dgram k) \<in> set ms} \<subseteq> rx_received T (seen_by s')"
      "{k. k * ?mtu < length (test_payload (unat n))} \<subseteq> rx_received T (seen_by s) \<longrightarrow> {unat c | c. Check c \<in> set ms} \<subseteq> marks_of h s'"
      using moves_ok [OF T' mtu(2) few' D W ms'] by (elim exE conjE) (rule that)
    have "{k. k * ?mtu < unat n} \<subseteq> rx_received T (seen_by s')" if "Arrive ` program_datagrams p n \<subseteq> set ms"
      using s'(3) that by (auto simp: D)
    moreover have "full_marks h tc s'"
      if all: "{k. k * ?mtu < unat n} \<subseteq> rx_received T (seen_by s)" and c: "Check ` program_chunks p n \<subseteq> set ms"
    proof -
      have "{unat c | c. Check c \<in> set ms} \<subseteq> marks_of h s'" using s'(4) all by simp
      moreover have "k \<in> {unat c | c. Check c \<in> set ms}" if "k < unat tc" for k
      proof -
        have k: "unat (of_nat k :: u32) = k" using that by (rule unat_of_nat_below)
        then have "(of_nat k :: u32) < tc" using that by (simp add: word_less_nat_alt)
        then have "Check (of_nat k) \<in> set ms" using chunks c by blast
        then show ?thesis using k by (metis (mono_tags, lifting) mem_Collect_eq)
      qed
      ultimately show ?thesis by (auto simp: full_marks_def)
    qed
    ultimately show ?thesis using s'(1,2) by (simp add: moved_def grown_def)
  qed
qed

text \<open>The sending program's messages, and the receiving program's, the last of which tells whether all has come.\<close>

definition sender_messages :: "SendPostSys \<Rightarrow> ConfigParser \<Rightarrow> u16 \<Rightarrow> u64 \<Rightarrow> ControlMessage \<Rightarrow> u8 list list" where
  "sender_messages sys cfg udp n cts =
     [message_image (sps_pad sys) (program_offer cfg udp n), message_image (sps_pad sys) (accept_message cts)]"


lemma receiver_conn_ready:
  assumes "server_alive srv" and "receiver_works sys" and "n \<noteq> 0"
  shows "receiver_ready (with_buffer ((fresh_host name m)\<lparr>hs_next_conn_id := 2\<rparr>) k) (receiver_conn cfg udp srv) (UserBuf 0) n (vs_post sys)"
  using assms
  by (simp add: receiver_ready_def receiver_conn_def program_ctx_wf program_params_wf slot_free_def slot_reusable_def
      receiver_works_def SDRConnection_new_def with_buffer_def fresh_host_def sdr_ctx_create_def MAX_MESSAGES_def)

lemma program_cts_of:
  "cts_of (with_buffer ((fresh_host name m)\<lparr>hs_next_conn_id := 2\<rparr>) k) (receiver_conn cfgR udpR srv) n sys
      (cm_params (program_offer cfgS udpS n)) = program_cts sys cfgR udpR cfgS udpS n"
  by (simp add: cts_of_def program_cts_def program_params_def program_offer_def offer_message_def receiver_conn_def
      with_buffer_def fresh_host_def)

lemma program_messages_valid:
  fixes cfgR cfgS :: ConfigParser and udpR udpS :: u16 and n :: u64
  assumes "receiver_works sys"
  defines "cts \<equiv> program_cts (vs_post sys) cfgR udpR cfgS udpS n"
  shows "valid_message (program_offer cfgS udpS n)" "wanted OFFER (program_offer cfgS udpS n)"
    "valid_message cts" "wanted CTS cts" "valid_message (accept_message cts)" "wanted ACCEPT (accept_message cts)"
    "cm_params cts = (program_params cfgR udpR cfgS udpS n)\<lparr>cp_transfer_id := 1\<rparr>"
proof -
  have wf: "wf_message (rps_locals (vs_post sys))" using assms(1) by (simp add: receiver_works_def)
  show "valid_message (program_offer cfgS udpS n)" "wanted OFFER (program_offer cfgS udpS n)"
    using offer_valid [of "program_ctx (sender_params cfgS udpS)" n] by (simp_all add: program_offer_def program_params_wf)
  show cts: "valid_message cts" "wanted CTS cts"
    using cts_valid [OF wf, of "receiver_conn cfgR udpR TCPControlServer_new"
        "with_buffer ((fresh_host [] (\<lambda>_. []))\<lparr>hs_next_conn_id := 2\<rparr>) 0" n "cm_params (program_offer cfgS udpS n)"]
    unfolding program_cts_of cts_def by (simp_all add: receiver_conn_def program_params_wf)
  then have "wf_params (cm_params cts)" by (simp add: valid_message_def wf_message_def)
  then show "valid_message (accept_message cts)" "wanted ACCEPT (accept_message cts)" using accept_valid by auto
  show "cm_params cts = (program_params cfgR udpR cfgS udpS n)\<lparr>cp_transfer_id := 1\<rparr>"
    by (simp add: cts_def program_cts_def cts_message_def)
qed

text \<open>The program gets as far as its loop, with the message posted.\<close>

lemma program_posted:
  fixes files :: "string \<Rightarrow> string option" and cfgS :: ConfigParser and udpS :: u16
  assumes args: "receiver_args argv = Parsed r" "ra_mode r = SDR" "ra_message_size r = n"
    and works: "receiver_works sys" and n: "n \<noteq> 0" "unat n + 2 ^ 33 \<le> 2 ^ 64"
  defines "cfg \<equiv> snd (load_from_file ConfigParser_new (files (ra_config_file r)))"
  defines "p \<equiv> program_params cfg (ra_udp_port r) cfgS udpS n"
    and "cts \<equiv> program_cts (vs_post sys) cfg (ra_udp_port r) cfgS udpS n"
  assumes few: "packet_count (unat n) (unat (cp_mtu_bytes p)) \<le> 2 ^ 18"
    and evs: "vs_events sys = map EvData (sender_messages ssys cfgS udpS n cts)"
  shows "\<exists>px tc. receiver_main files isal sys argv = Parsed (receiver_transfer sys isal cfg SDR n px)
    \<and> (\<forall>c. c < tc \<longleftrightarrow> c \<in> program_chunks p n) \<and> plain_posted px (program_handle n) (program_target (unat (cp_mtu_bytes p)) n) tc n
    \<and> px_out px = message_image (rps_pad (vs_post sys)) cts \<and> cc_connection_id (sc_connection_ctx (px_conn px)) = 1"
proof -
  let ?udp = "ra_udp_port r" and ?T = "program_target (unat (cp_mtu_bytes p)) n" and ?h = "program_handle n"
  let ?host = "(fresh_host ''receiver'' (\<lambda>_. []))\<lparr>hs_next_conn_id := 2\<rparr>"
  obtain srv closed where srv: "server_alive srv" and main: "receiver_main files isal sys argv =
     Parsed (run_bind (receiver_post SDR cfg (receiver_params cfg ?udp) n ?host (receiver_conn cfg ?udp srv) (vs_events sys) (vs_post sys))
       (\<lambda>px. if px_rc px \<noteq> 0
             then Ret (failed_run (closed @ px_closed px @ sdr_disconnect (Some (px_conn px))) (px_out px) (px_host px))
             else receiver_transfer sys isal cfg SDR n px))"
    using receiver_starts [OF args(1,2) works, of files isal] unfolding Let_def args(3) cfg_def [symmetric] by blast
  let ?conn = "receiver_conn cfg ?udp srv" and ?bhost = "with_buffer ?host (unat n)"
  have ready: "receiver_ready ?bhost ?conn (UserBuf 0) n (vs_post sys)" by (rule receiver_conn_ready [OF srv works n(1)])
  note valid = program_messages_valid(1,2) [OF works, of cfgS udpS n]
    program_messages_valid(5,6) [OF works, of cfg ?udp cfgS udpS n, folded cts_def]
  have neg: "negotiate (cc_params (program_ctx (receiver_params cfg ?udp))) (cm_params (program_offer cfgS udpS n)) n = p"
    by (simp add: p_def program_params_def program_offer_def offer_message_def receiver_conn_def)
  have zero: "ctx_next_msg_id (hs_ctx ?bhost) mod 1024 = 0" "hs_receiver_generation_counter ?bhost = 1"
    "cc_connection_id (program_ctx (receiver_params cfg ?udp)) = 1"
    "cc_generation_counters (program_ctx (receiver_params cfg ?udp)) ! unat (0 :: u32) = 1"
    "sc_connection_ctx ?conn = program_ctx (receiver_params cfg ?udp)" "sc_tcp_server ?conn = Some srv"
    by (simp_all add: with_buffer_def fresh_host_def sdr_ctx_create_def receiver_conn_def MAX_MESSAGES_def)
  have evs': "vs_events sys = [EvData (message_image (sps_pad ssys) (program_offer cfgS udpS n)),
      EvData (message_image (sps_pad ssys) (accept_message cts))]" by (simp add: evs sender_messages_def)
  obtain mc cc1 tp tc fd RP where rp: "sdr_recv_post ?bhost ?conn True (UserBuf 0) n True (vs_events sys) (vs_post sys) = Ret RP"
    "rp_rc RP = 0" "rp_out RP = message_image (rps_pad (vs_post sys)) cts" "rp_handle RP = Some ?h"
    "hs_mem (rp_host RP) = hs_mem ?bhost"
    "allocate_message_slot (snd (cc_initialize (program_ctx (receiver_params cfg ?udp)) 1 p)) 0 1 = (Some mc, cc1)"
    "mc_generation mc = 1" "calculate_bitmap_sizes n (cp_mtu_bytes p) (cp_packets_per_chunk p) = (tp, tc)"
    "sc_connection_ctx (rp_conn RP) = (update_message cc1 0
        (setup_message (UserBuf 0) n tp tc (p\<lparr>cp_transfer_id := 1\<rparr>)))\<lparr>cc_udp_socket_fd := fd\<rparr>"
    "sc_is_receiver (rp_conn RP)" "sc_tcp_server (rp_conn RP) = Some srv" "cc_connection_id (sc_connection_ctx (rp_conn RP)) = 1"
    using recv_post_ok [OF ready valid, of "sps_pad ssys" "sps_pad ssys" "[]", unfolded zero neg program_cts_of,
        folded evs' cts_def program_handle_def]
    by (elim exE conjE) (rule that, assumption+, simp, assumption+)
  note use = program_params_usable [of cfg ?udp cfgS udpS n, folded p_def]
  have mem: "hs_mem (rp_host RP) 0 = replicate (unat n) 0" by (simp add: rp(5) with_buffer_def)
  note W = posted_watching [where mem = "hs_mem (rp_host RP)", OF rp(6-8) use(1,2) n few mem rp(9)]
  let ?px = "posted_of RP"
  have P: "plain_posted ?px ?h ?T (ucast tc) n"
    using W srv rp(4,10,11) by (simp add: plain_posted_def posted_of_def program_handle_def program_target_def)
  have "receiver_main files isal sys argv = Parsed (receiver_transfer sys isal cfg SDR n ?px)"
    using rp(2) by (simp add: main receiver_post_def rp(1)) (simp add: posted_of_def)
  moreover have "px_out ?px = message_image (rps_pad (vs_post sys)) cts" "cc_connection_id (sc_connection_ctx (px_conn ?px)) = 1"
    by (simp_all add: posted_of_def rp(3,12))
  moreover have "\<forall>c :: u32. c < ucast tc \<longleftrightarrow> c \<in> program_chunks p n" using W(3) by (simp add: program_chunks_def)
  ultimately show ?thesis using P by blast
qed


section \<open>The sending program\<close>



lemma datagrams_listed:
  "0 < unat (cp_mtu_bytes p) \<Longrightarrow> data_datagram 1 0 (cp_packets_per_chunk p) (unat (cp_mtu_bytes p)) (test_payload (unat n))
      ` {0..<packet_count (unat n) (unat (cp_mtu_bytes p))} = program_datagrams p n"
  using packet_count_iff [of "unat (cp_mtu_bytes p)" _ "unat n"] by (auto simp: program_datagrams_def)


section \<open>Properties\<close>


text \<open>
  A run with the default sizes.  Chunk 5 is checked at once; the datagrams arrive in the second turn, the last
  one first and twice, with a check between; and in the third turn all 128 chunks are checked.
\<close>

definition demo_params_agreed :: ConnectionParams where
  "demo_params_agreed = program_params ConfigParser_new 9999 ConfigParser_new 9999 1048576"

definition demo_arrivals :: "Move list" where
  "demo_arrivals = map (\<lambda>k. Arrive (data_datagram 1 0 (cp_packets_per_chunk demo_params_agreed)
     (unat (cp_mtu_bytes demo_params_agreed)) (test_payload 1048576) k)) (rev [0..<8192])"

definition demo_checks :: "Move list" where
  "demo_checks = map (\<lambda>c. Check (of_nat c)) [0..<128]"

definition demo_moves :: "Gap \<Rightarrow> Move list" where
  "demo_moves g = (if g = Reading 0 then [Check 5] else if g = Attempting 1 then demo_arrivals @ Check 7 # demo_arrivals
     else if g = Reading 2 then demo_checks else [])"

definition demo_sender_sys :: SenderSys where
  "demo_sender_sys = \<lparr> ss_connect = \<lparr>cs_socket = 5, cs_inet_pton = 1, cs_connect = 0\<rparr>,
     ss_post = \<lparr>sps_offer = 288, sps_accept = 288, sps_socket = 8, sps_inet_pton = (\<lambda>_. 1), sps_sendto = (\<lambda>_. 160),
                sps_pad = (\<lambda>_. 0)\<rparr>,
     ss_sr = \<lparr>sy_now = (\<lambda>_. 0), sy_socket = (\<lambda>_. 8), sy_inet_pton = (\<lambda>_. 1)\<rparr>, ss_socket = (\<lambda>_. 8), ss_events = []\<rparr>"

definition demo_receiver_sys :: ReceiverSys where
  "demo_receiver_sys = \<lparr> vs_listen = \<lparr>ls_socket = 3, ls_setsockopt = 0, ls_bind = 0, ls_listen = 0\<rparr>, vs_accept = 4,
     vs_post = demo_rsys, vs_events = [], vs_first_progress = 0,
     vs_env = (\<lambda>i. \<lparr> le_workers = moved (program_handle 1048576) (demo_moves (Reading i)),
        le_workers2 = moved (program_handle 1048576) (demo_moves (Attempting i)), le_progress_time = 1000000, le_now = 2000000, le_pump_first = 0, le_pump_now = 0,
        le_sent = 0, le_pad = (\<lambda>_. 0)\<rparr>),
     vs_workers = moved (program_handle 1048576) (demo_moves Verifying),
     vs_workers2 = moved (program_handle 1048576) (demo_moves Completing),
     vs_sent = 288, vs_pad = (\<lambda>_. 0), vs_locals = zero_message\<rparr>"

lemma demo_programs:
  "sender_works demo_sender_sys" "receiver_works demo_receiver_sys" "\<not> stalls demo_receiver_sys"
  "cp_mtu_bytes demo_params_agreed = 128" "cp_packets_per_chunk demo_params_agreed = 64"
  "program_net demo_params_agreed 1048576 demo_moves demo_receiver_sys"
  "in_time (program_datagrams demo_params_agreed 1048576) (program_chunks demo_params_agreed 1048576) demo_moves"
proof -
  show "sender_works demo_sender_sys" by (simp add: sender_works_def demo_sender_sys_def connects_def message_size_def)
  have "wf_message zero_message" by (simp add: wf_message_def zero_message_def)
  then show "receiver_works demo_receiver_sys"
    by (simp add: receiver_works_def demo_receiver_sys_def listens_def demo_rsys_def channel_opens_def message_size_def)
  show "\<not> stalls demo_receiver_sys"
    by (simp add: stalls_def gives_up_def late_def demo_receiver_sys_def)
  show mtu: "cp_mtu_bytes demo_params_agreed = 128" and ppc: "cp_packets_per_chunk demo_params_agreed = 64"
    by (simp_all add: demo_params_agreed_def program_params_def negotiate_fields receiver_params_def ConfigParser_new_def
        get_uint32_def min_def)
  have "program_datagrams demo_params_agreed 1048576 = data_datagram 1 0 (cp_packets_per_chunk demo_params_agreed)
     (unat (cp_mtu_bytes demo_params_agreed)) (test_payload 1048576) ` {0..<8192}"
    using datagrams_listed [of demo_params_agreed 1048576] by (simp add: mtu packet_count_def)
  then have arrive: "set demo_arrivals = Arrive ` program_datagrams demo_params_agreed 1048576"
    by (simp add: demo_arrivals_def image_image)
  have chunk: "c \<in> program_chunks demo_params_agreed 1048576 \<longleftrightarrow> unat c < 128" for c
    by (simp add: program_chunks_def mtu ppc)
  have check: "set demo_checks = Check ` program_chunks demo_params_agreed 1048576"
  proof (intro set_eqI iffI)
    fix m assume "m \<in> set demo_checks"
    then obtain c where c: "m = Check (of_nat c)" "c < 128" by (auto simp: demo_checks_def)
    then have "unat (of_nat c :: u32) = c" by (intro unat_of_nat_small) simp
    then show "m \<in> Check ` program_chunks demo_params_agreed 1048576" using c chunk by simp
  next
    fix m assume "m \<in> Check ` program_chunks demo_params_agreed 1048576"
    then obtain c where "m = Check c" "unat c < 128" using chunk by auto
    then show "m \<in> set demo_checks" by (auto simp: demo_checks_def intro!: image_eqI [of _ _ "unat c"])
  qed
  have "5 \<in> program_chunks demo_params_agreed 1048576" "7 \<in> program_chunks demo_params_agreed 1048576" by (simp_all add: chunk)
  then have "set (demo_moves g) \<subseteq> program_moves demo_params_agreed 1048576" for g
    using arrive check by (auto simp: demo_moves_def program_moves_def)
  then show "program_net demo_params_agreed 1048576 demo_moves demo_receiver_sys"
    by (simp add: program_net_def demo_receiver_sys_def)
  have early: "so_far demo_moves 2 @ demo_moves (Reading 2) = ([Check 5] @ demo_arrivals @ Check 7 # demo_arrivals) @ demo_checks"
    by (simp add: so_far_def upt_rec demo_moves_def)
  have soon: "2 < MAX_ITERATIONS" by (simp add: MAX_ITERATIONS_def)
  show "in_time (program_datagrams demo_params_agreed 1048576) (program_chunks demo_params_agreed 1048576) demo_moves"
    unfolding in_time_def
    by (intro exI [of _ 2] conjI soon exI [of _ "[Check 5] @ demo_arrivals @ Check 7 # demo_arrivals"] exI [of _ demo_checks] early)
      (auto simp: arrive check)
qed


text \<open>C37: A window of no chunks ends the receiver.  Let the receiver be started in the plain mode with a message
  size as in \<open>programs_transfer\<close> (at most \<open>2^18\<close> packets), let all its system calls succeed, let the sender's OFFER
  and ACCEPT arrive, and let its other threads make moves as there, any of them at any time.  If its
  configuration sets \<open>window_size\<close> to 0, the sender's default for the same key, the program ends in undefined
  behaviour: there is a \<open>k\<close> below 50 such that \<open>k\<close> turns of the loop run, seeing no complete chunk, and the
  next one calls the display, which faults with the window 0 and with no other window, so what faults is the
  division by it.  The faulting turn finds a complete chunk marked, or it is the fiftieth.\<close>

theorem zero_window_crashes:
  fixes n :: u64 and files :: "string \<Rightarrow> string option" and cfgS :: ConfigParser and udpS :: u16
  assumes args: "receiver_args argv = Parsed r" "ra_mode r = SDR" "ra_message_size r = n"
    and works: "receiver_works sys" and n: "n \<noteq> 0" "unat n + 2 ^ 33 \<le> 2 ^ 64"
  defines "cfg \<equiv> snd (load_from_file ConfigParser_new (files (ra_config_file r)))"
  defines "p \<equiv> program_params cfg (ra_udp_port r) cfgS udpS n"
    and "cts \<equiv> program_cts (vs_post sys) cfg (ra_udp_port r) cfgS udpS n"
  assumes window: "get_uint32 cfg ''window_size'' 15 = 0"
    and few: "packet_count (unat n) (unat (cp_mtu_bytes p)) \<le> 2 ^ 18" and net: "program_net p n moves sys"
    and evs: "vs_events sys = map EvData (sender_messages ssys cfgS udpS n cts)"
  shows "receiver_main files isal sys argv = Parsed Crash
    \<and> (\<exists>px mc k st shown. receiver_main files isal sys argv = Parsed (receiver_transfer sys isal cfg SDR n px)
        \<and> load_handle_ctx (px_handle px) (px_conn px) = Some (Some mc)
        \<and> k < 50 \<and> rx_loop isal (px_handle px) 0 30 (vs_env sys) k (loop_start sys px (mc_total_chunks mc)) = Ret st
        \<and> lo_iterations st = of_nat k \<and> lo_chunks_received st = 0
        \<and> rx_turn isal (px_handle px) 0 30 (vs_env sys k) st = Crash
        \<and> calls_display (program_handle n) (vs_env sys k) st shown \<and> display_progress (px_handle px) 0 shown = None
        \<and> (\<forall>w. w \<noteq> 0 \<longrightarrow> display_progress (px_handle px) w shown \<noteq> None)
        \<and> (marks_of (program_handle n) (le_workers (vs_env sys k) (lo_conn st, lo_mem st)) \<noteq> {} \<or> k = 49))"
proof -
  let ?T = "program_target (unat (cp_mtu_bytes p)) n" and ?h = "program_handle n"
  obtain px tc where main: "receiver_main files isal sys argv = Parsed (receiver_transfer sys isal cfg SDR n px)"
    and chunks: "\<forall>c. c < tc \<longleftrightarrow> c \<in> program_chunks p n" and P: "plain_posted px ?h ?T tc n"
    using program_posted [OF args works n, where files = files and cfgS = cfgS and udpS = udpS, folded cfg_def,
        folded p_def cts_def, OF few evs, of isal] by (elim exE conjE) (rule that)
  note use = program_params_usable [of cfg "ra_udp_port r" cfgS udpS n, folded p_def]
  have mtu: "unat (cp_mtu_bytes p) \<noteq> 0" using use(1) by (simp add: unat_eq_zero)
  have adv: "\<forall>i. advances ?h ?T tc (le_workers (vs_env sys i)) \<and> advances ?h ?T tc (le_workers2 (vs_env sys i))"
    using net net_moves(2) [OF chunks mtu use(3) few] by (simp add: program_net_def)
  have h: "px_handle px = Some ?h" using P by (simp add: plain_posted_def)
  obtain mc where mc: "load_handle_ctx (px_handle px) (px_conn px) = Some (Some mc)"
    using P by (auto simp: plain_posted_def watching_def load_handle_ctx_def)
  note total = zero_window_transfer(2) [OF P adv window mc]
  have crash: "receiver_main files isal sys argv = Parsed Crash"
    using zero_window_transfer(1) [OF P adv window, of isal] by (simp add: main)
  obtain k st shown where k: "k < 50" "rx_loop isal (Some ?h) 0 30 (vs_env sys) k (loop_start sys px (ucast tc)) = Ret st"
    "lo_iterations st = of_nat k" "lo_chunks_received st = 0" "rx_turn isal (Some ?h) 0 30 (vs_env sys k) st = Crash"
    "calls_display ?h (vs_env sys k) st shown" "display_progress (Some ?h) 0 shown = None"
    "\<forall>w. w \<noteq> 0 \<longrightarrow> display_progress (Some ?h) w shown \<noteq> None"
    "marks_of ?h (le_workers (vs_env sys k) (lo_conn st, lo_mem st)) \<noteq> {} \<or> k = 49"
    using zero_window_transfer(1) [OF P adv window, of isal] by (elim exE conjE) (rule that)
  show ?thesis
    by (intro conjI crash exI [of _ px] exI [of _ mc] exI [of _ k] exI [of _ st] exI [of _ shown] main mc k(1)
        k(2) [folded h total] k(3,4,6,9) k(5,7,8) [folded h])
qed

theorem zero_window_crashes_witness:
  "receiver_main (\<lambda>_. Some (''window_size=0'' @ [newline])) None
     (demo_receiver_sys\<lparr>vs_events := map EvData (sender_messages (ss_post demo_sender_sys) ConfigParser_new 9999 1048576
        (program_cts demo_rsys (ConfigParser_new\<lparr>config_map := [''window_size'' \<mapsto> ''0'']\<rparr>) 9999 ConfigParser_new 9999 1048576))\<rparr>)
     [''receiver'', ''8888'', ''9999'', ''plain.cfg''] = Parsed Crash
   \<and> (\<exists>(px :: RxPosted) k st shown. k < 50 \<and> calls_display (program_handle 1048576) (vs_env demo_receiver_sys k) st shown
        \<and> display_progress (px_handle px) 0 shown = None \<and> (\<forall>w. w \<noteq> 0 \<longrightarrow> display_progress (px_handle px) w shown \<noteq> None))"
proof -
  let ?r = "\<lparr> ra_mode = SDR, ra_tcp_port = 8888, ra_udp_port = 9999, ra_message_size = 1024 * 1024, ra_config_file = ''plain.cfg'' \<rparr>"
  let ?cfg = "ConfigParser_new\<lparr>config_map := [''window_size'' \<mapsto> ''0'']\<rparr>"
  let ?sys = "demo_receiver_sys\<lparr>vs_events := map EvData (sender_messages (ss_post demo_sender_sys) ConfigParser_new 9999 1048576
        (program_cts demo_rsys ?cfg 9999 ConfigParser_new 9999 1048576))\<rparr>"
  have args: "receiver_args [''receiver'', ''8888'', ''9999'', ''plain.cfg''] = Parsed ?r" "ra_mode ?r = SDR" "ra_message_size ?r = 1048576"
    by (simp_all add: receiver_args_def mode_flag_def small_numbers)
  have lines: "getlines (''window_size=0'' @ [newline]) = [''window_size=0'']"
    using getlines_unlines [of "[''window_size=0'']"] by (simp add: newline_def)
  have cfg: "snd (load_from_file ConfigParser_new (Some (''window_size=0'' @ [newline]))) = ?cfg"
    using parse_entries [of "[(''window_size'', ''0'')]" "[]" "ConfigParser_new\<lparr>config_map := Map.empty\<rparr>"]
    unfolding load_from_file_def Let_def option.case lines
    by (simp add: entry_line_def key_ok_def value_ok_def clean_def blank_def newline_def)
  have p: "cp_mtu_bytes (program_params ?cfg 9999 ConfigParser_new 9999 1048576) = 128"
      "cp_packets_per_chunk (program_params ?cfg 9999 ConfigParser_new 9999 1048576) = cp_packets_per_chunk demo_params_agreed"
    by (simp_all add: demo_params_agreed_def program_params_def negotiate_fields receiver_params_def ConfigParser_new_def
        get_uint32_def min_def)
  have few: "packet_count (unat (1048576 :: u64)) (unat (cp_mtu_bytes (program_params ?cfg 9999 ConfigParser_new 9999 1048576))) \<le> 2 ^ 18"
    by (simp add: packet_count_def p(1))
  have net: "program_net (program_params ?cfg 9999 ConfigParser_new 9999 1048576) 1048576 demo_moves ?sys"
    using demo_programs(4,6) by (simp add: program_net_def program_moves_def program_datagrams_def program_chunks_def p)
  have n: "(1048576 :: u64) \<noteq> 0" "unat (1048576 :: u64) + 2 ^ 33 \<le> 2 ^ 64" by simp_all
  have works: "receiver_works ?sys" "vs_post ?sys = demo_rsys" "ra_udp_port ?r = 9999"
    using demo_programs(2) by (simp_all add: receiver_works_def demo_receiver_sys_def)
  have window: "get_uint32 ?cfg ''window_size'' 15 = 0"
    by (simp add: get_uint32_def stoul_def is_space_def is_digit_def char_code_def digits_value_def Let_def)
  have evs: "vs_events ?sys = map EvData (sender_messages (ss_post demo_sender_sys) ConfigParser_new 9999 1048576
        (program_cts demo_rsys ?cfg 9999 ConfigParser_new 9999 1048576))" by simp
  note fault = zero_window_crashes [where files = "\<lambda>_. Some (''window_size=0'' @ [newline])" and cfgS = ConfigParser_new and udpS = 9999,
        OF args works(1) n, unfolded cfg works(2,3), OF window few net evs, of None]
  from conjunct2 [OF fault] obtain px :: RxPosted and k st shown where "k < 50" "calls_display (program_handle 1048576) (vs_env ?sys k) st shown"
    "display_progress (px_handle px) 0 shown = None" "\<forall>w. w \<noteq> 0 \<longrightarrow> display_progress (px_handle px) w shown \<noteq> None"
    by blast
  then show ?thesis
    using conjunct1 [OF fault] by (intro conjI exI [of _ px] exI [of _ k] exI [of _ st] exI [of _ shown]) simp_all
qed

end
