(* ===== verification/Library_Safety.thy ===== *)
theory Library_Safety
  imports Receiver_Watch
begin

text \<open>
  The receiving side of the library as a whole: a process with one connection, on which the owner posts,
  reads and completes messages, datagrams are handled and pollers run, in any order, each operation at
  once.  Every state that can be reached is well formed, and no operation on it is a fault.
\<close>

section \<open>Operations\<close>

record Library =
  lib_host :: Host
  lib_conn :: SDRConnection

datatype LibOp =
    Accept int
  | SetParams ConnectionParams
  | Post BufRef u64 "NetEvent list" RecvPostSys
  | Arrive "u8 list"
  | Poll u32
  | BitmapGet SDRRecvHandle
  | Complete SDRRecvHandle int padding ControlMessage

definition lib_mem :: "Library \<Rightarrow> nat \<Rightarrow> u8 list" where
  "lib_mem s = hs_mem (lib_host s)"

definition lib_table :: "Library \<Rightarrow> MessageContext option list" where
  "lib_table s = cc_msg_table (sc_connection_ctx (lib_conn s))"

text \<open>One turn of the poller of the message in a slot.\<close>

definition poll_slot :: "u32 \<Rightarrow> ConnectionContext \<Rightarrow> ConnectionContext run" where
  "poll_slot i cc =
     (case get_message cc i of
        None \<Rightarrow> Ret cc
      | Some mc \<Rightarrow>
          (case mc_frontend mc of
             None \<Rightarrow> Ret cc
           | Some f \<Rightarrow>
               (case poll_once (mc_backend mc) f of
                  None \<Rightarrow> Crash
                | Some f' \<Rightarrow> Ret (update_message cc i (\<lambda>mc. mc\<lparr>mc_frontend := Some f'\<rparr>)))))"

definition with_ctx :: "Library \<Rightarrow> ConnectionContext \<Rightarrow> Library" where
  "with_ctx s cc = s\<lparr>lib_conn := (lib_conn s)\<lparr>sc_connection_ctx := cc\<rparr>\<rparr>"

fun lib_step :: "LibOp \<Rightarrow> Library \<Rightarrow> Library run" where
  "lib_step (Accept fd) s =
     (case sc_tcp_server (lib_conn s) of
        None \<Rightarrow> Crash
      | Some srv \<Rightarrow>
          Ret (s\<lparr>lib_conn := (lib_conn s)\<lparr>sc_tcp_server := Some (fst (snd (accept_connection srv fd)))\<rparr>\<rparr>))"
| "lib_step (SetParams p) s = Ret (s\<lparr>lib_conn := snd (sdr_set_params (lib_conn s) True (Some p))\<rparr>)"
| "lib_step (Post buffer len evs sys) s =
     run_bind (sdr_recv_post (lib_host s) (lib_conn s) True buffer len True evs sys)
       (\<lambda>RP. Ret (s\<lparr>lib_host := rp_host RP, lib_conn := rp_conn RP\<rparr>))"
| "lib_step (Arrive bytes) s =
     (case handle_datagram \<lparr>rs_conn = sc_connection_ctx (lib_conn s), rs_mem = lib_mem s\<rparr> bytes of
        None \<Rightarrow> Crash
      | Some rs \<Rightarrow> Ret ((with_ctx s (rs_conn rs))\<lparr>lib_host := (lib_host s)\<lparr>hs_mem := rs_mem rs\<rparr>\<rparr>))"
| "lib_step (Poll i) s = run_bind (poll_slot i (sc_connection_ctx (lib_conn s))) (\<lambda>cc. Ret (with_ctx s cc))"
| "lib_step (BitmapGet h) s = run_bind (sdr_recv_bitmap_get (lib_conn s) (Some h) True True) (\<lambda>_. Ret s)"
| "lib_step (Complete h sent pad locals) s =
     run_bind (sdr_recv_complete (lib_conn s) (Some h) sent pad locals) (\<lambda>RC. Ret (s\<lparr>lib_conn := rc_conn RC\<rparr>))"

text \<open>
  What the caller owes: a buffer of the length it names, less than 2 GiB, and a handle whose message
  context has not been replaced.
\<close>

fun op_valid :: "LibOp \<Rightarrow> Library \<Rightarrow> bool" where
  "op_valid (Post buffer len _ _) s \<longleftrightarrow> unat len < 2 ^ 31
     \<and> (buffer = NullPtr \<or> (\<exists>b. buffer = UserBuf b \<and> unat len \<le> length (lib_mem s b)))"
| "op_valid (BitmapGet h) s \<longleftrightarrow> unat (fst (rh_msg_ctx h)) < MAX_MESSAGES \<and> deref_ctx (lib_conn s) h \<noteq> None"
| "op_valid (Complete h _ _ _) s \<longleftrightarrow> unat (fst (rh_msg_ctx h)) < MAX_MESSAGES \<and> deref_ctx (lib_conn s) h \<noteq> None"
| "op_valid _ s \<longleftrightarrow> True"

text \<open>The states of a process that has called \<open>sdr_listen\<close>.\<close>

inductive lib_reach :: "Library \<Rightarrow> bool" where
  start: "sdr_listen host True port sys = (Some conn, host', closed) \<Longrightarrow> lib_reach \<lparr>lib_host = host', lib_conn = conn\<rparr>"
| step: "lib_reach s \<Longrightarrow> op_valid op s \<Longrightarrow> lib_step op s = Ret s' \<Longrightarrow> lib_reach s'"

section \<open>The invariant\<close>

definition msg_bitmaps :: "MessageContext \<Rightarrow> bool" where
  "msg_bitmaps mc \<longleftrightarrow> (\<forall>f. mc_frontend mc = Some f \<longrightarrow>
     fb_wf f \<and> (\<exists>b. mc_backend mc = Some b \<and> bb_wf b \<and> chunks_cover b f))"

definition table_ok :: "(nat \<Rightarrow> u8 list) \<Rightarrow> ConnectionContext \<Rightarrow> bool" where
  "table_ok mem cc \<longleftrightarrow> rs_wf \<lparr>rs_conn = cc, rs_mem = mem\<rparr>
     \<and> (\<forall>i mc. i < MAX_MESSAGES \<longrightarrow> cc_msg_table cc ! i = Some mc \<longrightarrow> msg_bitmaps mc)"

definition lib_ok :: "Library \<Rightarrow> bool" where
  "lib_ok s \<longleftrightarrow> table_ok (lib_mem s) (sc_connection_ctx (lib_conn s)) \<and> sc_tcp_server (lib_conn s) \<noteq> None"

lemma table_okD:
  assumes "table_ok mem cc" and "i < MAX_MESSAGES" and "cc_msg_table cc ! i = Some mc"
  shows "msg_ok mem mc" and "msg_bitmaps mc"
  using assms by (simp_all add: table_ok_def rs_wf_def)

lemma table_ok_wf: "table_ok mem cc \<Longrightarrow> cc_wf cc"
  by (simp add: table_ok_def rs_wf_def)

lemma table_ok_cong: "table_ok mem cc \<Longrightarrow> cc_msg_table cc' = cc_msg_table cc \<Longrightarrow> cc_wf cc' \<Longrightarrow> table_ok mem cc'"
  by (simp add: table_ok_def rs_wf_def)

lemma table_ok_update:
  assumes ok: "table_ok mem cc" and id: "\<And>mc. mc_msg_id (f mc) = mc_msg_id mc"
    and new: "\<And>mc. unat i < MAX_MESSAGES \<Longrightarrow> cc_msg_table cc ! unat i = Some mc \<Longrightarrow> msg_ok mem (f mc) \<and> msg_bitmaps (f mc)"
  shows "table_ok mem (update_message cc i f)"
proof -
  have l: "length (cc_msg_table cc) = MAX_MESSAGES" using table_ok_wf [OF ok] by (simp add: cc_wf_def)
  have "msg_ok mem mc \<and> msg_bitmaps mc"
    if "k < MAX_MESSAGES" "cc_msg_table (update_message cc i f) ! k = Some mc" for k mc
    using that table_okD [OF ok] new l by (cases "k = unat i") (auto simp: update_message_def)
  then show ?thesis
    using cc_wf_update [OF table_ok_wf [OF ok] id] by (simp add: table_ok_def rs_wf_def)
qed

lemma table_ok_allocate:
  assumes ok: "table_ok mem cc"
  shows "table_ok mem (snd (allocate_message_slot cc i g))"
proof -
  have l: "length (cc_msg_table cc) = MAX_MESSAGES" using table_ok_wf [OF ok] by (simp add: cc_wf_def)
  have fresh: "msg_ok mem (MessageContext_new\<lparr>mc_msg_id := i, mc_generation := h, mc_state := ACTIVE, mc_params := p\<rparr>)
      \<and> msg_bitmaps (MessageContext_new\<lparr>mc_msg_id := i, mc_generation := h, mc_state := ACTIVE, mc_params := p\<rparr>)" for h p
    by (simp add: msg_ok_def msg_bitmaps_def MessageContext_new_def)
  have "msg_ok mem mc \<and> msg_bitmaps mc"
    if "k < MAX_MESSAGES" "cc_msg_table (snd (allocate_message_slot cc i g)) ! k = Some mc" for k mc
    using that table_okD [OF ok] fresh l
    by (cases "k = unat i") (auto simp: allocate_message_slot_def Let_def split: if_splits)
  then show ?thesis
    using cc_wf_allocate [OF table_ok_wf [OF ok]] by (simp add: table_ok_def rs_wf_def)
qed

section \<open>Posting\<close>

lemma setup_ok:
  assumes len: "unat len < 2 ^ 31" and p: "cp_mtu_bytes params \<noteq> 0" "cp_packets_per_chunk params \<noteq> 0"
    and sizes: "calculate_bitmap_sizes len (cp_mtu_bytes params) (cp_packets_per_chunk params) = (tp, tc)"
    and buf: "buffer = NullPtr \<or> (\<exists>b. buffer = UserBuf b \<and> unat len \<le> length (mem b))"
    and params': "cp_packets_per_chunk params' = cp_packets_per_chunk params"
  shows "msg_ok mem (setup_message buffer len tp tc params' mc)" and "msg_bitmaps (setup_message buffer len tp tc params' mc)"
proof -
  let ?ppc = "cp_packets_per_chunk params"
  have ppc: "unat ?ppc < 2 ^ 16" "unat (cp_mtu_bytes params) < 2 ^ 32"
    using unat_width(3) [of ?ppc] unat_width(5) [of "cp_mtu_bytes params"] by simp_all
  have d: "(\<forall>n. unat tp \<le> n \<longleftrightarrow> unat len \<le> n * unat (cp_mtu_bytes params))
      \<and> (unat tp + unat ?ppc \<le> 2 ^ 32 \<and> unat tp + 63 < 2 ^ 32 \<longrightarrow> dims_ok (ucast tp) ?ppc (ucast tc))"
    using bitmap_sizes [of len "cp_mtu_bytes params" ?ppc] sizes p len ppc by simp
  have "0 < unat (cp_mtu_bytes params)" using p(1) by (simp add: unat_gt_0)
  then have "unat len \<le> unat len * unat (cp_mtu_bytes params)" by simp
  then have tp: "unat tp \<le> unat len" using d by blast
  have "unat tp + unat ?ppc \<le> 2 ^ 32" "unat tp + 63 < 2 ^ 32" using tp len ppc(1) by simp_all
  then have dims: "dims_ok (ucast tp) ?ppc (ucast tc)" using d by blast
  have "unat (ucast tc :: u32) \<le> unat (ucast tp :: u32)" by (rule dims_ok_chunks [OF dims])
  then have u: "unat (ucast tp :: u32) + 63 < 2 ^ 32" "unat (ucast tc :: u32) + 63 < 2 ^ 32"
    using dims by (simp_all add: dims_ok_def)
  let ?b = "BackendBitmap_new (ucast tp) ?ppc"
  let ?f = "FrontendBitmap_new (Some ?b) (ucast tc)"
  have b: "bb_wf ?b" and f: "fb_wf ?f" using new_wf(1) [OF u(1)] fb_new_wf(1) [OF u(2)] by simp_all
  show "msg_ok mem (setup_message buffer len tp tc params' mc)"
    using buf len b by (auto simp: msg_ok_def params')
  have front: "mc_frontend (setup_message buffer len tp tc params' mc) = Some (snd (start_polling ?f 100))"
    by (simp add: setup_message_def Let_def params')
  have "fb_wf (snd (start_polling ?f 100))" using f by (simp add: start_polling_def fb_wf_def marked_def)
  moreover have "chunks_cover ?b (snd (start_polling ?f 100))"
    using dims by (simp add: start_polling_def chunks_cover_def bb_room_def dims_ok_def)
  ultimately show "msg_bitmaps (setup_message buffer len tp tc params' mc)"
    using front b by (simp add: msg_bitmaps_def params')
qed

lemma negotiated_usable:
  "cp_mtu_bytes (negotiate params offer len) \<noteq> 0" "cp_packets_per_chunk (negotiate params offer len) \<noteq> 0"
  unfolding negotiate_fields by (auto simp: min_def)

lemma post_message_ok:
  assumes ok: "table_ok mem cc" and len: "unat len < 2 ^ 31"
    and buf: "buffer = NullPtr \<or> (\<exists>b. buffer = UserBuf b \<and> unat len \<le> length (mem b))"
    and post: "post_message host cc buffer len offer = (r, host', cc')"
  shows "table_ok mem cc'" and "hs_mem host' = hs_mem host"
proof -
  let ?p = "negotiate (cc_params cc) offer len" and ?i = "fst (allocate_msg_id (hs_ctx host))"
    and ?g = "hs_receiver_generation_counter host"
  let ?cc = "snd (cc_initialize cc (cc_connection_id cc) ?p)"
  obtain tp tc where sizes: "calculate_bitmap_sizes len (cp_mtu_bytes ?p) (cp_packets_per_chunk ?p) = (tp, tc)"
    by (cases "calculate_bitmap_sizes len (cp_mtu_bytes ?p) (cp_packets_per_chunk ?p)")
  obtain a cc1 where alloc: "allocate_message_slot ?cc ?i ?g = (a, cc1)" by (cases "allocate_message_slot ?cc ?i ?g")
  have "table_ok mem ?cc"
    using ok by (rule table_ok_cong) (simp add: cc_initialize_def, rule cc_wf_initialize [OF table_ok_wf [OF ok]])
  then have ok1: "table_ok mem cc1" using table_ok_allocate [of mem ?cc ?i ?g] alloc by simp
  have set: "cc' = (case a of None \<Rightarrow> cc1
      | Some mc \<Rightarrow> update_message cc1 ?i (setup_message buffer len tp tc (?p\<lparr>cp_transfer_id := ?g\<rparr>)))"
    and host: "hs_mem host' = hs_mem host"
    using post alloc sizes by (auto simp: post_message_def Let_def split: prod.splits option.splits)
  show "hs_mem host' = hs_mem host" by (rule host)
  note new = setup_ok [OF len negotiated_usable sizes buf]
  show "table_ok mem cc'"
    unfolding set using ok1 by (cases a) (auto intro!: table_ok_update new)
qed

lemma start_table:
  "cc_msg_table (fst (snd (snd (ur_start r cc base num sys)))) = cc_msg_table cc"
  "cc_wf cc \<Longrightarrow> cc_wf (fst (snd (snd (ur_start r cc base num sys))))"
  by (auto simp: ur_start_def cc_wf_def Let_def split: sum.split prod.split)

lemma finish_ok:
  assumes ok: "table_ok mem (sc_connection_ctx conn)"
    and fin: "finish_recv_post host conn srv handle params evs sys = Ret RP" and srv: "sc_tcp_server conn \<noteq> None"
  shows "table_ok mem (sc_connection_ctx (rp_conn RP))" and "rp_host RP = host" and "sc_tcp_server (rp_conn RP) \<noteq> None"
proof -
  define st where "st = (case sc_udp_receiver conn of
               Some r \<Rightarrow> (True, r, sc_connection_ctx conn, [])
             | None \<Rightarrow> ur_start UDPReceiver_new (sc_connection_ctx conn) (cp_channel_base_port params)
                         (cp_num_channels params) (rps_channels sys))"
  obtain started receiver cc closed where st': "st = (started, receiver, cc, closed)" by (cases st)
  have "cc_msg_table cc = cc_msg_table (sc_connection_ctx conn)" "cc_wf cc"
    using st' start_table [where r = UDPReceiver_new and cc = "sc_connection_ctx conn" and base = "cp_channel_base_port params"
        and num = "cp_num_channels params" and sys = "rps_channels sys"]
      table_ok_wf [OF ok] by (auto simp: st_def split: option.splits)
  then have cc: "table_ok mem cc" using table_ok_cong [OF ok] by blast
  have "sc_connection_ctx (rp_conn RP) = cc \<and> rp_host RP = host \<and> sc_tcp_server (rp_conn RP) \<noteq> None"
    using fin srv unfolding finish_recv_post_def st_def [symmetric] st' Let_def
    by (auto split: if_splits option.splits prod.splits)
  then show "table_ok mem (sc_connection_ctx (rp_conn RP))" "rp_host RP = host" "sc_tcp_server (rp_conn RP) \<noteq> None"
    using cc by simp_all
qed

lemma finish_no_crash: "finish_recv_post host conn srv handle params evs sys \<noteq> Crash"
  by (auto simp: finish_recv_post_def Let_def split: prod.split option.split)

lemma post_ok:
  assumes ok: "table_ok (hs_mem host) (sc_connection_ctx conn)" and srv: "sc_tcp_server conn \<noteq> None" and len: "unat len < 2 ^ 31"
    and buf: "buffer = NullPtr \<or> (\<exists>b. buffer = UserBuf b \<and> unat len \<le> length (hs_mem host b))"
  shows "sdr_recv_post host conn True buffer len True evs sys \<noteq> Crash"
    and "sdr_recv_post host conn True buffer len True evs sys = Ret RP \<Longrightarrow>
      table_ok (hs_mem (rp_host RP)) (sc_connection_ctx (rp_conn RP)) \<and> sc_tcp_server (rp_conn RP) \<noteq> None"
proof -
  show "sdr_recv_post host conn True buffer len True evs sys \<noteq> Crash"
    using srv by (auto simp: sdr_recv_post_def Let_def finish_no_crash split: prod.split option.split)
  assume post: "sdr_recv_post host conn True buffer len True evs sys = Ret RP"
  show "table_ok (hs_mem (rp_host RP)) (sc_connection_ctx (rp_conn RP)) \<and> sc_tcp_server (rp_conn RP) \<noteq> None"
  proof (cases "buffer = NullPtr \<or> len = 0 \<or> \<not> sc_is_receiver conn")
    case True
    then show ?thesis using post ok srv by (auto simp: sdr_recv_post_def Let_def split: if_splits)
  next
    case False
    obtain srv0 where s0: "sc_tcp_server conn = Some srv0" using srv by blast
    obtain r srv' evs' where a: "await_msg server_receive server_alive (wanted OFFER) srv0 zero_message evs = Some (r, srv', evs')"
      using post False s0 by (auto simp: sdr_recv_post_def Let_def split: option.splits)
    show ?thesis
    proof (cases r)
      case None
      then show ?thesis using post False s0 a ok by (auto simp: sdr_recv_post_def Let_def)
    next
      case (Some offer)
      obtain x host' cc' where p: "post_message host (sc_connection_ctx conn) buffer len (cm_params offer) = (x, host', cc')"
        by (cases "post_message host (sc_connection_ctx conn) buffer len (cm_params offer)")
      note new = post_message_ok [OF ok len buf p]
      show ?thesis
      proof (cases x)
        case None
        then show ?thesis using post False s0 a Some p new by (auto simp: sdr_recv_post_def Let_def)
      next
        case (Some y)
        let ?conn = "conn\<lparr>sc_tcp_server := Some srv', sc_connection_ctx := cc'\<rparr>"
        have "finish_recv_post host' ?conn srv' (fst y) (snd y) evs' sys = Ret RP"
          using post False s0 a \<open>r = Some offer\<close> p Some by (auto simp: sdr_recv_post_def Let_def split: prod.splits)
        from finish_ok [OF _ this, of "hs_mem host"] new show ?thesis by simp
      qed
    qed
  qed
qed

section \<open>Every operation\<close>

lemma poll_slot_ok:
  assumes ok: "table_ok mem cc"
  shows "\<exists>cc'. poll_slot i cc = Ret cc' \<and> table_ok mem cc'"
proof (cases "get_message cc i")
  case None
  then show ?thesis using ok by (simp add: poll_slot_def)
next
  case (Some mc)
  have i: "unat i < MAX_MESSAGES" and slot: "cc_msg_table cc ! unat i = Some mc"
    using get_message_slot [OF Some] by simp_all
  note m = table_okD [OF ok i slot]
  show ?thesis
  proof (cases "mc_frontend mc")
    case None
    then show ?thesis using ok Some by (simp add: poll_slot_def)
  next
    case (Some f)
    then obtain b where b: "fb_wf f" "mc_backend mc = Some b" "bb_wf b" "chunks_cover b f"
      using m(2) by (auto simp: msg_bitmaps_def)
    obtain f' where f': "update_chunk_bitmap (Some b) f = Some f'" "fb_wf f'" "fb_frame f' = fb_frame f"
      using update_chunk_bitmap_eq [OF b(1,3) chunks_cover_fit [OF b(4)]] by blast
    have "chunks_cover b f'" using chunks_cover_frame [OF HOL.refl f'(3)] b(4) by simp
    then have new: "msg_ok mem (mc\<lparr>mc_frontend := Some f'\<rparr>) \<and> msg_bitmaps (mc\<lparr>mc_frontend := Some f'\<rparr>)"
      using m(1) b f'(2) by (simp add: msg_ok_def msg_bitmaps_def)
    have "table_ok mem (update_message cc i (\<lambda>mc. mc\<lparr>mc_frontend := Some f'\<rparr>))"
      using new slot by (intro table_ok_update [OF ok]) simp_all
    then show ?thesis using Some \<open>get_message cc i = Some mc\<close> b(2) f'(1) by (simp add: poll_slot_def poll_once_def)
  qed
qed

lemma complete_as_update:
  "complete_message c i = (if unat i < MAX_MESSAGES
      then update_message c i (\<lambda>mc. mc\<lparr>mc_state := DEAD, mc_buffer := NullSink\<rparr>) else c)"
proof (cases "cc_msg_table c ! unat i")
  case None
  then have "(cc_msg_table c)[unat i := None] = cc_msg_table c"
    using list_update_id [of "cc_msg_table c" "unat i"] by simp
  then show ?thesis using None by (simp add: complete_message_def update_message_def)
qed (simp add: complete_message_def update_message_def not_le)

lemma complete_ok:
  assumes ok: "table_ok mem (sc_connection_ctx conn)" and slot: "unat (fst (rh_msg_ctx h)) < MAX_MESSAGES"
    and live: "deref_ctx conn h \<noteq> None"
  shows "\<exists>RC. sdr_recv_complete conn (Some h) sent pad locals = Ret RC \<and> table_ok mem (sc_connection_ctx (rc_conn RC))
    \<and> sc_tcp_server (rc_conn RC) = sc_tcp_server conn"
proof -
  obtain mc where mc: "deref_ctx conn h = Some mc" using live by blast
  let ?cc = "sc_connection_ctx conn" and ?stop = "\<lambda>mc. mc\<lparr>mc_frontend := map_option stop_polling (mc_frontend mc)\<rparr>"
  have keeps: "msg_ok mem (?stop m) \<and> msg_bitmaps (?stop m)" if "msg_ok mem m" "msg_bitmaps m" for m
    using that by (auto simp: msg_ok_def msg_bitmaps_def stop_polling_def chunks_cover_def fb_wf_def marked_def)
  have ok1: "table_ok mem (update_message ?cc (fst (rh_msg_ctx h)) ?stop)"
    using table_okD [OF ok] keeps by (intro table_ok_update [OF ok]) simp_all
  let ?cc1 = "update_message ?cc (fst (rh_msg_ctx h)) ?stop"
  have ok2: "table_ok mem (complete_message ?cc1 i)" for i
    unfolding complete_as_update using ok1 table_okD [OF ok1] by (auto simp: msg_ok_def msg_bitmaps_def intro!: table_ok_update)
  have "transfer_complete (?stop mc) \<noteq> Crash \<and> transfer_complete (?stop mc) \<noteq> Blocked"
  proof (cases "mc_frontend mc")
    case (Some f)
    have "fb_wf f" using table_okD(2) [OF ok slot deref_slot [OF mc]] Some by (simp add: msg_bitmaps_def)
    then have "fb_wf (stop_polling f)" by simp
    then show ?thesis using transfer_complete_eq [of "?stop mc" "stop_polling f"] Some by simp
  qed (simp add: transfer_complete_def)
  then obtain res where "transfer_complete (?stop mc) = Ret res" by (cases "transfer_complete (?stop mc)") auto
  then show ?thesis using ok2 by (auto simp: sdr_recv_complete_def mc Let_def split: option.split)
qed

text \<open>A datagram leaves every message as it is, but for a packet recorded in its bitmap.\<close>

lemma write_table:
  "write_packet_to_buffer rs mc p pl = Some rs' \<Longrightarrow> cc_msg_table (rs_conn rs') = cc_msg_table (rs_conn rs)"
  by (auto simp: write_packet_to_buffer_def buffer_write_def split: if_splits option.splits prod.splits BufRef.splits)

lemma record_table:
  assumes "record_packet rs i p = Some rs'" and "length (cc_msg_table (rs_conn rs)) = MAX_MESSAGES" and "k < MAX_MESSAGES"
    and "cc_msg_table (rs_conn rs') ! k = Some mc'"
  shows "\<exists>mc. cc_msg_table (rs_conn rs) ! k = Some mc \<and> (mc' = mc \<or>
    (\<exists>b b' r. mc_backend mc = Some b \<and> set_packet_received b p = Some (r, b') \<and> mc' = mc\<lparr>mc_backend := Some b'\<rparr>))"
proof (cases "get_message (rs_conn rs) i")
  case None
  then show ?thesis using assms(1) by (simp add: record_packet_def)
next
  case (Some mc)
  show ?thesis
  proof (cases "mc_backend mc")
    case None
    then show ?thesis using assms(1,4) Some by (simp add: record_packet_def)
  next
    case (Some b)
    obtain r b' where b': "set_packet_received b p = Some (r, b')"
        "rs_conn rs' = update_message (rs_conn rs) i (\<lambda>mc. mc\<lparr>mc_backend := Some b'\<rparr>)"
      using assms(1) Some \<open>get_message (rs_conn rs) i = Some mc\<close> by (auto simp: record_packet_def)
    show ?thesis
      using assms(2-4) b' Some get_message_slot [OF \<open>get_message (rs_conn rs) i = Some mc\<close>]
      by (cases "k = unat i") (auto simp: update_message_def)
  qed
qed

lemma handle_datagram_table:
  assumes h: "handle_datagram rs bytes = Some rs'" and wf: "cc_wf (rs_conn rs)" and k: "k < MAX_MESSAGES"
    and mc': "cc_msg_table (rs_conn rs') ! k = Some mc'"
  shows "\<exists>mc. cc_msg_table (rs_conn rs) ! k = Some mc \<and> (mc' = mc \<or>
    (\<exists>b b' p r. mc_backend mc = Some b \<and> set_packet_received b p = Some (r, b') \<and> mc' = mc\<lparr>mc_backend := Some b'\<rparr>))"
proof -
  consider "rs' = rs" | mc pl p i rs1 where "write_packet_to_buffer rs mc p pl = Some rs1" "record_packet rs1 i p = Some rs'"
    using h by (auto simp: handle_datagram_def process_packet_def bind_eq_Some_conv split: option.splits if_splits bool.splits)
  then show ?thesis
  proof cases
    case 1
    then show ?thesis using mc' by blast
  next
    case 2
    note t = write_table [OF 2(1)]
    have "length (cc_msg_table (rs_conn rs1)) = MAX_MESSAGES" using wf t by (simp add: cc_wf_def)
    from record_table [OF 2(2) this k mc'] show ?thesis unfolding t by blast
  qed
qed

lemma handle_datagram_bitmaps:
  assumes ok: "table_ok mem cc" and h: "handle_datagram \<lparr>rs_conn = cc, rs_mem = mem\<rparr> bytes = Some rs"
  shows "table_ok (rs_mem rs) (rs_conn rs)"
proof -
  have "rs_wf \<lparr>rs_conn = cc, rs_mem = mem\<rparr>" using ok by (simp add: table_ok_def)
  from handle_datagram_safe [OF this, of bytes] h have wf: "rs_wf rs" by auto
  have "msg_bitmaps mc'" if k: "k < MAX_MESSAGES" and mc': "cc_msg_table (rs_conn rs) ! k = Some mc'" for k mc'
  proof -
    have "cc_wf (rs_conn \<lparr>rs_conn = cc, rs_mem = mem\<rparr>)" using table_ok_wf [OF ok] by simp
    from handle_datagram_table [OF h this k mc'] obtain mc where mc: "cc_msg_table cc ! k = Some mc" and or: "mc' = mc \<or>
        (\<exists>b b' p r. mc_backend mc = Some b \<and> set_packet_received b p = Some (r, b') \<and> mc' = mc\<lparr>mc_backend := Some b'\<rparr>)"
      unfolding RecvState.simps by blast
    note m = table_okD(2) [OF ok k mc]
    show ?thesis
    proof (cases "mc_frontend mc")
      case None
      then show ?thesis using or by (auto simp: msg_bitmaps_def)
    next
      case (Some f)
      then obtain b where b: "fb_wf f" "mc_backend mc = Some b" "bb_wf b" "chunks_cover b f"
        using m by (auto simp: msg_bitmaps_def)
      have "bb_wf b' \<and> chunks_cover b' f" if "set_packet_received b p = Some (r, b')" for p r b'
        using mark_received_eq [OF b(3), of p] chunks_cover_frame [OF _ HOL.refl, of b' b f] that b(4)
        by (auto simp: mark_received_def)
      then show ?thesis using or m Some b by (auto simp: msg_bitmaps_def)
    qed
  qed
  then show ?thesis using wf by (cases rs) (simp add: table_ok_def)
qed

lemma lib_step_ok:
  assumes ok: "lib_ok s" and valid: "op_valid op s"
  shows "lib_step op s \<noteq> Crash \<and> (\<forall>s'. lib_step op s = Ret s' \<longrightarrow> lib_ok s')"
proof -
  let ?cc = "sc_connection_ctx (lib_conn s)"
  have t: "table_ok (lib_mem s) ?cc" and srv: "sc_tcp_server (lib_conn s) \<noteq> None" using ok by (simp_all add: lib_ok_def)
  show ?thesis
  proof (cases op)
    case (Accept fd)
    then show ?thesis using t srv by (auto simp: lib_ok_def lib_mem_def)
  next
    case (SetParams p)
    have "table_ok (lib_mem s) (snd (cc_initialize ?cc c p))" for c
      using t by (rule table_ok_cong) (simp add: cc_initialize_def, rule cc_wf_initialize [OF table_ok_wf [OF t]])
    then show ?thesis using SetParams srv by (auto simp: lib_ok_def lib_mem_def sdr_set_params_def)
  next
    case (Post buffer len evs sys)
    have len: "unat len < 2 ^ 31" and buf: "buffer = NullPtr \<or> (\<exists>b. buffer = UserBuf b \<and> unat len \<le> length (hs_mem (lib_host s) b))"
      using valid Post by (simp_all add: lib_mem_def)
    note post = post_ok [OF t [unfolded lib_mem_def] srv len buf, of evs sys]
    show ?thesis
      using post Post by (cases "sdr_recv_post (lib_host s) (lib_conn s) True buffer len True evs sys")
        (auto simp: lib_ok_def lib_mem_def)
  next
    case (Arrive bytes)
    let ?rs = "\<lparr>rs_conn = ?cc, rs_mem = lib_mem s\<rparr>"
    have "rs_wf ?rs" using t by (simp add: table_ok_def)
    from handle_datagram_safe [OF this, of bytes] handle_datagram_bitmaps [OF t, of bytes]
    obtain rs where rs: "handle_datagram ?rs bytes = Some rs" "table_ok (rs_mem rs) (rs_conn rs)" by auto
    then show ?thesis using Arrive srv by (simp add: lib_ok_def lib_mem_def with_ctx_def)
  next
    case (Poll i)
    then show ?thesis using poll_slot_ok [OF t, of i] srv by (auto simp: lib_ok_def lib_mem_def with_ctx_def)
  next
    case (BitmapGet h)
    then show ?thesis using ok valid by (auto simp: sdr_recv_bitmap_get_def split: option.splits)
  next
    case (Complete h sent pad locals)
    have "unat (fst (rh_msg_ctx h)) < MAX_MESSAGES" "deref_ctx (lib_conn s) h \<noteq> None" using valid Complete by simp_all
    from complete_ok [OF t this, of sent pad locals] show ?thesis
      using Complete srv by (auto simp: lib_ok_def lib_mem_def)
  qed
qed

lemma listened_ok:
  assumes "sdr_listen host True port sys = (Some conn, host', closed)"
  shows "lib_ok \<lparr>lib_host = host', lib_conn = conn\<rparr>"
proof -
  obtain srv c where conn: "conn = SDRConnection_new\<lparr>sc_is_receiver := True, sc_tcp_server := Some srv,
      sc_connection_ctx := snd (cc_initialize ConnectionContext_new c zero_params)\<rparr>"
    using assms by (auto simp: sdr_listen_def new_connection_ctx_def Let_def split: prod.splits if_splits)
  have "table_ok mem ConnectionContext_new" for mem
    using cc_wf_new by (simp add: table_ok_def rs_wf_def) (simp add: ConnectionContext_new_def MAX_MESSAGES_def)
  then have "table_ok mem (snd (cc_initialize ConnectionContext_new c zero_params))" for mem
    by (rule table_ok_cong) (simp add: cc_initialize_def, rule cc_wf_initialize [OF cc_wf_new])
  then show ?thesis by (simp add: lib_ok_def conn)
qed

lemma reach_ok: "lib_reach s \<Longrightarrow> lib_ok s"
  by (induction rule: lib_reach.induct) (blast dest: listened_ok lib_step_ok)+

section \<open>Properties\<close>

text \<open>C7: The receiving side of the library does not fault.  After \<open>sdr_listen\<close>, let the owner accept, set
  parameters, post buffers, read bitmaps and complete messages, let any bytes arrive as datagrams or on the
  control connection and any system call fail, and let pollers run, each at once and in any order.  Then
  the state is well formed (the message table, every message's buffer and both its bitmaps), and no
  further operation the caller may make is a fault.\<close>

theorem receiver_library_safe:
  assumes "lib_reach s" and "op_valid op s"
  shows "lib_ok s \<and> lib_step op s \<noteq> Crash"
  using reach_ok [OF assms(1)] lib_step_ok [OF reach_ok [OF assms(1)] assms(2)] by blast

definition demo_library :: Library where
  "demo_library = (case sdr_listen (fresh_host ''demo'' (\<lambda>_. replicate 5 0)) True 8888 \<lparr>ls_socket = 3, ls_setsockopt = 0, ls_bind = 0, ls_listen = 0\<rparr> of
     (Some conn, host, _) \<Rightarrow> \<lparr>lib_host = host, lib_conn = conn\<rparr>)"

theorem receiver_library_safe_witness:
  "\<exists>s. lib_step (Accept 4) demo_library = Ret s \<and> lib_ok s
    \<and> lib_step (Post (UserBuf 0) 5 [EvTimeout, EvData (replicate 288 7), EvClosed] demo_rsys) s \<noteq> Crash"
proof -
  let ?call = "sdr_listen (fresh_host ''demo'' (\<lambda>_. replicate 5 0)) True 8888 \<lparr>ls_socket = 3, ls_setsockopt = 0, ls_bind = 0, ls_listen = 0\<rparr>"
  have "\<exists>conn host closed srv. ?call = (Some conn, host, closed) \<and> sc_tcp_server conn = Some srv
      \<and> hs_mem host = (\<lambda>_. replicate 5 0)"
    by (simp add: sdr_listen_def start_listening_def TCPControlServer_new_def new_connection_ctx_def fresh_host_def split: prod.split)
  then obtain conn host closed srv where c: "?call = (Some conn, host, closed)" "sc_tcp_server conn = Some srv"
    "hs_mem host = (\<lambda>_. replicate 5 0)" by blast
  have lib: "demo_library = \<lparr>lib_host = host, lib_conn = conn\<rparr>" by (simp add: demo_library_def c(1))
  let ?s = "demo_library\<lparr>lib_conn := (lib_conn demo_library)\<lparr>sc_tcp_server := Some (fst (snd (accept_connection srv 4)))\<rparr>\<rparr>"
  have acc: "lib_step (Accept 4) demo_library = Ret ?s" by (simp add: lib c(2))
  have "lib_reach ?s" using lib_reach.step [OF lib_reach.start [OF c(1), folded lib], of "Accept 4"] acc by simp
  from receiver_library_safe [OF this, of "Post (UserBuf 0) 5 [EvTimeout, EvData (replicate 288 7), EvClosed] demo_rsys"]
  show ?thesis using acc by (simp add: lib lib_mem_def c(3))
qed

end
