(* ===== verification/Spec2Isabelle.thy ===== *)
theory Spec2Isabelle
  imports Api Config_Parser SR_Round EC_Sender EC_Receiver Programs_Run Library_Safety
begin

text \<open>
  A verification development of SDR over UDP (\<open>src/sdr-udp\<close>): a library that moves a message of bytes
  from a sender to a receiver in UDP datagrams, in any order and with duplicates, with a TCP
  connection beside them for control messages, and two reliability layers on top of it.

  \<^bold>\<open>The program.\<close>  A receiver listens on a TCP port (\<open>sdr_listen\<close>), posts a buffer (\<open>sdr_recv_post\<close>) and
  waits for an OFFER; it negotiates packet size, chunk size and channels, takes a slot of the message
  table, starts a poller and one worker thread per channel, and answers with a CTS.  The sender
  (\<open>sdr_connect\<close>, \<open>sdr_send_post\<close>) offers, waits for the CTS, accepts and sends every packet.  A worker
  checks slot, generation and duplicates of a datagram (\<open>process_packet\<close>), copies its bytes to the
  buffer and sets the packet's bit in the packet bitmap; the poller turns complete runs of packets into
  bits of the chunk bitmap; the owner reads these (\<open>sdr_recv_bitmap_get\<close>) and ends the transfer
  (\<open>sdr_recv_complete\<close>), which redirects late packets and tells the sender (\<open>sdr_send_poll\<close>).  The
  selective-repeat layer (\<open>SRSender\<close>, \<open>SRReceiver\<close>) sends the missing chunks again on the receiver's
  acknowledgements; the erasure-coding layer (\<open>ECSender\<close>, \<open>ECReceiver\<close>) sends parity chunks computed by
  the ISA-L library and asks for chunks when too many are lost.

  \<^bold>\<open>Theories and what they model.\<close>
  \<^item> \<open>SDR_Prelude\<close>: machine integers, counted loops (\<open>for_word\<close>, \<open>for_exit\<close>, \<open>for_while\<close>), arrays with a
    value for a faulty access, bitmaps in 64-bit words and the sets they stand for, ceiling division.
    \<open>Byte_Layout\<close>: memory images of integers and arrays, byte swaps.
  \<^item> \<open>Sinks\<close>: two interfaces as locales.  \<open>packet_sink\<close>: a state whose updates by arrivals commute and are
    idempotent; \<open>chunk_source\<close>: marks that only grow.  They are interpreted on the packet bitmap
    (\<open>Backend\<close>) and on the whole receiver (\<open>Receiver\<close>).
  \<^item> \<open>Packet\<close> (\<open>include/sdr_packet.h\<close>): the packed header, its byte order and image, data packets.
  \<^item> \<open>Backend\<close> (\<open>include/sdr_backend.h\<close>): the packet bitmap; its state is the record \<open>BackendBitmap\<close>, read
    as the set \<open>received\<close>.  \<open>Frontend\<close> (\<open>include/sdr_frontend.h\<close>): the chunk bitmap, read as the set
    \<open>marked\<close>, and the poller as a step relation \<open>poll_step\<close> interleaved with workers and owner.
  \<^item> \<open>Control\<close> (\<open>include/tcp_control.h\<close>, \<open>src/tcp_control.cpp\<close>): control messages, their images, server and
    client; waiting for a message of a kind (\<open>await_msg\<close>) is verified once in the locale \<open>ctl_channel\<close>,
    interpreted on both ends.
  \<^item> \<open>Connection\<close> (\<open>include/sdr_connection.h\<close>): message contexts and the table of 1024 slots with their
    generations; the locale \<open>rotating_table\<close> is what the reuse of slots rests on.
  \<^item> \<open>Receiver\<close> (\<open>include/sdr_receiver.h\<close>): channels, \<open>process_packet\<close>, the worker's loop with the
    specification of a slot (\<open>view_receive\<close>) it implements, and its steps interleaved with a completion.  \<open>Sender\<close>: the loops that cut a buffer into datagrams, with the locale
    \<open>slice_source\<close> between them and the receiver.
  \<^item> \<open>Api\<close> (\<open>include/sdr_api.h\<close>, \<open>src/sdr_api.cpp\<close>): every function of the public interface.
    \<open>Config_Parser\<close> (\<open>src/config_parser.cpp\<close>): the configuration reader.
  \<^item> \<open>Selective_Repeat\<close>, \<open>SR_Feedback\<close> (\<open>reliability/sr.h\<close>, \<open>reliability/sr.cpp\<close>): \<open>SRSender\<close> and
    \<open>SRReceiver\<close>; \<open>SR_Round\<close> composes them.  \<open>EC_Encoding\<close>, \<open>EC_Sender\<close>, \<open>EC_Receiver\<close>
    (\<open>reliability/ec.h\<close>, \<open>reliability/ec.cpp\<close>): \<open>ECSender\<close> and \<open>ECReceiver\<close>.  \<open>Chunk_Marks\<close>: the loops that
    read a chunk bitmap, shared by both layers.
  \<^item> \<open>Program_Args\<close>, \<open>Sender_Program\<close>, \<open>Receiver_Program\<close> (\<open>examples/sdr_test_sender.cpp\<close>,
    \<open>examples/sdr_test_receiver.cpp\<close>): the two programs from their command lines to their exit status, in
    all three modes; the receiver's loop is \<open>rx_loop\<close>, one turn \<open>rx_turn\<close>, with the other threads running
    before each half of it, after the loop and before \<open>sdr_recv_complete\<close>, but not within a half.
    \<open>Receiver_Watch\<close> is that loop while a message is received, next to threads whose moves are arrivals and
    checks of chunks in any order; \<open>Programs_Run\<close> the two programs against each other.
  \<^item> \<open>Library_Safety\<close>: the receiving side of the public interface as a state machine, in which the owner's
    calls, arriving bytes and pollers are steps.

  A class or struct is a record of the same name, its fields with a prefix (\<open>bb_\<close>, \<open>fb_\<close>, \<open>mc_\<close>, \<open>cc_\<close>,
  \<open>sc_\<close>, \<open>srs_\<close>, \<open>es_\<close>, ...); a constructor is \<open><class>_new\<close>; a method is a function of its name from the
  state to the result and the new state.  A lambda or loop body of a long method has its own
  definition.

  \<^bold>\<open>Conventions.\<close>  Unsigned integers are words of their width, \<open>size_t\<close> has 64 bits, and arithmetic wraps
  as in the code; a narrowing cast is \<open>ucast\<close>.  \<open>None\<close> of an operation's result is undefined behaviour: an
  access outside an array, a dangling pointer, a division by zero.  Functions that wait have the result
  type \<open>run\<close>: \<open>Ret\<close>, \<open>Blocked\<close> when the given arrivals are used up, \<open>Crash\<close> for undefined behaviour.
  Counted loops are total functions by the measure of their counter; \<open>sr_poll\<close> and \<open>ec_poll\<close> end because
  every turn consumes an arrival; \<open>await_msg\<close> is a \<open>partial_function\<close>, and that it returns is part of
  the theorems that use it.  No definition uses fuel;
  \<open>rx_loop\<close> counts turns up to the program's own limit of a million.  Clock readings, results of system calls, what arrives on a socket (a list of
  \<open>NetEvent\<close>) and padding bytes are arguments.  Where threads are interleaved, a worker's setting of a packet's bit and the poller's check
  of one chunk (several loads and a \<open>fetch_or\<close>; bits are only ever set) are one step each in \<open>poll_step\<close>; an
  operation under a mutex is one step; and \<open>worker_step\<close> has one step per access to the context.  \<open>pump\<close>
  scans the live chunk bitmap several times; in the model it reads one snapshot, so that a NACK means
  incomplete is shown for a bitmap that the poller leaves alone during the call.

  \<^bold>\<open>What the theorems show.\<close>
  \<^item> The programs, in the plain mode, with working system calls and at most \<open>2^18\<close> packets: the sending
    program is told of success only if the receiving one holds its bytes, and the receiving one finds them
    if every datagram arrives and every chunk is checked in time, whatever moves its other threads make
    between its steps and unless its window is 0 (\<open>programs_transfer\<close>); a window of no chunks in its
    configuration makes it divide by zero in its display (\<open>zero_window_crashes\<close>).
  \<^item> The whole path: a ready receiver and sender complete the handshake, no selection of the datagrams
    is a fault, and all of them give the sender's bytes (\<open>transfer_end_to_end\<close>, \<open>handshake_completes\<close>,
    \<open>receiver_reassembles\<close>); for any datagrams at all a worker's loop does to every slot what a
    specification of packets and bytes says (\<open>receiver_loop_refines\<close>); where the two generation counters differ every packet is dropped, and they
    differ from the second message on (\<open>mismatched_generation_loses_transfer\<close>,
    \<open>second_post_out_of_step\<close>).
  \<^item> Bitmaps: the word-wise range test is the specification (\<open>check_chunk_range_correct\<close>), marks are sound
    in every interleaving (\<open>poller_sound\<close>), queries and updates agree with the sets they stand for.
  \<^item> Safety: no sequence of calls, arrivals and failing system calls brings the receiving side to a fault, each
    being done at once (\<open>receiver_library_safe\<close>), and no datagram makes the receiver write outside its
    buffers (\<open>receiver_memory_safe\<close>), but a completion between a worker's checks and its copy does (\<open>completion_race_overruns_sink\<close>); a completed
    generation stays closed (\<open>completed_generation_stays_closed\<close>).
  \<^item> Control plane: messages survive any cutting of the stream, except by a timeout inside a message
    (\<open>control_stream_reassembly\<close>, \<open>timeout_desynchronises\<close>); serialisations are inverted.
  \<^item> Selective repeat: the receiver's feedback is true (\<open>pump_truthful\<close>), the sender's loop acts on every
    message as specified and ends (\<open>sr_poll_dispatch\<close>, \<open>sr_poll_ends\<close>), and one round of NACK,
    retransmission and arrivals completes the buffer (\<open>sr_round_completes\<close>).
  \<^item> Erasure coding: the layout of the encoded buffer, the sender's and the receiver's decisions
    (\<open>ec_encode_layout\<close>, \<open>ec_poll_dispatch\<close>, \<open>ec_try_decode_feedback\<close>), and two defects of the coding: the
    first parity chunks of a stripe are copies of data chunks, and the decoder does not use the inverse
    matrix (\<open>ec_parity_copies_data\<close>, \<open>ec_decode_ignores_inverse\<close>); a sender whose chunks the CTS
    has made smaller writes outside its table (\<open>ec_request_overrun\<close>).

  ISA-L is not part of the repository.  Its four routines are the fields of a record \<open>ISAL\<close> that the
  definitions take as an argument; \<open>isal_sizes\<close> and \<open>isal_coding\<close> are what its documentation says of the
  sizes of its results, of the identity at the top of the Reed-Solomon matrix and of a row that is a
  unit vector.  \<open>demo_isal\<close> is an instance.

  \<^bold>\<open>Not modelled.\<close>  Printing to the console; \<open>sdr_ctx_destroy\<close> and the destructors, which only free memory;
  the results of \<open>close\<close>; sleeping, and with it real time except where a clock is read.  Memory is
  sequentially consistent where threads are interleaved, as the atomics of the code ask for.  The
  scripts, plots and the rdmapp submodule are outside the C++ core.  Of the example programs the drawing of the progress display, the throughput they print and a failing
  allocation are left out.
\<close>

section \<open>A transfer from end to end\<close>

text \<open>The datagrams of a send, and the state in which they reach the receiver after its post.\<close>

definition wire_datagrams :: "SendPost \<Rightarrow> u8 list list" where
  "wire_datagrams SP = map snd (sp_wire SP)"

definition arrival_state :: "Host \<Rightarrow> RecvPost \<Rightarrow> RecvState" where
  "arrival_state hR RP = \<lparr>rs_conn = sc_connection_ctx (rp_conn RP), rs_mem = hs_mem hR\<rparr>"

definition arrive :: "u8 list list \<Rightarrow> RecvState \<Rightarrow> RecvState option" where
  "arrive ds rs = run_all (\<lambda>d rs. handle_datagram rs d) ds rs"

text \<open>C2: A transfer delivers the sender's bytes.  Receiver and sender are ready, allocate the same
  message id, the slot's generation counter is in step with the counter the CTS is stamped from, the
  posted buffer has the length of the data, and the message has at most \<open>2^18\<close> packets.  Then both
  posts succeed, and whatever selection of the sent datagrams arrives, in whatever order and with
  whatever repetitions, is handled without a fault; if every datagram was sent and arrives at least
  once, the posted buffer holds exactly the sender's data.\<close>

theorem transfer_end_to_end:
  assumes R: "receiver_ready hR cR (UserBuf b) len sysR" and S: "sender_ready cS data len sysS"
    and ids: "ctx_next_msg_id (hs_ctx hS) mod 1024 = ctx_next_msg_id (hs_ctx hR) mod 1024"
    and gens: "cc_generation_counters (sc_connection_ctx cR) ! unat (ctx_next_msg_id (hs_ctx hR) mod 1024)
      = hs_receiver_generation_counter hR"
    and buf: "length (hs_mem hR b) = length data" "length data + 2 ^ 33 \<le> 2 ^ 64"
    and few: "packet_count (length data) (unat (cp_mtu_bytes (agreed cR len cS len))) \<le> 2 ^ 18"
  shows "\<exists>RP SP. run_transfer hR cR (UserBuf b) len sysR hS cS data len sysS = (Ret RP, Ret SP)
    \<and> rp_rc RP = 0 \<and> sp_rc SP = 0
    \<and> (\<forall>ds. set ds \<subseteq> set (wire_datagrams SP) \<longrightarrow>
        (\<exists>rs. arrive ds (arrival_state hR RP) = Some rs
          \<and> ((\<forall>k. sps_sendto sysS k > 0) \<and> set ds = set (wire_datagrams SP) \<longrightarrow> rs_mem rs b = data)))"
proof -
  let ?i = "ctx_next_msg_id (hs_ctx hR) mod 1024" and ?gen = "hs_receiver_generation_counter hR"
  let ?p = "agreed cR len cS len" let ?mtu = "unat (cp_mtu_bytes ?p)"
  let ?dg = "data_datagram ?gen ?i (cp_packets_per_chunk ?p) ?mtu data"
  let ?T = "sender_target ?gen ?i ?mtu data b (hs_mem hR b)"
  obtain RP SP mc cc1 tp tc fd base num where t:
    "run_transfer hR cR (UserBuf b) len sysR hS cS data len sysS = (Ret RP, Ret SP)"
    "rp_rc RP = 0" "sp_rc SP = 0"
    "allocate_message_slot (snd (cc_initialize (sc_connection_ctx cR)
        (cc_connection_id (sc_connection_ctx cR)) ?p)) ?i ?gen = (Some mc, cc1)"
    "mc_generation mc = cc_generation_counters (sc_connection_ctx cR) ! unat ?i"
    "calculate_bitmap_sizes len (cp_mtu_bytes ?p) (cp_packets_per_chunk ?p) = (tp, tc)"
    "sc_connection_ctx (rp_conn RP) = (update_message cc1 ?i
        (setup_message (UserBuf b) len tp tc (?p\<lparr>cp_transfer_id := ?gen\<rparr>)))\<lparr>cc_udp_socket_fd := fd\<rparr>"
    "sp_wire SP = map (\<lambda>k. (channel_port base num k, ?dg k))
        (filter (\<lambda>k. sps_sendto sysS (of_nat k) > 0) [0..<packet_count (length data) ?mtu])"
    using run_transfer_ok [OF R S, of hS] unfolding ids by force
  note use = agreed_usable [of cR len cS len]
  have cc: "cc_wf (sc_connection_ctx cR)" using R by (simp add: receiver_ready_def)
  have len: "unat len = length data" using S by (simp add: sender_ready_def)
  have "unat ?i < 1024" by (simp add: unat_mod)
  then have inv: "rx_inv ?T (arrival_state hR RP)"
    unfolding arrival_state_def t(7)
    by (intro posted_state [OF cc t(4)]) (use t(5,6) gens use len buf few in auto)
  have range: "k < packet_count (length data) ?mtu \<longleftrightarrow> k * ?mtu < length data" for k
    using packet_count_iff [OF use(1)] .
  have few': "\<forall>k. k * t_mtu ?T < length (t_data ?T) \<longrightarrow> k < 2 ^ 18"
  proof (intro allI impI)
    fix k assume "k * t_mtu ?T < length (t_data ?T)"
    then have "k < packet_count (length data) ?mtu" using range by simp
    then show "k < 2 ^ 18" using few by linarith
  qed
  have wire: "set (wire_datagrams SP) = ?dg ` {k. k * ?mtu < length data \<and> sps_sendto sysS (of_nat k) > 0}"
    by (auto simp: wire_datagrams_def t(8) range)
  have "\<exists>rs. arrive ds (arrival_state hR RP) = Some rs
      \<and> ((\<forall>k. sps_sendto sysS k > 0) \<and> set ds = set (wire_datagrams SP) \<longrightarrow> rs_mem rs b = data)"
    if ds: "set ds \<subseteq> set (wire_datagrams SP)" for ds
  proof -
    have "set ds \<subseteq> ?dg ` {k. k * t_mtu ?T < length (t_data ?T)}" using ds wire by auto
    then obtain rs where rs: "run_all (\<lambda>d rs. handle_datagram rs d) ds (arrival_state hR RP) = Some rs"
      "(\<forall>k. k * t_mtu ?T < length (t_data ?T) \<longrightarrow> k \<in> rx_received ?T (arrival_state hR RP) \<or> ?dg k \<in> set ds)
        \<longrightarrow> rs_mem rs (t_buffer ?T) = t_data ?T"
      using cut_source.arrivals_handled [OF inv _ few', where ppc = "cp_packets_per_chunk ?p" and ds = ds] use(2)
      by auto
    then show ?thesis using wire by (intro exI [of _ rs]) (auto simp: arrive_def)
  qed
  with t(1-3) show ?thesis by blast
qed

lemma demo_agreed: "cp_mtu_bytes (agreed demo_rconn 5 demo_sconn 5) = 2"
  by (simp add: agreed_def negotiate_fields demo_rconn_def cc_initialize_def zero_params_def min_def)

theorem transfer_end_to_end_witness:
  "\<exists>RP SP rs. run_transfer demo_host demo_rconn (UserBuf 0) 5 demo_rsys
        demo_host demo_sconn [10, 20, 30, 40, 50] 5 demo_ssys = (Ret RP, Ret SP)
    \<and> rp_rc RP = 0 \<and> sp_rc SP = 0
    \<and> arrive (rev (wire_datagrams SP) @ wire_datagrams SP) (arrival_state demo_host RP) = Some rs
    \<and> rs_mem rs 0 = [10, 20, 30, 40, 50]"
proof -
  have ids: "ctx_next_msg_id (hs_ctx demo_host) mod 1024 = ctx_next_msg_id (hs_ctx demo_host) mod 1024" ..
  have gens: "cc_generation_counters (sc_connection_ctx demo_rconn) ! unat (ctx_next_msg_id (hs_ctx demo_host) mod 1024)
      = hs_receiver_generation_counter demo_host"
    by (simp add: demo_rconn_def demo_host_def sdr_ctx_create_def cc_initialize_def ConnectionContext_new_def
        MAX_MESSAGES_def)
  have few: "packet_count (length [10, 20, 30, 40, 50 :: u8])
      (unat (cp_mtu_bytes (agreed demo_rconn 5 demo_sconn 5))) \<le> 2 ^ 18"
    by (simp add: demo_agreed packet_count_def)
  have buf: "length (hs_mem demo_host 0) = length [10, 20, 30, 40, 50 :: u8]"
    "length [10, 20, 30, 40, 50 :: u8] + 2 ^ 33 \<le> 2 ^ 64" by (simp_all add: demo_host_def)
  have sent: "\<forall>k. sps_sendto demo_ssys k > 0" by (simp add: demo_ssys_def)
  obtain RP SP where t: "run_transfer demo_host demo_rconn (UserBuf 0) 5 demo_rsys
        demo_host demo_sconn [10, 20, 30, 40, 50] 5 demo_ssys = (Ret RP, Ret SP)"
      "rp_rc RP = 0" "sp_rc SP = 0"
    and arr: "\<And>ds. set ds \<subseteq> set (wire_datagrams SP) \<Longrightarrow>
        \<exists>rs. arrive ds (arrival_state demo_host RP) = Some rs
          \<and> ((\<forall>k. sps_sendto demo_ssys k > 0) \<and> set ds = set (wire_datagrams SP) \<longrightarrow>
               rs_mem rs 0 = [10, 20, 30, 40, 50])"
    using transfer_end_to_end [OF demo_ready ids gens buf few] by blast
  with arr [of "rev (wire_datagrams SP) @ wire_datagrams SP"] sent show ?thesis by auto
qed

text \<open>C9: A transfer whose slot generation is out of step is lost.  If the counter the CTS is stamped
  from differs from the slot's own generation counter, the handshake succeeds all the same, but every
  datagram of the transfer is dropped: whatever arrives leaves the receiver's state as it was.\<close>

theorem mismatched_generation_loses_transfer:
  assumes R: "receiver_ready hR cR buffer len sysR" and S: "sender_ready cS data len sysS"
    and ids: "ctx_next_msg_id (hs_ctx hS) mod 1024 = ctx_next_msg_id (hs_ctx hR) mod 1024"
    and gens: "cc_generation_counters (sc_connection_ctx cR) ! unat (ctx_next_msg_id (hs_ctx hR) mod 1024)
      \<noteq> hs_receiver_generation_counter hR"
    and few: "packet_count (length data) (unat (cp_mtu_bytes (agreed cR len cS len))) \<le> 2 ^ 18"
  shows "\<exists>RP SP. run_transfer hR cR buffer len sysR hS cS data len sysS = (Ret RP, Ret SP)
    \<and> rp_rc RP = 0 \<and> sp_rc SP = 0
    \<and> (\<forall>ds. set ds \<subseteq> set (wire_datagrams SP) \<longrightarrow>
          arrive ds (arrival_state hR RP) = Some (arrival_state hR RP))"
proof -
  let ?i = "ctx_next_msg_id (hs_ctx hR) mod 1024" and ?gen = "hs_receiver_generation_counter hR"
  let ?p = "agreed cR len cS len" let ?mtu = "unat (cp_mtu_bytes ?p)"
  let ?dg = "data_datagram ?gen ?i (cp_packets_per_chunk ?p) ?mtu data"
  obtain RP SP mc cc1 tp tc fd base num where t:
    "run_transfer hR cR buffer len sysR hS cS data len sysS = (Ret RP, Ret SP)"
    "rp_rc RP = 0" "sp_rc SP = 0"
    "allocate_message_slot (snd (cc_initialize (sc_connection_ctx cR)
        (cc_connection_id (sc_connection_ctx cR)) ?p)) ?i ?gen = (Some mc, cc1)"
    "mc_generation mc = cc_generation_counters (sc_connection_ctx cR) ! unat ?i"
    "sc_connection_ctx (rp_conn RP) = (update_message cc1 ?i
        (setup_message buffer len tp tc (?p\<lparr>cp_transfer_id := ?gen\<rparr>)))\<lparr>cc_udp_socket_fd := fd\<rparr>"
    "sp_wire SP = map (\<lambda>k. (channel_port base num k, ?dg k))
        (filter (\<lambda>k. sps_sendto sysS (of_nat k) > 0) [0..<packet_count (length data) ?mtu])"
    using run_transfer_ok [OF R S, of hS] unfolding ids by force
  note use = agreed_usable [of cR len cS len]
  have i: "unat ?i < 1024" by (simp add: unat_mod)
  have "cc_wf (sc_connection_ctx cR)" using R by (simp add: receiver_ready_def)
  then have found: "\<exists>m. get_message (rs_conn (arrival_state hR RP)) ?i = Some m \<and> mc_generation m \<noteq> ?gen"
    unfolding arrival_state_def t(6) RecvState.simps
    by (rule posted_lookup [OF _ t(4) i]) (use t(5) gens in simp)
  have "arrive ds (arrival_state hR RP) = Some (arrival_state hR RP)"
    if "set ds \<subseteq> set (wire_datagrams SP)" for ds
    using that
  proof (induction ds)
    case Nil
    then show ?case by (simp add: arrive_def)
  next
    case (Cons d ds)
    then obtain k where k: "d = ?dg k" "k < packet_count (length data) ?mtu"
      by (auto simp: wire_datagrams_def t(7))
    have "k < 2 ^ 18" using k(2) few by linarith
    moreover have "k * ?mtu < length data" using k(2) packet_count_iff [OF use(1)] by blast
    ultimately have "handle_datagram (arrival_state hR RP) d = Some (arrival_state hR RP)"
      using found stale_dropped [OF _ _ i use(1,2)] k(1) by blast
    with Cons show ?case by (simp add: arrive_def)
  qed
  with t(1-3) show ?thesis by blast
qed

text \<open>The second transfer of two fresh processes: message id 1, whose slot counts from 1, under generation 2.\<close>

definition demo_second :: Host where
  "demo_second = demo_host\<lparr>hs_ctx := (hs_ctx demo_host)\<lparr>ctx_next_msg_id := 1\<rparr>, hs_receiver_generation_counter := 2\<rparr>"

theorem mismatched_generation_loses_transfer_witness:
  "\<exists>RP SP. run_transfer demo_second demo_rconn (UserBuf 0) 5 demo_rsys
        demo_second demo_sconn [10, 20, 30, 40, 50] 5 demo_ssys = (Ret RP, Ret SP)
    \<and> rp_rc RP = 0 \<and> sp_rc SP = 0
    \<and> arrive (wire_datagrams SP) (arrival_state demo_second RP) = Some (arrival_state demo_second RP)"
proof -
  have "cc_msg_table (sc_connection_ctx demo_rconn) ! 1 = None"
    by (simp add: demo_rconn_def cc_initialize_def ConnectionContext_new_def MAX_MESSAGES_def)
  then have "slot_free demo_second (sc_connection_ctx demo_rconn)"
    by (simp add: slot_free_def demo_second_def slot_reusable_def)
  then have R: "receiver_ready demo_second demo_rconn (UserBuf 0) 5 demo_rsys"
    using demo_ready(1) by (simp add: receiver_ready_def)
  have gens: "cc_generation_counters (sc_connection_ctx demo_rconn) ! unat (ctx_next_msg_id (hs_ctx demo_second) mod 1024)
      \<noteq> hs_receiver_generation_counter demo_second"
    by (simp add: demo_rconn_def demo_second_def cc_initialize_def ConnectionContext_new_def MAX_MESSAGES_def)
  have few: "packet_count (length [10, 20, 30, 40, 50 :: u8])
      (unat (cp_mtu_bytes (agreed demo_rconn 5 demo_sconn 5))) \<le> 2 ^ 18"
    by (simp add: demo_agreed packet_count_def)
  show ?thesis
    using mismatched_generation_loses_transfer [OF R demo_ready(2) HOL.refl gens few] by blast
qed

text \<open>C10: The counters fall out of step with the second message.  When the counter of the process and
  all slot counters are equal, as at the start, a successful post under a message id leaves the next
  one in a slot whose counter is one behind the generation it will announce.\<close>

theorem second_post_out_of_step:
  assumes R: "receiver_ready hR cR buffer len sysR" and S: "sender_ready cS data len sysS"
    and equal: "\<forall>j<1024. cc_generation_counters (sc_connection_ctx cR) ! j = hs_receiver_generation_counter hR"
  shows "\<exists>RP SP. run_transfer hR cR buffer len sysR hS cS data len sysS = (Ret RP, Ret SP)
    \<and> (let next_id = ctx_next_msg_id (hs_ctx (rp_host RP)) mod 1024 in
        cc_generation_counters (sc_connection_ctx (rp_conn RP)) ! unat next_id + 1
          = hs_receiver_generation_counter (rp_host RP))"
proof -
  let ?i = "ctx_next_msg_id (hs_ctx hR) mod 1024" and ?gen = "hs_receiver_generation_counter hR"
  let ?p = "agreed cR len cS len" let ?cc = "sc_connection_ctx cR"
  obtain RP SP mc cc1 tp tc fd where t:
    "run_transfer hR cR buffer len sysR hS cS data len sysS = (Ret RP, Ret SP)"
    "rp_host RP = hR\<lparr>hs_ctx := (hs_ctx hR)\<lparr>ctx_next_msg_id := (ctx_next_msg_id (hs_ctx hR) + 1) mod 1024\<rparr>,
        hs_receiver_generation_counter := ?gen + 1\<rparr>"
    "allocate_message_slot (snd (cc_initialize ?cc (cc_connection_id ?cc) ?p)) ?i ?gen = (Some mc, cc1)"
    "sc_connection_ctx (rp_conn RP) = (update_message cc1 ?i
        (setup_message buffer len tp tc (?p\<lparr>cp_transfer_id := ?gen\<rparr>)))\<lparr>cc_udp_socket_fd := fd\<rparr>"
    using run_transfer_ok [OF R S, of hS] by force
  let ?next = "ctx_next_msg_id (hs_ctx (rp_host RP)) mod 1024"
  have n: "?next = (ctx_next_msg_id (hs_ctx hR) + 1) mod 1024" by (simp add: t(2) word_unat_eq_iff unat_mod)
  have lt: "unat ?next < 1024" "unat ?i < 1024" by (simp_all add: unat_mod)
  have ne: "unat ?next \<noteq> unat ?i" unfolding n by (rule next_id_differs)
  have "cc_generation_counters (sc_connection_ctx (rp_conn RP)) ! unat ?next = ?gen"
    using t(3) ne equal lt
    by (auto simp: t(4) update_message_def allocate_message_slot_def cc_initialize_def Let_def split: if_splits)
  then show ?thesis using t(1,2) by (simp add: Let_def)
qed

theorem second_post_out_of_step_witness:
  "\<exists>RP SP. run_transfer demo_host demo_rconn (UserBuf 0) 5 demo_rsys
        demo_host demo_sconn [10, 20, 30, 40, 50] 5 demo_ssys = (Ret RP, Ret SP)
    \<and> (let next_id = ctx_next_msg_id (hs_ctx (rp_host RP)) mod 1024 in
        cc_generation_counters (sc_connection_ctx (rp_conn RP)) ! unat next_id + 1
          = hs_receiver_generation_counter (rp_host RP))"
  by (rule second_post_out_of_step [OF demo_ready])
    (simp add: demo_rconn_def demo_host_def cc_initialize_def ConnectionContext_new_def MAX_MESSAGES_def)

end
